(* ===== verification/Prelude.thy ===== *)
theory Prelude
  imports Main "HOL-Library.Word" "HOL-Library.Multiset" "HOL-Library.Sublist"
begin

text \<open>
  Shared vocabulary of the development: the machine integers of Go, byte strings, big-endian
  numbers, slices, and the generic list facts that the component theories use. The collections
  declared here are filled by the component theories and carry their proofs:
  \<^item> \<open>go_simps\<close>: unfolding facts of small getters and constants;
  \<^item> \<open>kad_inv\<close>: facts saying that an operation of the Kademlia layer keeps an invariant;
  \<^item> \<open>eth_inv\<close>: the same for the Ethereum layer;
  \<^item> \<open>ndn_inv\<close>: the same for the NDN transport layer.
\<close>

unbundle bit_operations_syntax

named_theorems go_simps \<open>constants and getters to unfold\<close>
named_theorems kad_inv \<open>invariant preservation in the Kademlia layer\<close>
named_theorems eth_inv \<open>invariant preservation in the Ethereum layer\<close>
named_theorems ndn_inv \<open>invariant preservation in the NDN transport layer\<close>

type_synonym byte = "8 word"
type_synonym bytes = "8 word list"
type_synonym u8 = "8 word"
type_synonym u16 = "16 word"
type_synonym u32 = "32 word"
type_synonym u64 = "64 word"

section \<open>Slices\<close>

text \<open>The Go slice expression \<open>xs[i:j]\<close> for \<open>i \<le> j \<le> len(xs)\<close>.\<close>

definition slice :: "'a list \<Rightarrow> nat \<Rightarrow> nat \<Rightarrow> 'a list" where
  "slice xs i j = take (j - i) (drop i xs)"

lemma length_slice [simp]: "length (slice xs i j) = min (j - i) (length xs - i)"
  by (simp add: slice_def)

lemma slice_0_take: "slice xs 0 j = take j xs"
  by (simp add: slice_def)

lemma slice_append_slice:
  assumes "i \<le> j" "j \<le> k"
  shows "slice xs i j @ slice xs j k = slice xs i k"
proof -
  have "slice xs i k = take ((j - i) + (k - j)) (drop i xs)"
    using assms by (simp add: slice_def)
  also have "\<dots> = take (j - i) (drop i xs) @ take (k - j) (drop (j - i) (drop i xs))"
    by (rule take_add)
  also have "\<dots> = slice xs i j @ slice xs j k"
    using assms by (simp add: slice_def)
  finally show ?thesis by simp
qed

lemma slice_full: "length xs \<le> j \<Longrightarrow> slice xs 0 j = xs"
  by (simp add: slice_def)

lemma slice_beyond: "length xs \<le> i \<Longrightarrow> slice xs i j = []"
  by (simp add: slice_def)

lemma slice_min: "slice xs i (min (length xs) j) = slice xs i j"
  by (cases "i \<le> length xs") (auto simp: slice_def min_def)

text \<open>Cutting a list into pieces of a fixed size and joining them again.\<close>

lemma concat_slices:
  "concat (map (\<lambda>i. slice xs (i * s) (Suc i * s)) [0..<n]) = slice xs 0 (n * s)"
proof (induction n)
  case 0
  then show ?case by (simp add: slice_def)
next
  case (Suc n)
  then show ?case
    using slice_append_slice [of 0 "n * s" "Suc n * s" xs] by simp
qed

text \<open>The Go built-in \<open>copy(dst, src)\<close>: the number of bytes copied is the smaller length.\<close>

definition go_copy :: "'a list \<Rightarrow> 'a list \<Rightarrow> 'a list" where
  "go_copy dst src = take (length dst) src @ drop (length src) dst"

lemma length_go_copy [simp]: "length (go_copy dst src) = length dst"
  by (simp add: go_copy_def)

lemma go_copy_same [simp]: "length src = length dst \<Longrightarrow> go_copy dst src = src"
  by (simp add: go_copy_def)

section \<open>Big-endian numbers\<close>

fun be_nat :: "bytes \<Rightarrow> nat" where
  "be_nat [] = 0"
| "be_nat (b # bs) = unat b * 256 ^ length bs + be_nat bs"

lemma unat_byte_bound [simp]: "unat (b :: byte) < 256"
  using unsigned_less [of b] by simp

lemma be_nat_bound: "be_nat bs < 256 ^ length bs"
proof (induction bs)
  case Nil
  then show ?case by simp
next
  case (Cons b bs)
  have "unat b + 1 \<le> 256" using unat_byte_bound [of b] by linarith
  then have "(unat b + 1) * 256 ^ length bs \<le> 256 * 256 ^ length bs"
    by (rule mult_le_mono1)
  then have "unat b * 256 ^ length bs + 256 ^ length bs \<le> 256 * 256 ^ length bs"
    by (simp add: algebra_simps)
  with Cons have "unat b * 256 ^ length bs + be_nat bs < 256 * 256 ^ length bs"
    by linarith
  then show ?case by simp
qed

lemma be_nat_append: "be_nat (xs @ ys) = be_nat xs * 256 ^ length ys + be_nat ys"
  by (induction xs) (simp_all add: algebra_simps power_add)

lemma be_nat_replicate_0: "be_nat (replicate n 0 @ bs) = be_nat bs"
  by (induction n) auto

text \<open>A digit decides a comparison of two numbers of the same length.\<close>

lemma be_nat_less_head:
  assumes "length xs = length ys" "unat x < unat y"
  shows "be_nat (x # xs) < be_nat (y # ys)"
proof -
  have "be_nat (x # xs) < (unat x + 1) * 256 ^ length xs"
    using be_nat_bound [of xs] by simp
  also have "\<dots> \<le> unat y * 256 ^ length xs"
    using assms(2) by (intro mult_le_mono1) simp
  also have "\<dots> \<le> be_nat (y # ys)" using assms(1) by simp
  finally show ?thesis .
qed

lemma be_nat_inj: "length xs = length ys \<Longrightarrow> be_nat xs = be_nat ys \<Longrightarrow> xs = ys"
proof (induction xs ys rule: list_induct2)
  case Nil
  then show ?case by simp
next
  case (Cons x xs y ys)
  have "unat x = unat y"
    using be_nat_less_head [of xs ys x y] be_nat_less_head [of ys xs y x] Cons
    by (metis nat_neq_iff)
  then have "x = y" by (rule unsigned_word_eqI)
  with Cons show ?case by simp
qed

lemma be_nat_eq_0_iff: "be_nat bs = 0 \<longleftrightarrow> set bs \<subseteq> {0}"
  by (induction bs) (auto simp: unat_eq_0)

section \<open>List updates\<close>

text \<open>The Go statement \<open>xs[i], xs[j] = xs[j], xs[i]\<close>.\<close>

definition list_swap :: "nat \<Rightarrow> nat \<Rightarrow> 'a list \<Rightarrow> 'a list" where
  "list_swap i j xs = xs[i := xs ! j, j := xs ! i]"

lemma length_list_swap [simp]: "length (list_swap i j xs) = length xs"
  by (simp add: list_swap_def)

lemma nth_list_swap:
  "i < length xs \<Longrightarrow> j < length xs \<Longrightarrow>
   list_swap i j xs ! k = (if k = j then xs ! i else if k = i then xs ! j else xs ! k)"
  by (auto simp: list_swap_def nth_list_update)

lemma mset_list_swap [simp]:
  "i < length xs \<Longrightarrow> j < length xs \<Longrightarrow> mset (list_swap i j xs) = mset xs"
  by (simp add: list_swap_def mset_swap)

lemma set_list_swap [simp]:
  "i < length xs \<Longrightarrow> j < length xs \<Longrightarrow> set (list_swap i j xs) = set xs"
  by (metis mset_list_swap set_mset_mset)

lemma map_list_swap:
  "i < length xs \<Longrightarrow> j < length xs \<Longrightarrow> map f (list_swap i j xs) = list_swap i j (map f xs)"
  by (simp add: list_swap_def map_update)

lemma distinct_map_filter_id: "distinct (map f xs) \<Longrightarrow> distinct (map f (filter P xs))"
  by (induction xs) auto

lemma distinct_map_append_single:
  "distinct (map f (xs @ [x])) \<longleftrightarrow> distinct (map f xs) \<and> f x \<notin> f ` set xs"
  by auto

end
