(* ===== verification/GoHeap.thy ===== *)
theory GoHeap
  imports Prelude
begin

text \<open>
  The binary heap of Go's standard package \<open>container/heap\<close> (\<open>Init\<close>, \<open>Push\<close>,
  \<open>Pop\<close>, \<open>up\<close>, \<open>down\<close>), which the Kademlia peer queue (\<open>Pq\<close>), the timer queue of
  the pending-Interest table (\<open>ipq\<close>) and \<open>common/prque\<close> are instances of. The comparison
  \<open>lt\<close> is the client's \<open>Less\<close>; it may be strict or not. \<open>sw i j\<close> is the client's
  \<open>Swap\<close>, which may also write an index into the two elements.
\<close>

section \<open>The operations\<close>

function heap_up :: "('a \<Rightarrow> 'a \<Rightarrow> bool) \<Rightarrow> (nat \<Rightarrow> nat \<Rightarrow> 'a list \<Rightarrow> 'a list) \<Rightarrow>
    nat \<Rightarrow> 'a list \<Rightarrow> 'a list" where
  "heap_up lt sw j xs =
     (let i = (j - 1) div 2 in
      if i = j \<or> \<not> lt (xs ! j) (xs ! i) then xs else heap_up lt sw i (sw i j xs))"
  by pat_completeness auto
termination
  by (relation "measure (\<lambda>(lt, sw, j, xs). j)") auto

declare heap_up.simps [simp del]

text \<open>\<open>h_down i n\<close> is \<open>down(h, i, n)\<close>: only the first \<open>n\<close> elements take part.\<close>

definition heap_child :: "('a \<Rightarrow> 'a \<Rightarrow> bool) \<Rightarrow> nat \<Rightarrow> nat \<Rightarrow> 'a list \<Rightarrow> nat" where
  "heap_child lt i n xs =
     (let j1 = 2 * i + 1; j2 = j1 + 1
      in if j2 < n \<and> lt (xs ! j2) (xs ! j1) then j2 else j1)"

function heap_down :: "('a \<Rightarrow> 'a \<Rightarrow> bool) \<Rightarrow> (nat \<Rightarrow> nat \<Rightarrow> 'a list \<Rightarrow> 'a list) \<Rightarrow>
    nat \<Rightarrow> nat \<Rightarrow> 'a list \<Rightarrow> 'a list" where
  "heap_down lt sw i n xs =
     (if 2 * i + 1 \<ge> n then xs
      else (let j = heap_child lt i n xs in
        if \<not> lt (xs ! j) (xs ! i) then xs else heap_down lt sw j n (sw i j xs)))"
  by pat_completeness auto
termination
  by (relation "measure (\<lambda>(lt, sw, i, n, xs). n - i)")
    (auto simp: heap_child_def Let_def split: if_splits)

declare heap_down.simps [simp del]

fun heap_init_from :: "('a \<Rightarrow> 'a \<Rightarrow> bool) \<Rightarrow> (nat \<Rightarrow> nat \<Rightarrow> 'a list \<Rightarrow> 'a list) \<Rightarrow>
    nat \<Rightarrow> 'a list \<Rightarrow> 'a list" where
  "heap_init_from lt sw 0 xs = xs"
| "heap_init_from lt sw (Suc i) xs =
     heap_init_from lt sw i (heap_down lt sw i (length xs) xs)"

definition heap_init :: "('a \<Rightarrow> 'a \<Rightarrow> bool) \<Rightarrow> (nat \<Rightarrow> nat \<Rightarrow> 'a list \<Rightarrow> 'a list) \<Rightarrow>
    'a list \<Rightarrow> 'a list" where
  "heap_init lt sw xs = heap_init_from lt sw (length xs div 2) xs"

text \<open>\<open>heap_push\<close> takes the queue after the client's own \<open>Push\<close>, which appends.\<close>

definition heap_push :: "('a \<Rightarrow> 'a \<Rightarrow> bool) \<Rightarrow> (nat \<Rightarrow> nat \<Rightarrow> 'a list \<Rightarrow> 'a list) \<Rightarrow>
    'a \<Rightarrow> 'a list \<Rightarrow> 'a list" where
  "heap_push lt sw x xs = heap_up lt sw (length xs) (xs @ [x])"

text \<open>\<open>heap_pop\<close> of an empty queue indexes position -1, a panic: the result is \<open>None\<close>.\<close>

definition heap_pop :: "('a \<Rightarrow> 'a \<Rightarrow> bool) \<Rightarrow> (nat \<Rightarrow> nat \<Rightarrow> 'a list \<Rightarrow> 'a list) \<Rightarrow>
    'a list \<Rightarrow> ('a \<times> 'a list) option" where
  "heap_pop lt sw xs =
     (if xs = [] then None
      else (let n = length xs - 1; ys = heap_down lt sw 0 n (sw 0 n xs)
            in Some (last ys, butlast ys)))"

section \<open>The heap property\<close>

definition heap_parent :: "nat \<Rightarrow> nat" where
  "heap_parent j = (j - 1) div 2"

text \<open>
  \<open>heap_from le m n xs\<close>: among the first \<open>n\<close> elements, every element whose parent is at
  index at least \<open>m\<close> is no smaller than that parent.
\<close>

definition heap_from :: "('a \<Rightarrow> 'a \<Rightarrow> bool) \<Rightarrow> nat \<Rightarrow> nat \<Rightarrow> 'a list \<Rightarrow> bool" where
  "heap_from le m n xs \<longleftrightarrow>
     (\<forall>j. 0 < j \<longrightarrow> j < n \<longrightarrow> m \<le> heap_parent j \<longrightarrow> le (xs ! heap_parent j) (xs ! j))"

definition is_heap :: "('a \<Rightarrow> 'a \<Rightarrow> bool) \<Rightarrow> 'a list \<Rightarrow> bool" where
  "is_heap le xs \<longleftrightarrow> heap_from le 0 (length xs) xs"

text \<open>The heap property except below, respectively above, one index.\<close>

definition heap_except_down :: "('a \<Rightarrow> 'a \<Rightarrow> bool) \<Rightarrow> nat \<Rightarrow> nat \<Rightarrow> nat \<Rightarrow> 'a list \<Rightarrow> bool" where
  "heap_except_down le m i n xs \<longleftrightarrow>
     (\<forall>j. 0 < j \<longrightarrow> j < n \<longrightarrow> m \<le> heap_parent j \<longrightarrow> heap_parent j \<noteq> i \<longrightarrow>
        le (xs ! heap_parent j) (xs ! j)) \<and>
     (\<forall>j. 0 < j \<longrightarrow> j < n \<longrightarrow> heap_parent j = i \<longrightarrow> 0 < i \<longrightarrow> m \<le> heap_parent i \<longrightarrow>
        le (xs ! heap_parent i) (xs ! j))"

definition heap_except_up :: "('a \<Rightarrow> 'a \<Rightarrow> bool) \<Rightarrow> nat \<Rightarrow> 'a list \<Rightarrow> bool" where
  "heap_except_up le i xs \<longleftrightarrow>
     (\<forall>j. 0 < j \<longrightarrow> j < length xs \<longrightarrow> j \<noteq> i \<longrightarrow> le (xs ! heap_parent j) (xs ! j)) \<and>
     (\<forall>j. 0 < j \<longrightarrow> j < length xs \<longrightarrow> heap_parent j = i \<longrightarrow> 0 < i \<longrightarrow>
        le (xs ! heap_parent i) (xs ! j))"

lemma heap_parent_less [simp]: "0 < j \<Longrightarrow> heap_parent j < j"
  by (auto simp: heap_parent_def)

lemma heap_parent_bound [simp]: "0 < j \<Longrightarrow> j < n \<Longrightarrow> heap_parent j < n"
  using heap_parent_less [of j] by linarith

lemma heap_parent_le_bound: "0 < j \<Longrightarrow> j \<le> n \<Longrightarrow> heap_parent j < n"
  using heap_parent_less [of j] by linarith

lemma heap_parent_children:
  "0 < j \<Longrightarrow> heap_parent j = i \<longleftrightarrow> j = 2 * i + 1 \<or> j = 2 * i + 2"
  by (auto simp: heap_parent_def)

lemma heap_child_range:
  "2 * i + 1 < n \<Longrightarrow> heap_child lt i n xs < n \<and> i < heap_child lt i n xs \<and>
     heap_parent (heap_child lt i n xs) = i"
  by (auto simp: heap_child_def heap_parent_def Let_def)

section \<open>The exchanges keep the elements\<close>

lemma heap_down_mset:
  "n \<le> length xs \<Longrightarrow> mset (heap_down lt list_swap i n xs) = mset xs \<and>
     drop n (heap_down lt list_swap i n xs) = drop n xs"
proof (induction "n - i" arbitrary: i xs rule: less_induct)
  case less
  define j where "j = heap_child lt i n xs"
  show ?case
  proof (cases "2 * i + 1 < n \<and> lt (xs ! j) (xs ! i)")
    case True
    have r: "i < j" "j < n"
      using heap_child_range [of i n lt xs] True by (auto simp: j_def)
    have "heap_down lt list_swap i n xs = heap_down lt list_swap j n (list_swap i j xs)"
      using True by (simp add: heap_down.simps [of lt list_swap i n xs] j_def Let_def)
    moreover have "drop n (list_swap i j xs) = drop n xs"
      using r by (simp add: list_swap_def)
    ultimately show ?thesis
      using less.hyps [of j "list_swap i j xs"] less.prems r by simp
  next
    case False
    then have "heap_down lt list_swap i n xs = xs"
      by (auto simp: heap_down.simps [of lt list_swap i n xs] j_def Let_def)
    then show ?thesis by simp
  qed
qed

lemma length_heap_down: "n \<le> length xs \<Longrightarrow> length (heap_down lt list_swap i n xs) = length xs"
  using heap_down_mset [of n xs lt i] by (metis size_mset)

lemma heap_up_mset: "j < length xs \<Longrightarrow> mset (heap_up lt list_swap j xs) = mset xs"
proof (induction j arbitrary: xs rule: less_induct)
  case (less j)
  define i where "i = heap_parent j"
  show ?case
  proof (cases "j = 0 \<or> \<not> lt (xs ! j) (xs ! i)")
    case True
    then have "heap_up lt list_swap j xs = xs"
      by (auto simp: heap_up.simps [of lt list_swap j xs] i_def heap_parent_def Let_def)
    then show ?thesis by simp
  next
    case False
    have ij: "i < j" using False by (simp add: i_def)
    have "heap_up lt list_swap j xs = heap_up lt list_swap i (list_swap i j xs)"
      using False ij by (simp add: heap_up.simps [of lt list_swap j xs] i_def heap_parent_def Let_def)
    then show ?thesis using less.IH [of i "list_swap i j xs"] less.prems ij by simp
  qed
qed

section \<open>Correctness for a total preorder\<close>

text \<open>
  What \<open>container/heap\<close> asks of a client: \<open>lt\<close> agrees with a total preorder \<open>le\<close>,
  strictly or not. The lemmas of the block are about the plain exchange of two elements; the
  next section carries them to clients that also store indices.
\<close>

locale heap_order =
  fixes lt :: "'a \<Rightarrow> 'a \<Rightarrow> bool"
    and le :: "'a \<Rightarrow> 'a \<Rightarrow> bool"
  assumes le_trans: "le x y \<Longrightarrow> le y z \<Longrightarrow> le x z"
    and lt_le: "lt x y \<Longrightarrow> le x y"
    and nlt_le: "\<not> lt x y \<Longrightarrow> le y x"
begin

lemma le_refl: "le x x"
  using lt_le nlt_le by blast

lemma le_total: "le x y \<or> le y x"
  using lt_le nlt_le by blast

lemma heap_child_least:
  assumes "2 * i + 1 < n" "0 < k" "k < n" "heap_parent k = i"
  shows "le (xs ! heap_child lt i n xs) (xs ! k)"
proof -
  have "k = 2 * i + 1 \<or> k = 2 * i + 2"
    using assms(2,4) heap_parent_children by blast
  then show ?thesis
    using assms by (auto simp: heap_child_def Let_def intro: lt_le nlt_le le_refl)
qed

lemma heap_down_step:
  assumes ex: "heap_except_down le m i n xs" and n: "n \<le> length xs" and "m \<le> i"
    and c: "2 * i + 1 < n" and j: "j = heap_child lt i n xs" and lt: "lt (xs ! j) (xs ! i)"
  shows "heap_except_down le m j n (list_swap i j xs)"
proof -
  have jn: "j < n" and ij: "i < j" and pj: "heap_parent j = i"
    using heap_child_range [OF c, of lt xs] by (auto simp: j)
  note nth = nth_list_swap [of i xs j]
  have len: "i < length xs" "j < length xs" using jn ij n by auto
  have 1: "le (list_swap i j xs ! heap_parent k) (list_swap i j xs ! k)"
    if k: "0 < k" "k < n" "m \<le> heap_parent k" "heap_parent k \<noteq> j" for k
  proof (cases "heap_parent k = i")
    case True
    have "le (xs ! j) (xs ! k)" using heap_child_least [OF c k(1,2) True] by (simp add: j)
    moreover have "k \<noteq> i" using True k(1) heap_parent_less [of k] by auto
    ultimately show ?thesis
      using True len ij lt_le [OF lt] by (auto simp: nth)
  next
    case False
    have base: "le (xs ! heap_parent k) (xs ! k)"
      using ex k False by (auto simp: heap_except_down_def)
    have "le (xs ! heap_parent i) (xs ! j)" if "k = i"
      using ex k that jn pj ij by (auto simp: heap_except_down_def)
    then show ?thesis
      using base False k pj len by (auto simp: nth)
  qed
  have 2: "le (list_swap i j xs ! heap_parent j) (list_swap i j xs ! k)"
    if k: "0 < k" "k < n" "heap_parent k = j" for k
  proof -
    have "le (xs ! j) (xs ! k)"
      using ex k ij \<open>m \<le> i\<close> by (auto simp: heap_except_down_def)
    moreover have "k \<noteq> i" "k \<noteq> j"
      using k ij heap_parent_less [of k] by auto
    ultimately show ?thesis using pj ij len by (simp add: nth)
  qed
  show ?thesis
    unfolding heap_except_down_def using 1 2 by blast
qed

lemma heap_down_done:
  assumes ex: "heap_except_down le m i n xs"
    and stop: "n \<le> 2 * i + 1 \<or> \<not> lt (xs ! heap_child lt i n xs) (xs ! i)"
  shows "heap_from le m n xs"
  unfolding heap_from_def
proof (intro allI impI)
  fix k assume k: "0 < k" "k < n" "m \<le> heap_parent k"
  show "le (xs ! heap_parent k) (xs ! k)"
  proof (cases "heap_parent k = i")
    case True
    then have c: "2 * i + 1 < n" using k(1,2) heap_parent_children [of k i] by auto
    then have "le (xs ! i) (xs ! heap_child lt i n xs)" using stop nlt_le by auto
    moreover have "le (xs ! heap_child lt i n xs) (xs ! k)"
      by (rule heap_child_least [OF c k(1,2) True])
    ultimately show ?thesis using True le_trans by blast
  next
    case False
    then show ?thesis using ex k by (auto simp: heap_except_down_def)
  qed
qed

lemma heap_down_heap:
  assumes "heap_except_down le m i n xs" "n \<le> length xs" "m \<le> i"
  shows "heap_from le m n (heap_down lt list_swap i n xs)"
  using assms
proof (induction "n - i" arbitrary: i xs rule: less_induct)
  case less
  define j where "j = heap_child lt i n xs"
  show ?case
  proof (cases "2 * i + 1 < n \<and> lt (xs ! j) (xs ! i)")
    case True
    have r: "i < j" "j < n"
      using heap_child_range [of i n lt xs] True by (auto simp: j_def)
    have "heap_from le m n (heap_down lt list_swap j n (list_swap i j xs))"
      using less.prems r True
      by (intro less.hyps) (auto intro!: heap_down_step simp: j_def)
    moreover have "heap_down lt list_swap i n xs = heap_down lt list_swap j n (list_swap i j xs)"
      using True by (simp add: heap_down.simps [of lt list_swap i n xs] j_def Let_def)
    ultimately show ?thesis by simp
  next
    case False
    then have "heap_down lt list_swap i n xs = xs"
      by (auto simp: heap_down.simps [of lt list_swap i n xs] j_def Let_def)
    then show ?thesis
      using heap_down_done [OF less.prems(1)] False by (auto simp: j_def not_less)
  qed
qed

lemma heap_up_step:
  assumes ex: "heap_except_up le j xs" and j: "0 < j" "j < length xs"
    and i: "i = heap_parent j" and lt: "lt (xs ! j) (xs ! i)"
  shows "heap_except_up le i (list_swap i j xs)"
proof -
  have ij: "i < j" using j i by simp
  have len: "i < length xs" using ij j by simp
  note nth = nth_list_swap [OF len j(2)]
  have le_ji: "le (xs ! j) (xs ! i)" by (rule lt_le [OF lt])
  have 1: "le (list_swap i j xs ! heap_parent k) (list_swap i j xs ! k)"
    if k: "0 < k" "k < length xs" "k \<noteq> i" for k
  proof (cases "k = j")
    case True
    then show ?thesis using le_ji ij by (simp add: nth flip: i)
  next
    case False
    have base: "le (xs ! heap_parent k) (xs ! k)"
      using ex k False by (auto simp: heap_except_up_def)
    have "le (xs ! i) (xs ! k)" if "heap_parent k = j"
      using ex k j that i by (auto simp: heap_except_up_def)
    moreover have "le (xs ! j) (xs ! k)" if "heap_parent k = i"
      using base le_ji le_trans that by auto
    ultimately show ?thesis using base False k by (auto simp: nth)
  qed
  have 2: "le (list_swap i j xs ! heap_parent i) (list_swap i j xs ! k)"
    if k: "0 < k" "k < length xs" "heap_parent k = i" "0 < i" for k
  proof -
    have pi: "le (xs ! heap_parent i) (xs ! i)"
      using ex that ij len by (auto simp: heap_except_up_def)
    have "le (xs ! i) (xs ! k)" if "k \<noteq> j"
      using ex k that by (auto simp: heap_except_up_def)
    then have "k \<noteq> j \<Longrightarrow> le (xs ! heap_parent i) (xs ! k)" using pi le_trans by blast
    moreover have "heap_parent i < i" using k(4) by simp
    moreover have "k \<noteq> i" using k(1,3) heap_parent_less [of k] by auto
    ultimately show ?thesis using pi ij by (auto simp: nth)
  qed
  show ?thesis unfolding heap_except_up_def using 1 2 by simp
qed

lemma heap_up_heap:
  assumes "heap_except_up le j xs" "j < length xs"
  shows "is_heap le (heap_up lt list_swap j xs)"
  using assms
proof (induction j arbitrary: xs rule: less_induct)
  case (less j)
  define i where "i = heap_parent j"
  show ?case
  proof (cases "j = 0 \<or> \<not> lt (xs ! j) (xs ! i)")
    case True
    then have "heap_up lt list_swap j xs = xs"
      by (auto simp: heap_up.simps [of lt list_swap j xs] i_def heap_parent_def Let_def)
    moreover have "is_heap le xs"
      unfolding is_heap_def heap_from_def
    proof (intro allI impI)
      fix k assume k: "0 < k" "k < length xs" "0 \<le> heap_parent k"
      show "le (xs ! heap_parent k) (xs ! k)"
        using less.prems(1) k True nlt_le
        by (cases "k = j") (auto simp: heap_except_up_def i_def)
    qed
    ultimately show ?thesis by simp
  next
    case False
    have ij: "i < j" using False by (simp add: i_def)
    have "heap_up lt list_swap j xs = heap_up lt list_swap i (list_swap i j xs)"
      using False ij by (simp add: heap_up.simps [of lt list_swap j xs] i_def heap_parent_def Let_def)
    moreover have "is_heap le (heap_up lt list_swap i (list_swap i j xs))"
      using False ij less.prems
      by (intro less.IH) (auto intro!: heap_up_step simp: i_def)
    ultimately show ?thesis by simp
  qed
qed

lemma heap_root_least:
  assumes "is_heap le xs" "k < length xs"
  shows "le (xs ! 0) (xs ! k)"
  using assms(2)
proof (induction k rule: less_induct)
  case (less k)
  show ?case
  proof (cases "k = 0")
    case True
    then show ?thesis by (simp add: le_refl)
  next
    case False
    then have "le (xs ! 0) (xs ! heap_parent k)" using less by simp
    moreover have "le (xs ! heap_parent k) (xs ! k)"
      using assms(1) less.prems False by (simp add: is_heap_def heap_from_def)
    ultimately show ?thesis by (rule le_trans)
  qed
qed

lemma heap_init_from_heap:
  "i \<le> length xs \<Longrightarrow> heap_from le i (length xs) xs \<Longrightarrow>
   is_heap le (heap_init_from lt list_swap i xs) \<and> mset (heap_init_from lt list_swap i xs) = mset xs"
proof (induction i arbitrary: xs)
  case 0
  then show ?case by (simp add: is_heap_def)
next
  case (Suc i)
  define ys where "ys = heap_down lt list_swap i (length xs) xs"
  have ex: "heap_except_down le i i (length xs) xs"
    unfolding heap_except_down_def
  proof (intro conjI allI impI)
    fix j assume "0 < j" "j < length xs" "i \<le> heap_parent j" "heap_parent j \<noteq> i"
    then show "le (xs ! heap_parent j) (xs ! j)"
      using Suc.prems(2) by (simp add: heap_from_def)
  next
    fix j assume "0 < i" "i \<le> heap_parent i"
    then show "le (xs ! heap_parent i) (xs ! j)" using heap_parent_less [of i] by linarith
  qed
  have "heap_from le i (length ys) ys"
    using heap_down_heap [OF ex] by (simp add: ys_def length_heap_down)
  moreover have "i \<le> length ys" using Suc.prems by (simp add: ys_def length_heap_down)
  moreover have "mset ys = mset xs" by (simp add: ys_def heap_down_mset)
  ultimately show ?case using Suc.IH [of ys] by (simp flip: ys_def)
qed

lemma heap_init_heap:
  "is_heap le (heap_init lt list_swap xs)" "mset (heap_init lt list_swap xs) = mset xs"
proof -
  have "heap_from le (length xs div 2) (length xs) xs"
    by (auto simp: heap_from_def heap_parent_def)
  then show "is_heap le (heap_init lt list_swap xs)" "mset (heap_init lt list_swap xs) = mset xs"
    using heap_init_from_heap [of "length xs div 2" xs] by (simp_all add: heap_init_def)
qed

lemma heap_push_heap:
  assumes "is_heap le xs"
  shows "is_heap le (heap_push lt list_swap x xs)"
    "mset (heap_push lt list_swap x xs) = add_mset x (mset xs)"
proof -
  have p: "heap_parent j < length xs" if "0 < j" "j < Suc (length xs)" for j
    using heap_parent_le_bound [OF that(1), of "length xs"] that by simp
  have "heap_except_up le (length xs) (xs @ [x])"
    unfolding heap_except_up_def
  proof (intro conjI allI impI)
    fix j assume "0 < j" "j < length (xs @ [x])" "j \<noteq> length xs"
    then show "le ((xs @ [x]) ! heap_parent j) ((xs @ [x]) ! j)"
      using assms p [of j] by (simp add: is_heap_def heap_from_def nth_append)
  next
    fix j assume "0 < j" "j < length (xs @ [x])" "heap_parent j = length xs"
    then show "le ((xs @ [x]) ! heap_parent (length xs)) ((xs @ [x]) ! j)"
      using p [of j] by simp
  qed
  then show "is_heap le (heap_push lt list_swap x xs)"
    by (simp add: heap_push_def heap_up_heap)
  show "mset (heap_push lt list_swap x xs) = add_mset x (mset xs)"
    by (simp add: heap_push_def heap_up_mset)
qed

lemma heap_pop_heap:
  assumes h: "is_heap le xs" and "xs \<noteq> []"
  obtains x ys where "heap_pop lt list_swap xs = Some (x, ys)" "is_heap le ys"
    "mset xs = add_mset x (mset ys)" "\<forall>y \<in> set ys. le x y"
proof -
  define n where "n = length xs - 1"
  define zs where "zs = heap_down lt list_swap 0 n (list_swap 0 n xs)"
  have n: "n < length xs" "length xs = Suc n" "0 < length xs" using assms(2) by (auto simp: n_def)
  have sw: "list_swap 0 n xs ! n = xs ! 0" using n by (simp add: nth_list_swap)
  have mz: "mset zs = mset xs" and dz: "drop n zs = drop n (list_swap 0 n xs)"
    using heap_down_mset [of n "list_swap 0 n xs" lt 0] n by (auto simp: zs_def)
  have lz: "length zs = Suc n" using mz n by (metis size_mset)
  have "zs ! n = xs ! 0"
    using dz n lz sw by (metis hd_drop_conv_nth length_list_swap lessI)
  then have last: "last zs = xs ! 0" using lz by (metis last_conv_nth diff_Suc_1 list.size(3) nat.distinct(1))
  have zs: "zs = butlast zs @ [xs ! 0]" using last lz by (metis append_butlast_last_id list.size(3) nat.distinct(1))
  have "heap_except_down le 0 0 n (list_swap 0 n xs)"
    unfolding heap_except_down_def
  proof (intro conjI allI impI)
    fix j assume j: "0 < j" "j < n" "heap_parent j \<noteq> 0"
    have "heap_parent j \<noteq> n" using heap_parent_bound [of j n] j by linarith
    then show "le (list_swap 0 n xs ! heap_parent j) (list_swap 0 n xs ! j)"
      using h n j by (simp add: is_heap_def heap_from_def nth_list_swap)
  qed simp
  then have "heap_from le 0 n zs"
    using heap_down_heap [of 0 0 n "list_swap 0 n xs"] n by (simp add: zs_def)
  then have hb: "is_heap le (butlast zs)"
    using lz by (auto simp: is_heap_def heap_from_def nth_butlast)
  have m: "mset xs = add_mset (xs ! 0) (mset (butlast zs))"
    using mz zs by (metis mset_append mset_single_iff_right union_mset_add_mset_right
        add_mset_add_single mset.simps)
  have "\<forall>y \<in> set (butlast zs). le (xs ! 0) y"
  proof
    fix y assume "y \<in> set (butlast zs)"
    then have "y \<in> set xs" using m by (metis in_diffD insert_iff set_mset_add_mset_insert set_mset_mset)
    then show "le (xs ! 0) y" using heap_root_least [OF h] by (metis in_set_conv_nth)
  qed
  with hb m last that [of "xs ! 0" "butlast zs"] assms(2) show thesis
    by (simp add: heap_pop_def Let_def zs_def n_def)
qed

end

section \<open>Clients that store indices\<close>

text \<open>
  A client's elements may carry bookkeeping that the order ignores (the \<open>index\<close> field that
  \<open>Swap\<close>, \<open>Push\<close> and \<open>Pop\<close> write). \<open>core\<close> forgets it; \<open>ltx\<close> and \<open>sw\<close> are
  the client's own \<open>Less\<close> and \<open>Swap\<close>. \<open>ok\<close> delimits the elements on which \<open>Less\<close> is an
  order (for example, the elements of one queue share a target).
\<close>

locale heap_client = heap_order lt le for lt :: "'b \<Rightarrow> 'b \<Rightarrow> bool" and le :: "'b \<Rightarrow> 'b \<Rightarrow> bool" +
  fixes ltx :: "'a \<Rightarrow> 'a \<Rightarrow> bool"
    and sw :: "nat \<Rightarrow> nat \<Rightarrow> 'a list \<Rightarrow> 'a list"
    and core :: "'a \<Rightarrow> 'b"
    and ok :: "'b \<Rightarrow> bool"
  assumes ltx_core: "ok (core x) \<Longrightarrow> ok (core y) \<Longrightarrow> ltx x y = lt (core x) (core y)"
    and sw_core: "i < length xs \<Longrightarrow> j < length xs \<Longrightarrow>
      map core (sw i j xs) = list_swap i j (map core xs)"
begin

definition oks :: "'a list \<Rightarrow> bool" where
  "oks xs \<longleftrightarrow> (\<forall>c \<in># mset (map core xs). ok c)"

lemma length_sw: "i < length xs \<Longrightarrow> j < length xs \<Longrightarrow> length (sw i j xs) = length xs"
  using sw_core [of i xs j] by (metis length_list_swap length_map)

lemma oks_sw: "oks xs \<Longrightarrow> i < length xs \<Longrightarrow> j < length xs \<Longrightarrow> oks (sw i j xs)"
  unfolding oks_def sw_core by simp

lemma ltx_nth:
  "oks xs \<Longrightarrow> i < length xs \<Longrightarrow> j < length xs \<Longrightarrow>
   ltx (xs ! i) (xs ! j) = lt (map core xs ! i) (map core xs ! j)"
  by (simp add: oks_def ltx_core)

lemma child_core:
  "oks xs \<Longrightarrow> 2 * i + 1 < n \<Longrightarrow> n \<le> length xs \<Longrightarrow>
   heap_child ltx i n xs = heap_child lt i n (map core xs)"
  by (auto simp: heap_child_def ltx_nth Let_def)

lemma down_core:
  "oks xs \<Longrightarrow> n \<le> length xs \<Longrightarrow>
   map core (heap_down ltx sw i n xs) = heap_down lt list_swap i n (map core xs)"
proof (induction "n - i" arbitrary: i xs rule: less_induct)
  case less
  define j where "j = heap_child ltx i n xs"
  show ?case
  proof (cases "2 * i + 1 < n")
    case True
    have j: "j = heap_child lt i n (map core xs)" "i < j" "j < n"
      using child_core [OF less.prems(1) True less.prems(2)] heap_child_range [OF True, of ltx xs]
      by (auto simp: j_def)
    have c: "ltx (xs ! j) (xs ! i) = lt (map core xs ! j) (map core xs ! i)"
      using j less.prems by (simp add: ltx_nth)
    have IH: "map core (heap_down ltx sw j n (sw i j xs)) =
        heap_down lt list_swap j n (list_swap i j (map core xs))"
      using less.hyps [of j "sw i j xs"] j less.prems by (simp add: sw_core length_sw oks_sw)
    show ?thesis
      using True c IH
      by (simp add: heap_down.simps [of ltx sw i n xs] heap_down.simps [of lt list_swap i n "map core xs"]
          Let_def flip: j_def j(1))
  next
    case False
    then show ?thesis
      by (simp add: heap_down.simps [of ltx sw i n xs] heap_down.simps [of lt list_swap i n "map core xs"])
  qed
qed

lemma up_core:
  "oks xs \<Longrightarrow> j < length xs \<Longrightarrow>
   map core (heap_up ltx sw j xs) = heap_up lt list_swap j (map core xs)"
proof (induction j arbitrary: xs rule: less_induct)
  case (less j)
  define i where "i = (j - 1) div 2"
  have i: "i \<le> j" "i < length xs" "i \<noteq> j \<Longrightarrow> i < j" using less.prems by (auto simp: i_def)
  have c: "ltx (xs ! j) (xs ! i) = lt (map core xs ! j) (map core xs ! i)"
    using i less.prems by (simp add: ltx_nth)
  have IH: "i \<noteq> j \<Longrightarrow> map core (heap_up ltx sw i (sw i j xs)) =
      heap_up lt list_swap i (list_swap i j (map core xs))"
    using less.IH [of i "sw i j xs"] i less.prems by (simp add: sw_core length_sw oks_sw)
  show ?case
    unfolding heap_up.simps [of ltx sw j xs] heap_up.simps [of lt list_swap j "map core xs"]
      Let_def i_def [symmetric] c
    using IH by simp
qed

lemma oks_mset: "oks xs \<Longrightarrow> mset (map core ys) = mset (map core xs) \<Longrightarrow> oks ys"
  by (simp add: oks_def)

lemma oks_down: "oks xs \<Longrightarrow> n \<le> length xs \<Longrightarrow> oks (heap_down ltx sw i n xs)"
  by (rule oks_mset [of xs], assumption) (simp only: down_core heap_down_mset length_map)

lemma init_from_core:
  "oks xs \<Longrightarrow> map core (heap_init_from ltx sw i xs) = heap_init_from lt list_swap i (map core xs)"
proof (induction i arbitrary: xs)
  case (Suc i)
  have "length (heap_down ltx sw i (length xs) xs) = length xs"
    using down_core [OF Suc.prems, of "length xs" i] by (metis length_heap_down length_map order_refl)
  then show ?case using Suc oks_down [OF Suc.prems] by (simp add: down_core)
qed simp

lemma init_spec:
  assumes "oks xs"
  shows "is_heap le (map core (heap_init ltx sw xs))"
    "mset (map core (heap_init ltx sw xs)) = mset (map core xs)"
  using heap_init_heap [of "map core xs"] init_from_core [OF assms, of "length xs div 2"]
  by (simp_all add: heap_init_def)

lemma push_spec:
  assumes "is_heap le (map core xs)" "oks (xs @ [x])"
  shows "is_heap le (map core (heap_push ltx sw x xs))"
    "mset (map core (heap_push ltx sw x xs)) = add_mset (core x) (mset (map core xs))"
  using heap_push_heap [OF assms(1), of "core x"] up_core [OF assms(2), of "length xs"]
  by (simp_all add: heap_push_def)

lemma pop_spec:
  assumes "is_heap le (map core xs)" "oks xs" "xs \<noteq> []"
  obtains x ys where "heap_pop ltx sw xs = Some (x, ys)" "is_heap le (map core ys)"
    "mset (map core xs) = add_mset (core x) (mset (map core ys))" "oks ys"
    "\<forall>y \<in> set ys. le (core x) (core y)"
proof -
  define n where "n = length xs - 1"
  define zs where "zs = heap_down ltx sw 0 n (sw 0 n xs)"
  have n: "n < length xs" "0 < length xs" using assms(3) by (auto simp: n_def)
  have zs: "map core zs = heap_down lt list_swap 0 n (list_swap 0 n (map core xs))"
    using n assms(2) by (simp add: zs_def down_core length_sw sw_core oks_sw)
  have "length zs = length xs" using n zs
    by (metis length_heap_down length_list_swap length_map less_imp_le)
  then have "zs \<noteq> []" using assms(3) by auto
  then have p: "heap_pop lt list_swap (map core xs) = Some (core (last zs), map core (butlast zs))"
    unfolding heap_pop_def Let_def length_map n_def [symmetric] zs [symmetric]
    using assms(3) by (simp add: last_map map_butlast)
  obtain x ys where q: "heap_pop lt list_swap (map core xs) = Some (x, ys)" "is_heap le ys"
    "mset (map core xs) = add_mset x (mset ys)" "\<forall>y \<in> set ys. le x y"
    using heap_pop_heap [OF assms(1)] assms(3) by blast
  have xy: "x = core (last zs)" "ys = map core (butlast zs)" using p q(1) by simp_all
  have r: "heap_pop ltx sw xs = Some (last zs, butlast zs)"
    unfolding heap_pop_def Let_def n_def [symmetric] zs_def [symmetric] using assms(3) by simp
  have "oks (butlast zs)" using assms(2) unfolding oks_def q(3) xy by simp
  then show thesis using q that [OF r] xy by simp
qed

end

section \<open>Taking several elements\<close>

text \<open>The loop \<open>for len(h) > 0 { x = heap.Pop(h); \<dots>; if i >= k {break} }\<close> for \<open>k > 0\<close>.\<close>

fun heap_pops :: "('a \<Rightarrow> 'a \<Rightarrow> bool) \<Rightarrow> (nat \<Rightarrow> nat \<Rightarrow> 'a list \<Rightarrow> 'a list) \<Rightarrow>
    nat \<Rightarrow> 'a list \<Rightarrow> 'a list \<times> 'a list" where
  "heap_pops lt sw 0 xs = ([], xs)"
| "heap_pops lt sw (Suc k) xs =
     (case heap_pop lt sw xs of
        None \<Rightarrow> ([], xs)
      | Some (x, ys) \<Rightarrow> (case heap_pops lt sw k ys of (zs, rest) \<Rightarrow> (x # zs, rest)))"

context heap_client
begin

lemma pops_spec:
  assumes "is_heap le (map core xs)" "oks xs" "heap_pops ltx sw k xs = (zs, rest)"
  shows "is_heap le (map core rest) \<and> oks rest \<and> length zs = min k (length xs) \<and>
    mset (map core xs) = mset (map core zs) + mset (map core rest) \<and>
    sorted_wrt le (map core zs) \<and> (\<forall>z \<in> set zs. \<forall>y \<in> set rest. le (core z) (core y))"
  using assms
proof (induction k arbitrary: xs zs)
  case 0
  then show ?case by simp
next
  case (Suc k)
  show ?case
  proof (cases "xs = []")
    case True
    with Suc.prems show ?thesis by (auto simp: heap_pop_def)
  next
    case False
    obtain x ys where p: "heap_pop ltx sw xs = Some (x, ys)" "is_heap le (map core ys)"
      "mset (map core xs) = add_mset (core x) (mset (map core ys))" "oks ys"
      "\<forall>y \<in> set ys. le (core x) (core y)"
      by (rule pop_spec [OF Suc.prems(1,2) False])
    obtain ws where w: "heap_pops ltx sw k ys = (ws, rest)" "zs = x # ws"
      using Suc.prems(3) p(1) by (auto split: prod.splits)
    note IH = Suc.IH [OF p(2,4) w(1)]
    have len: "length xs = Suc (length ys)"
      using p(3) by (metis length_map size_add_mset size_mset)
    have all: "le (core x) c" if "c \<in># mset (map core ws) + mset (map core rest)" for c
    proof -
      have "c \<in># mset (map core ys)" using IH that by metis
      then show ?thesis using p(5) by auto
    qed
    have "le (core x) c" if "c \<in> core ` set ws \<union> core ` set rest" for c
      using all [of c] that by auto
    then show ?thesis using IH len p(3) w by auto
  qed
qed

end

end
