(* ===== verification/KadId.thy ===== *)
theory KadId
  imports Prelude
begin

text \<open>
  Node identifiers and the XOR metric (\<open>ndn/kad/common.go\<close>). An \<open>ID\<close> is an array of
  \<open>ADDRBYTES\<close> bytes; the model is a byte list, and \<open>wf_id\<close> is the array's length. The main facts
  say that the byte-wise comparison \<open>DistCmp\<close> compares the XOR distances read as big-endian
  numbers, that \<open>LogDist\<close> is the bit length of the distance, and that the hexadecimal form of an
  identifier is read back.
\<close>

type_synonym ID = bytes

definition KADEMLIA_ALPHA :: nat where "KADEMLIA_ALPHA = 3"
definition ADDRBYTES :: nat where "ADDRBYTES = 20"
definition ADDRBITS :: nat where "ADDRBITS = ADDRBYTES * 8"
definition BUCKETSIZE :: nat where "BUCKETSIZE = 10"
definition REPSIZE :: nat where "REPSIZE = 5"
definition NUMBUCKETS :: nat where "NUMBUCKETS = ADDRBITS div 15"
definition BUCKETMINDISTANCE :: nat where "BUCKETMINDISTANCE = ADDRBITS - NUMBUCKETS"

lemmas kad_consts [go_simps] =
  KADEMLIA_ALPHA_def ADDRBYTES_def ADDRBITS_def BUCKETSIZE_def REPSIZE_def NUMBUCKETS_def
  BUCKETMINDISTANCE_def

definition wf_id :: "ID \<Rightarrow> bool" where
  "wf_id i \<longleftrightarrow> length i = ADDRBYTES"

definition zero_id :: ID where
  "zero_id = replicate ADDRBYTES 0"

lemma length_zero_id [simp]: "length zero_id = ADDRBYTES"
  by (simp add: zero_id_def)

section \<open>Text form\<close>

text \<open>\<open>encoding/hex\<close>: the encoder's table, the decoder's inverse, and its two errors.\<close>

definition hextable :: "nat \<Rightarrow> byte" where
  "hextable n = (if n < 10 then of_nat (48 + n) else of_nat (87 + n))"

definition fromHexChar :: "byte \<Rightarrow> nat option" where
  "fromHexChar c =
     (if 48 \<le> c \<and> c \<le> 57 then Some (unat (c - 48))
      else if 97 \<le> c \<and> c \<le> 102 then Some (unat (c - 97) + 10)
      else if 65 \<le> c \<and> c \<le> 70 then Some (unat (c - 65) + 10)
      else None)"

datatype hex_error = InvalidByteError byte | ErrLength

fun EncodeToString :: "bytes \<Rightarrow> bytes" where
  "EncodeToString [] = []"
| "EncodeToString (b # bs) = hextable (unat b div 16) # hextable (unat b mod 16) # EncodeToString bs"

fun DecodeString :: "bytes \<Rightarrow> hex_error + bytes" where
  "DecodeString [] = Inr []"
| "DecodeString [c] = (case fromHexChar c of None \<Rightarrow> Inl (InvalidByteError c) | Some _ \<Rightarrow> Inl ErrLength)"
| "DecodeString (c # d # cs) =
     (case fromHexChar c of
        None \<Rightarrow> Inl (InvalidByteError c)
      | Some x \<Rightarrow> (case fromHexChar d of
          None \<Rightarrow> Inl (InvalidByteError d)
        | Some y \<Rightarrow> (case DecodeString cs of
            Inl e \<Rightarrow> Inl e
          | Inr bs \<Rightarrow> Inr (of_nat (x * 16 + y) # bs))))"

definition ID_String :: "ID \<Rightarrow> bytes" where
  "ID_String i = EncodeToString i"

text \<open>The Go function returns the identifier together with the error; it is zero on an error.\<close>

definition IdFromHexString :: "bytes \<Rightarrow> ID \<times> hex_error option" where
  "IdFromHexString s =
     (case DecodeString s of
        Inr b \<Rightarrow> (go_copy zero_id b, None)
      | Inl e \<Rightarrow> (zero_id, Some e))"

section \<open>Derived identifiers\<close>

text \<open>
  \<open>keccak\<close> stands for the Keccak hash and \<open>pubbytes\<close> for the serialised public key; both belong to
  external packages.
\<close>

definition IdFromPublicKey :: "(bytes \<Rightarrow> bytes) \<Rightarrow> bytes \<Rightarrow> ID" where
  "IdFromPublicKey keccak pubbytes = go_copy zero_id (keccak pubbytes)"

definition MakeID :: "(bytes \<Rightarrow> bytes) \<Rightarrow> bytes \<Rightarrow> bytes \<Rightarrow> ID" where
  "MakeID keccak pub prefx = go_copy zero_id (keccak (pub @ prefx))"

text \<open>\<open>strconv.FormatUint(n, 10)\<close>.\<close>

fun FormatUint :: "nat \<Rightarrow> bytes" where
  "FormatUint n = (if n < 10 then [of_nat (48 + n)] else FormatUint (n div 10) @ [of_nat (48 + n mod 10)])"

declare FormatUint.simps [simp del]

text \<open>
  \<open>lottery\<close> is the draw \<open>rand.Intn(100)\<close>, \<open>r\<close> the draw \<open>rand.Uint64()\<close>, and \<open>sha\<close> the SHA-256 sum.
\<close>

definition RandomId :: "(bytes \<Rightarrow> bytes) \<Rightarrow> nat \<Rightarrow> u64 \<Rightarrow> ID \<Rightarrow> ID" where
  "RandomId sha lottery r seed =
     (if lottery < 75 then seed
      else go_copy zero_id (slice (sha (FormatUint (unat r) @ seed)) 0 ADDRBYTES))"

section \<open>Distance\<close>

fun DistCmp :: "ID \<Rightarrow> ID \<Rightarrow> ID \<Rightarrow> int" where
  "DistCmp (t # ts) (a # as) (b # bs) =
     (let da = a XOR t; db = b XOR t in
      if da > db then 1
      else if da < db then -1
      else DistCmp ts as bs)"
| "DistCmp _ _ _ = 0"

text \<open>\<open>math/bits\<close>: the number of bits of a number, and the leading zeros of a byte.\<close>

fun bit_len :: "nat \<Rightarrow> nat" where
  "bit_len n = (if n = 0 then 0 else Suc (bit_len (n div 2)))"

declare bit_len.simps [simp del]

definition LeadingZeros8 :: "byte \<Rightarrow> nat" where
  "LeadingZeros8 x = 8 - bit_len (unat x)"

fun LogDist_loop :: "nat \<Rightarrow> ID \<Rightarrow> ID \<Rightarrow> nat" where
  "LogDist_loop lz (a # as) (b # bs) =
     (let x = a XOR b in
      if x = 0 then LogDist_loop (lz + 8) as bs else lz + LeadingZeros8 x)"
| "LogDist_loop lz _ _ = lz"

definition LogDist :: "ID \<Rightarrow> ID \<Rightarrow> int" where
  "LogDist a b = int (length a * 8) - int (LogDist_loop 0 a b)"

text \<open>The reference: the XOR of two identifiers as one big-endian number.\<close>

definition xor_dist :: "ID \<Rightarrow> ID \<Rightarrow> nat" where
  "xor_dist a b = be_nat (map2 (XOR) a b)"

section \<open>The comparison is the comparison of distances\<close>

lemma sgn_diff_nat:
  "m < n \<Longrightarrow> sgn (int m - int n) = -1" "n < m \<Longrightarrow> sgn (int m - int n) = 1"
  by (simp_all add: sgn_if)

lemma DistCmp_sgn:
  "length a = length t \<Longrightarrow> length b = length t \<Longrightarrow>
   DistCmp t a b = sgn (int (xor_dist a t) - int (xor_dist b t))"
proof (induction t a b rule: DistCmp.induct)
  case (1 t ts a as b bs)
  let ?x = "a XOR t" and ?y = "b XOR t"
  have l: "length (map2 (XOR) as ts) = length (map2 (XOR) bs ts)" using 1 by simp
  consider "?x < ?y" | "?y < ?x" | "?x = ?y" by force
  then show ?case
  proof cases
    case 1
    then have "xor_dist (a # as) (t # ts) < xor_dist (b # bs) (t # ts)"
      using be_nat_less_head [OF l, of ?x ?y] by (simp add: xor_dist_def word_less_nat_alt)
    then show ?thesis using 1 sgn_diff_nat by (simp add: Let_def)
  next
    case 2
    then have "xor_dist (b # bs) (t # ts) < xor_dist (a # as) (t # ts)"
      using be_nat_less_head [OF l [symmetric], of ?y ?x] by (simp add: xor_dist_def word_less_nat_alt)
    then show ?thesis using 2 sgn_diff_nat by (simp add: Let_def)
  next
    case 3
    then show ?thesis using 1 l by (simp add: xor_dist_def)
  qed
qed (simp_all add: xor_dist_def)

lemma map2_xor_eq_iff:
  "length a = length t \<Longrightarrow> length b = length t \<Longrightarrow>
   map2 (XOR) a t = map2 (XOR) b t \<longleftrightarrow> a = (b :: ID)"
proof (induction a t arbitrary: b rule: list_induct2)
  case (Cons x a y t)
  then obtain z c where b: "b = z # c" by (cases b) auto
  have "x XOR y = z XOR y \<longleftrightarrow> x = z"
    by (metis bit.conj_disj_distrib2 xor.left_commute xor_self_eq xor.right_neutral)
  with Cons b show ?case by simp
qed simp

lemma xor_dist_inj:
  "length a = length t \<Longrightarrow> length b = length t \<Longrightarrow> xor_dist a t = xor_dist b t \<longleftrightarrow> a = b"
  unfolding xor_dist_def by (metis be_nat_inj length_map length_zip map2_xor_eq_iff)

lemma xor_dist_commute: "xor_dist a b = xor_dist b a"
  unfolding xor_dist_def
  by (rule arg_cong [where f = be_nat]) (rule nth_equalityI, auto simp: xor.commute)

text \<open>
  Claim C17. \<open>DistCmp\<close> decides the XOR metric: for identifiers of the right length the sign of its
  result is the sign of the difference of the two distances to the target, read as 160-bit numbers,
  and it is zero exactly for equal identifiers.
\<close>

theorem DistCmp_compares_xor:
  assumes "wf_id t" "wf_id a" "wf_id b"
  shows "DistCmp t a b = sgn (int (xor_dist a t) - int (xor_dist b t)) \<and>
    (DistCmp t a b = 0 \<longleftrightarrow> a = b)"
  using assms DistCmp_sgn [of a t b] xor_dist_inj [of a t b]
  by (simp add: wf_id_def sgn_eq_0_iff)

theorem DistCmp_compares_xor_witness:
  "let t = replicate 20 0; a = replicate 19 0 @ [5]; b = replicate 18 0 @ [1, 0]
   in DistCmp t a b = -1 \<and> DistCmp t a b = sgn (int (xor_dist a t) - int (xor_dist b t))"
  using DistCmp_compares_xor [of "replicate 20 0" "replicate 19 0 @ [5]" "replicate 18 0 @ [1, 0]"]
  by (simp add: wf_id_def ADDRBYTES_def numeral_eq_Suc Let_def)

section \<open>The logarithmic distance is a bit length\<close>

lemma bit_len_0 [simp]: "bit_len 0 = 0"
  by (simp add: bit_len.simps)

lemma bit_len_bounds: "n < 2 ^ bit_len n \<and> (0 < n \<longrightarrow> 2 ^ bit_len n \<le> 2 * n)"
proof (induction n rule: bit_len.induct)
  case (1 n)
  show ?case
  proof (cases "n = 0")
    case False
    with 1 have IH: "n div 2 < 2 ^ bit_len (n div 2)"
      "0 < n div 2 \<longrightarrow> 2 ^ bit_len (n div 2) \<le> 2 * (n div 2)" by simp_all
    have "n = 1 \<or> 0 < n div 2" using False by linarith
    with IH False show ?thesis by (subst (1 2) bit_len.simps) auto
  qed simp
qed

lemma bit_len_unique:
  assumes "n < 2 ^ k" "2 ^ k \<le> 2 * n"
  shows "bit_len n = k"
proof -
  have n: "0 < n" using assms(2) by (metis gr0I mult_0_right not_less power_eq_0_iff zero_less_numeral
        le_zero_eq zero_neq_numeral)
  have b: "n < 2 ^ bit_len n" "2 ^ bit_len n \<le> 2 * n" using bit_len_bounds [of n] n by auto
  have "(2::nat) ^ k < 2 ^ Suc (bit_len n)" "(2::nat) ^ bit_len n < 2 ^ Suc k"
    using assms b by simp_all
  then have "k < Suc (bit_len n)" "bit_len n < Suc k"
    by (metis one_less_numeral_iff power_less_imp_less_exp semiring_norm(76))+
  then show ?thesis by simp
qed

lemma bit_len_shift:
  assumes "0 < x" "r < 256 ^ m"
  shows "bit_len (x * 256 ^ m + r) = bit_len x + 8 * m"
proof (rule bit_len_unique)
  have p: "(2::nat) ^ (bit_len x + 8 * m) = 2 ^ bit_len x * 256 ^ m"
    by (simp add: power_add power_mult)
  have "(x + 1) * 256 ^ m \<le> 2 ^ bit_len x * 256 ^ m"
    using bit_len_bounds [of x] by (intro mult_le_mono1) simp
  then show "x * 256 ^ m + r < 2 ^ (bit_len x + 8 * m)"
    using assms(2) unfolding p by simp
  have "2 ^ bit_len x * 256 ^ m \<le> (2 * x) * 256 ^ m"
    using bit_len_bounds [of x] assms(1) by (intro mult_le_mono1) simp
  then show "2 ^ (bit_len x + 8 * m) \<le> 2 * (x * 256 ^ m + r)"
    unfolding p distrib_left mult.assoc by linarith
qed

lemma bit_len_mono: "m \<le> n \<Longrightarrow> bit_len m \<le> bit_len n"
proof -
  assume le: "m \<le> n"
  show "bit_len m \<le> bit_len n"
  proof (cases "m = 0")
    case False
    then have "2 ^ bit_len m \<le> 2 * m" "n < 2 ^ bit_len n" using bit_len_bounds by auto
    then have "(2::nat) ^ bit_len m < 2 ^ Suc (bit_len n)" using le by simp
    then have "bit_len m < Suc (bit_len n)"
      by (metis one_less_numeral_iff power_less_imp_less_exp semiring_norm(76))
    then show ?thesis by simp
  qed simp
qed

lemma bit_len_byte: "bit_len (unat (x :: byte)) \<le> 8"
proof -
  have "bit_len 255 = 8" by (rule bit_len_unique) simp_all
  moreover have "unat x \<le> 255" using unat_byte_bound [of x] by linarith
  ultimately show ?thesis using bit_len_mono by metis
qed

lemma LogDist_loop_bit_len:
  "length a = length b \<Longrightarrow>
   LogDist_loop lz a b + bit_len (be_nat (map2 (XOR) a b)) = lz + 8 * length a"
proof (induction lz a b rule: LogDist_loop.induct)
  case (1 lz a as b bs)
  show ?case
  proof (cases "a XOR b = 0")
    case True
    then show ?thesis using 1 by simp
  next
    case False
    then have "0 < unat (a XOR b)" by (simp add: unat_gt_0)
    then have "bit_len (be_nat (map2 (XOR) (a # as) (b # bs))) = bit_len (unat (a XOR b)) + 8 * length as"
      using bit_len_shift [OF _ be_nat_bound [of "map2 (XOR) as bs"], of "unat (a XOR b)"] 1 by simp
    then show ?thesis using False bit_len_byte [of "a XOR b"] by (simp add: LeadingZeros8_def)
  qed
qed simp_all

lemma LogDist_bit_len: "length a = length b \<Longrightarrow> LogDist a b = int (bit_len (xor_dist a b))"
  using LogDist_loop_bit_len [of a b 0] by (simp add: LogDist_def xor_dist_def)

lemma LogDist_range:
  assumes "wf_id a" "wf_id b"
  shows "0 \<le> LogDist a b" "LogDist a b \<le> 160"
  using assms LogDist_loop_bit_len [of a b 0]
  by (simp_all add: LogDist_def wf_id_def ADDRBYTES_def)

text \<open>
  Claim C18. \<open>LogDist\<close> is the bit length of the XOR distance, lies between 0 and 160, is zero only for
  equal identifiers, and is monotone: a peer that \<open>DistCmp\<close> ranks no further from the target than
  another is in no higher distance class.
\<close>

theorem LogDist_is_bit_length:
  assumes "wf_id t" "wf_id a" "wf_id b"
  shows "LogDist a t = int (bit_len (xor_dist a t)) \<and> 0 \<le> LogDist a t \<and> LogDist a t \<le> 160 \<and>
    (LogDist a t = 0 \<longleftrightarrow> a = t) \<and>
    (DistCmp t a b \<le> 0 \<longrightarrow> LogDist a t \<le> LogDist b t)"
proof -
  have l: "length a = length t" "length b = length t" using assms by (simp_all add: wf_id_def)
  have "xor_dist t t = 0"
    by (simp add: xor_dist_def be_nat_eq_0_iff) (auto simp: set_zip)
  then have "xor_dist a t = 0 \<longleftrightarrow> a = t" using xor_dist_inj [of a t t] l by auto
  moreover have "bit_len n = 0 \<longleftrightarrow> n = 0" for n by (simp add: bit_len.simps [of n])
  moreover have "DistCmp t a b \<le> 0 \<longrightarrow> xor_dist a t \<le> xor_dist b t"
    using DistCmp_sgn [OF l] sgn_diff_nat(2) [of "xor_dist b t" "xor_dist a t"] by linarith
  ultimately show ?thesis
    using LogDist_range [OF assms(2,1)] bit_len_mono by (simp add: LogDist_bit_len l)
qed

theorem LogDist_is_bit_length_witness:
  "let t = replicate 20 0; a = replicate 19 0 @ [5]; b = replicate 18 0 @ [1, 0]
   in DistCmp t a b \<le> 0 \<and> LogDist a t \<le> LogDist b t \<and> LogDist a t = int (bit_len (xor_dist a t))"
  using LogDist_is_bit_length [of "replicate 20 0" "replicate 19 0 @ [5]" "replicate 18 0 @ [1, 0]"]
  by (simp add: wf_id_def ADDRBYTES_def numeral_eq_Suc Let_def)

section \<open>Reading the text form back\<close>

lemma fromHexChar_hextable: "n < 16 \<Longrightarrow> fromHexChar (hextable n) = Some n"
proof -
  assume "n < 16"
  then have "n \<in> {0,1,2,3,4,5,6,7,8,9,10,11,12,13,14,15}" by (simp; presburger)
  then show ?thesis by (elim insertE emptyE) (simp_all add: fromHexChar_def hextable_def)
qed

lemma DecodeString_EncodeToString: "DecodeString (EncodeToString bs) = Inr bs"
proof (induction bs)
  case (Cons b bs)
  have "unat b div 16 < 16" using unat_byte_bound [of b] by linarith
  then show ?case using Cons by (simp add: fromHexChar_hextable del: of_nat_add of_nat_mult)
qed simp

lemma IdFromHexString_wf [simp]: "wf_id (fst (IdFromHexString s))"
  by (simp add: IdFromHexString_def wf_id_def split: sum.split)

text \<open>
  Claim C19. The hexadecimal text of an identifier is read back without an error to the same
  identifier; every other text still gives an identifier of the right length.
\<close>

theorem IdFromHexString_roundtrip:
  "(wf_id i \<longrightarrow> IdFromHexString (ID_String i) = (i, None)) \<and> wf_id (fst (IdFromHexString s))"
  using IdFromHexString_wf [of s]
  by (simp add: IdFromHexString_def ID_String_def DecodeString_EncodeToString wf_id_def)

theorem IdFromHexString_roundtrip_witness:
  "IdFromHexString (ID_String (replicate 20 171)) = (replicate 20 171, None)"
  using IdFromHexString_roundtrip [of "replicate 20 171"] by (simp add: wf_id_def ADDRBYTES_def)

end
