(* ===== verification/KadPq.thy ===== *)
theory KadPq
  imports GoHeap KadId
begin

text \<open>
  Peers and the distance-ordered queue (\<open>ndn/kad/peer.go\<close> and the first half of
  \<open>ndn/kad/peersort.go\<close>). A Go pointer to a \<open>kadpeer\<close> is a reference value: its address and the
  identifier, which no code changes after the peer is created. The fields that change (\<open>record\<close>,
  \<open>seen\<close>) are in a store indexed by the address. In the same way a pointer to a \<open>PqPeer\<close> carries
  its fixed fields, its \<open>index\<close>, and an address under which \<open>queried\<close> is stored. The queue is a client
  of the binary heap of \<open>container/heap\<close>.
\<close>

section \<open>Peers\<close>

record kadpeer =
  kp_addr :: nat
  kp_id :: ID

definition second :: int where "second = 1000000000"
definition PING_LONGEVITY :: int where "PING_LONGEVITY = 10 * second"
definition LOST_LONGEVITY :: int where "LOST_LONGEVITY = 300 * second"
definition QUERY_GRANULARITY :: int where "QUERY_GRANULARITY = 10 * second"

lemmas kad_times [go_simps] =
  second_def PING_LONGEVITY_def LOST_LONGEVITY_def QUERY_GRANULARITY_def

text \<open>
  A node record is \<open>'r\<close> with its identity as a function. The store gives the record and the time of
  the last contact of every peer object; \<open>now\<close> is the reading of the clock.
\<close>

record 'r peerdata =
  pd_record :: 'r
  pd_seen :: int

type_synonym 'r peerstore = "nat \<Rightarrow> 'r peerdata"

definition PeerFromRecord :: "('r \<Rightarrow> ID) \<Rightarrow> nat \<Rightarrow> 'r \<Rightarrow> 'r peerstore \<Rightarrow> kadpeer \<times> 'r peerstore" where
  "PeerFromRecord identity a rec st =
     (\<lparr>kp_addr = a, kp_id = identity rec\<rparr>, st(a := \<lparr>pd_record = rec, pd_seen = 0\<rparr>))"

definition setseen :: "int \<Rightarrow> kadpeer \<Rightarrow> 'r peerstore \<Rightarrow> 'r peerstore" where
  "setseen now p st = st(kp_addr p := (st (kp_addr p))\<lparr>pd_seen := now\<rparr>)"

definition recentlyseen :: "int \<Rightarrow> kadpeer \<Rightarrow> 'r peerstore \<Rightarrow> bool" where
  "recentlyseen now p st \<longleftrightarrow> now - pd_seen (st (kp_addr p)) < PING_LONGEVITY"

definition kadpeer_update :: "'r \<Rightarrow> kadpeer \<Rightarrow> 'r peerstore \<Rightarrow> 'r peerstore" where
  "kadpeer_update rec p st = st(kp_addr p := (st (kp_addr p))\<lparr>pd_record := rec\<rparr>)"

section \<open>The queue\<close>

record PqPeer =
  q_addr :: nat
  q_p :: kadpeer
  q_target :: ID
  q_index :: int

type_synonym Pq = "PqPeer list"
type_synonym querystore = "nat \<Rightarrow> int"

definition PqPeer_mark :: "int \<Rightarrow> PqPeer \<Rightarrow> querystore \<Rightarrow> querystore" where
  "PqPeer_mark now i qs = qs(q_addr i := now)"

definition recentlyqueried :: "int \<Rightarrow> querystore \<Rightarrow> PqPeer \<Rightarrow> bool" where
  "recentlyqueried now qs i \<longleftrightarrow> now - qs (q_addr i) < QUERY_GRANULARITY"

definition Pq_Less :: "PqPeer \<Rightarrow> PqPeer \<Rightarrow> bool" where
  "Pq_Less x y \<longleftrightarrow> DistCmp (q_target x) (kp_id (q_p x)) (kp_id (q_p y)) \<le> 0"

definition Pq_Swap :: "nat \<Rightarrow> nat \<Rightarrow> Pq \<Rightarrow> Pq" where
  "Pq_Swap i j pq =
     (let pq1 = list_swap i j pq;
          pq2 = pq1[i := (pq1 ! i)\<lparr>q_index := int i\<rparr>]
      in pq2[j := (pq2 ! j)\<lparr>q_index := int j\<rparr>])"

definition Pq_init :: "Pq \<Rightarrow> Pq" where
  "Pq_init pq = heap_init Pq_Less Pq_Swap pq"

text \<open>\<open>heap.Push(&pq, x)\<close>: the queue's \<open>Push\<close> writes the index and appends; then the new element moves up.\<close>

definition Pq_push :: "PqPeer \<Rightarrow> Pq \<Rightarrow> Pq" where
  "Pq_push x pq = heap_push Pq_Less Pq_Swap (x\<lparr>q_index := int (length pq)\<rparr>) pq"

text \<open>\<open>heap.Pop(&pq)\<close>: swap and move down, then the queue's \<open>Pop\<close> takes the last and clears its index.\<close>

definition Pq_pop :: "Pq \<Rightarrow> (PqPeer \<times> Pq) option" where
  "Pq_pop pq = map_option (\<lambda>(x, ys). (x\<lparr>q_index := -1\<rparr>, ys)) (heap_pop Pq_Less Pq_Swap pq)"

text \<open>
  The loop that both \<open>closest\<close> functions run on a slice of capacity \<open>k\<close>: pop, store at position
  \<open>i\<close>, leave when \<open>i\<close> reaches \<open>k\<close>. Storing at a position outside the slice is a panic
  (\<open>None\<close>); this happens for \<open>k = 0\<close> and a queue that is not empty, because the test follows the store.
\<close>

function pop_loop :: "nat \<Rightarrow> nat \<Rightarrow> Pq \<Rightarrow> (PqPeer list \<times> Pq) option" where
  "pop_loop k i pq =
     (case Pq_pop pq of
        None \<Rightarrow> Some ([], pq)
      | Some (x, pq') \<Rightarrow>
          if k \<le> i then None
          else if k \<le> Suc i then Some ([x], pq')
          else map_option (\<lambda>(xs, r). (x # xs, r)) (pop_loop k (Suc i) pq'))"
  by pat_completeness auto
termination by (relation "measure (\<lambda>(k, i, pq). k - i)") auto

declare pop_loop.simps [simp del]

section \<open>The queue is a heap client\<close>

definition pq_dist :: "PqPeer \<Rightarrow> nat" where
  "pq_dist x = xor_dist (kp_id (q_p x)) (q_target x)"

definition pq_core :: "PqPeer \<Rightarrow> PqPeer" where
  "pq_core x = x\<lparr>q_index := 0\<rparr>"

definition pq_le :: "PqPeer \<Rightarrow> PqPeer \<Rightarrow> bool" where
  "pq_le x y \<longleftrightarrow> pq_dist x \<le> pq_dist y"

definition pq_ok :: "ID \<Rightarrow> PqPeer \<Rightarrow> bool" where
  "pq_ok t x \<longleftrightarrow> q_target x = t \<and> wf_id (kp_id (q_p x)) \<and> wf_id t"

lemma pq_core_simps [simp]:
  "q_addr (pq_core x) = q_addr x" "q_p (pq_core x) = q_p x" "q_target (pq_core x) = q_target x"
  "pq_core (x\<lparr>q_index := n\<rparr>) = pq_core x" "pq_dist (pq_core x) = pq_dist x"
  "pq_core (pq_core x) = pq_core x" "pq_ok t (pq_core x) = pq_ok t x"
  "pq_le (pq_core x) y = pq_le x y" "pq_le y (pq_core x) = pq_le y x"
  "pq_ok t (x\<lparr>q_index := n\<rparr>) = pq_ok t x" "pq_dist (x\<lparr>q_index := n\<rparr>) = pq_dist x"
  by (simp_all add: pq_core_def pq_dist_def pq_ok_def pq_le_def)

lemma DistCmp_le_0:
  "length a = length t \<Longrightarrow> length b = length t \<Longrightarrow> DistCmp t a b \<le> 0 \<longleftrightarrow> xor_dist a t \<le> xor_dist b t"
  by (simp add: DistCmp_sgn sgn_if)

lemma map_core_Pq_Swap:
  "i < length xs \<Longrightarrow> j < length xs \<Longrightarrow>
   map pq_core (Pq_Swap i j xs) = list_swap i j (map pq_core xs)"
  by (rule nth_equalityI)
    (auto simp: Pq_Swap_def Let_def nth_list_swap nth_list_update)

lemma length_Pq_Swap [simp]: "length (Pq_Swap i j xs) = length xs"
  by (simp add: Pq_Swap_def Let_def)

interpretation pqh: heap_client pq_le pq_le Pq_Less Pq_Swap pq_core "pq_ok t" for t
proof unfold_locales
  show "pq_le x z" if "pq_le x y" "pq_le y z" for x y z using that by (simp add: pq_le_def)
  show "pq_le x y" if "pq_le x y" for x y using that .
  show "pq_le y x" if "\<not> pq_le x y" for x y using that by (simp add: pq_le_def)
  show "Pq_Less x y = pq_le (pq_core x) (pq_core y)"
    if "pq_ok t (pq_core x)" "pq_ok t (pq_core y)" for x y
    using that by (auto simp: Pq_Less_def pq_le_def pq_dist_def pq_ok_def wf_id_def DistCmp_le_0)
  show "map pq_core (Pq_Swap i j xs) = list_swap i j (map pq_core xs)"
    if "i < length xs" "j < length xs" for i j xs
    using that by (rule map_core_Pq_Swap)
qed

text \<open>A queue in good order: every element has the same target, and the elements form a heap.\<close>

definition pq_wf :: "ID \<Rightarrow> Pq \<Rightarrow> bool" where
  "pq_wf t pq \<longleftrightarrow> (\<forall>x \<in> set pq. pq_ok t x) \<and> is_heap pq_le (map pq_core pq)"

lemma oks_pq: "pqh.oks t pq \<longleftrightarrow> (\<forall>x \<in> set pq. pq_ok t x)"
  by (simp add: pqh.oks_def)

lemma mset_core_peers:
  assumes "mset (map pq_core xs) = mset (map pq_core ys)"
  shows "mset (map q_p xs) = mset (map q_p ys)" "mset (map q_addr xs) = mset (map q_addr ys)"
  using arg_cong [OF assms, of "image_mset q_p"] arg_cong [OF assms, of "image_mset q_addr"]
  by (simp_all add: multiset.map_comp comp_def)

lemma mset_core_ok:
  assumes "mset (map pq_core xs) = mset (map pq_core ys)" "\<forall>x \<in> set ys. pq_ok t x"
  shows "\<forall>x \<in> set xs. pq_ok t x"
  using assms pqh.oks_mset [of t ys xs] by (simp add: oks_pq)

lemma Pq_init_spec:
  assumes "\<forall>x \<in> set pq. pq_ok t x"
  shows "pq_wf t (Pq_init pq)" "mset (map pq_core (Pq_init pq)) = mset (map pq_core pq)"
  using pqh.init_spec [of t pq] assms mset_core_ok [of "Pq_init pq" pq t]
  by (simp_all add: oks_pq pq_wf_def Pq_init_def)

lemma Pq_push_spec:
  assumes "pq_wf t pq" "pq_ok t x"
  shows "pq_wf t (Pq_push x pq)"
    "mset (map pq_core (Pq_push x pq)) = add_mset (pq_core x) (mset (map pq_core pq))"
proof -
  let ?x = "x\<lparr>q_index := int (length pq)\<rparr>"
  have "pqh.oks t (pq @ [?x])" "is_heap pq_le (map pq_core pq)"
    using assms by (auto simp: oks_pq pq_wf_def)
  note push = pqh.push_spec [OF this(2,1)]
  show m: "mset (map pq_core (Pq_push x pq)) = add_mset (pq_core x) (mset (map pq_core pq))"
    using push(2) by (simp add: Pq_push_def)
  have "\<forall>y \<in> set (Pq_push x pq). pq_ok t y"
    by (rule mset_core_ok [of _ "pq @ [x]"]) (use m assms in \<open>auto simp: pq_wf_def\<close>)
  then show "pq_wf t (Pq_push x pq)" using push(1) by (simp add: Pq_push_def pq_wf_def)
qed

lemma Pq_pop_spec:
  assumes "pq_wf t pq" "pq \<noteq> []"
  obtains x ys where "Pq_pop pq = Some (x, ys)" "pq_wf t ys" "pq_ok t x"
    "mset (map pq_core pq) = add_mset (pq_core x) (mset (map pq_core ys))"
    "\<forall>y \<in> set ys. pq_dist x \<le> pq_dist y" "length pq = Suc (length ys)"
proof -
  have h: "is_heap pq_le (map pq_core pq)" "pqh.oks t pq" using assms by (simp_all add: oks_pq pq_wf_def)
  obtain x ys where p: "heap_pop Pq_Less Pq_Swap pq = Some (x, ys)" "is_heap pq_le (map pq_core ys)"
    "mset (map pq_core pq) = add_mset (pq_core x) (mset (map pq_core ys))" "pqh.oks t ys"
    "\<forall>y \<in> set ys. pq_le (pq_core x) (pq_core y)"
    by (rule pqh.pop_spec [OF h assms(2)])
  have "\<forall>y \<in> set (x # ys). pq_ok t y"
    by (rule mset_core_ok [of _ pq]) (use p(3) assms in \<open>simp_all add: pq_wf_def\<close>)
  moreover have "length pq = Suc (length ys)"
    using p(3) by (metis length_map size_add_mset size_mset)
  ultimately show thesis
    using that [of "x\<lparr>q_index := -1\<rparr>" ys] p by (simp add: Pq_pop_def oks_pq pq_wf_def pq_le_def)
qed

lemma Pq_pop_Nil [simp]: "Pq_pop [] = None"
  by (simp add: Pq_pop_def heap_pop_def)

text \<open>
  The pop loop returns the elements in order of distance, as many as asked for or present, and what
  stays behind is no closer.
\<close>

definition pops_ok :: "ID \<Rightarrow> nat \<Rightarrow> Pq \<Rightarrow> PqPeer list \<Rightarrow> Pq \<Rightarrow> bool" where
  "pops_ok t n pq zs rest \<longleftrightarrow>
     pq_wf t rest \<and> (\<forall>z \<in> set zs. pq_ok t z) \<and>
     mset (map pq_core pq) = mset (map pq_core zs) + mset (map pq_core rest) \<and>
     sorted (map pq_dist zs) \<and> (\<forall>z \<in> set zs. \<forall>y \<in> set rest. pq_dist z \<le> pq_dist y) \<and>
     length zs = min n (length pq)"

lemma pops_ok_Cons:
  assumes q: "pops_ok t n ys zs rest" and x: "pq_ok t x"
    and m: "mset (map pq_core pq) = add_mset (pq_core x) (mset (map pq_core ys))"
    and le: "\<forall>y \<in> set ys. pq_dist x \<le> pq_dist y"
  shows "pops_ok t (Suc n) pq (x # zs) rest"
proof -
  have "mset (map pq_core ys) = mset (map pq_core zs) + mset (map pq_core rest)"
    using q by (simp add: pops_ok_def)
  from arg_cong [OF this, of "\<lambda>M. pq_dist ` set_mset M"]
  have "pq_dist ` set ys = pq_dist ` (set zs \<union> set rest)" by (simp add: image_image image_Un)
  then have "\<forall>d \<in> pq_dist ` (set zs \<union> set rest). pq_dist x \<le> d" using le by (metis imageE)
  moreover have "length pq = Suc (length ys)"
    using m by (metis length_map size_add_mset size_mset)
  ultimately show ?thesis using q x m by (simp add: pops_ok_def)
qed

lemma pop_loop_ex:
  "pq_wf t pq \<Longrightarrow> i < k \<Longrightarrow>
   \<exists>zs rest. pop_loop k i pq = Some (zs, rest) \<and> pops_ok t (k - i) pq zs rest"
proof (induction "k - i" arbitrary: i pq rule: less_induct)
  case less
  show ?case
  proof (cases "pq = []")
    case True
    then show ?thesis using less.prems by (simp add: pop_loop.simps pops_ok_def)
  next
    case False
    obtain x ys where p: "Pq_pop pq = Some (x, ys)" "pq_wf t ys" "pq_ok t x"
      "mset (map pq_core pq) = add_mset (pq_core x) (mset (map pq_core ys))"
      "\<forall>y \<in> set ys. pq_dist x \<le> pq_dist y" "length pq = Suc (length ys)"
      using Pq_pop_spec [OF less.prems(1) False] .
    show ?thesis
    proof (cases "k \<le> Suc i")
      case True
      have "pops_ok t (Suc 0) pq [x] ys"
        using pops_ok_Cons [OF _ p(3,4,5), of 0 "[]" ys] p(2) by (simp add: pops_ok_def)
      moreover have "k - i = Suc 0" using True less.prems(2) by linarith
      ultimately show ?thesis using True p(1) less.prems(2) by (simp add: pop_loop.simps [of k i])
    next
      case F: False
      then have lt: "k - Suc i < k - i" "Suc i < k" by linarith+
      obtain zs rest where q: "pop_loop k (Suc i) ys = Some (zs, rest)" "pops_ok t (k - Suc i) ys zs rest"
        using less.hyps [OF lt(1) p(2) lt(2)] by blast
      have "pops_ok t (Suc (k - Suc i)) pq (x # zs) rest" by (rule pops_ok_Cons [OF q(2) p(3,4,5)])
      moreover have "Suc (k - Suc i) = k - i" using lt by linarith
      ultimately show ?thesis using p(1) q(1) F less.prems(2) by (simp add: pop_loop.simps [of k i])
    qed
  qed
qed

lemma pop_loop_spec:
  assumes "pq_wf t pq" "i < k"
  obtains zs rest where "pop_loop k i pq = Some (zs, rest)" "pops_ok t (k - i) pq zs rest"
  using pop_loop_ex [OF assms] by blast

lemma pop_loop_0: "pq_wf t pq \<Longrightarrow> pq \<noteq> [] \<Longrightarrow> pop_loop 0 0 pq = None"
  by (erule (1) Pq_pop_spec) (simp add: pop_loop.simps)

end
