(* ===== verification/KadTable.thy ===== *)
theory KadTable
  imports KadPq
begin

text \<open>
  The routing table (\<open>ndn/kad/routingtable.go\<close>): buckets with a replacement list, the mapping from
  identifiers to buckets, and the search for the closest peers. A bucket in good order holds at
  most \<open>BUCKETSIZE\<close> peers and \<open>REPSIZE\<close> replacements, no identifier twice, and replacements
  only while it is full; a table in good order has every peer in the bucket of its distance class.
  The ping callback of the table is the value that \<open>seen\<close> returns: the peer to be pinged.
\<close>

section \<open>Buckets\<close>

record bucket =
  b_peers :: "kadpeer list"
  b_replacements :: "kadpeer list"

definition bucket_size :: "bucket \<Rightarrow> nat" where
  "bucket_size b = length (b_peers b)"

fun find_peer :: "ID \<Rightarrow> kadpeer list \<Rightarrow> kadpeer option" where
  "find_peer i [] = None"
| "find_peer i (p # ps) = (if kp_id p = i then Some p else find_peer i ps)"

definition bucket_get :: "bucket \<Rightarrow> ID \<Rightarrow> bool \<Rightarrow> kadpeer option" where
  "bucket_get b i onlybucket =
     (let ret = find_peer i (b_peers b) in
      if \<not> onlybucket \<and> ret = None then find_peer i (b_replacements b) else ret)"

definition bucket_getpeers :: "bucket \<Rightarrow> kadpeer list" where
  "bucket_getpeers b = b_peers b"

text \<open>The loop \<open>for i := found; i < l-1; i++ { xs[i] = xs[i+1] }\<close> on a slice of length \<open>l\<close>.\<close>

function shift_left :: "nat \<Rightarrow> 'a list \<Rightarrow> 'a list" where
  "shift_left i xs = (if i < length xs - 1 then shift_left (Suc i) (xs[i := xs ! Suc i]) else xs)"
  by pat_completeness auto
termination by (relation "measure (\<lambda>(i, xs). length xs - i)") auto

declare shift_left.simps [simp del]

text \<open>The result is the bucket, the peer to be pinged, and whether the peer was added to the bucket itself.\<close>

definition bucket_add :: "bucket \<Rightarrow> kadpeer \<Rightarrow> bucket \<times> kadpeer option \<times> bool" where
  "bucket_add b peer =
     (if find_peer (kp_id peer) (b_peers b) \<noteq> None then (b, None, False)
      else if BUCKETSIZE \<le> length (b_peers b) then
        (let l1 = length (b_replacements b) in
         if find_peer (kp_id peer) (b_replacements b) \<noteq> None then (b, Some (b_peers b ! 0), False)
         else
           (let reps = (if REPSIZE \<le> l1 then (shift_left 0 (b_replacements b))[l1 - 1 := peer]
                        else b_replacements b @ [peer])
            in (b\<lparr>b_replacements := reps\<rparr>, Some (b_peers b ! 0), False)))
      else (b\<lparr>b_peers := b_peers b @ [peer]\<rparr>, None, True))"

text \<open>The loop that finds the position of an identifier; \<open>None\<close> is the value -1.\<close>

fun find_index :: "ID \<Rightarrow> nat \<Rightarrow> kadpeer list \<Rightarrow> nat option" where
  "find_index i k [] = None"
| "find_index i k (p # ps) = (if kp_id p = i then Some k else find_index i (Suc k) ps)"

definition bucket_remove :: "bucket \<Rightarrow> ID \<Rightarrow> bucket \<times> kadpeer option \<times> bool" where
  "bucket_remove b i =
     (case find_index i 0 (b_peers b) of
        Some found \<Rightarrow>
          (let removed = Some (b_peers b ! found) in
           if length (b_replacements b) > 0 then
             (let l = length (b_peers b);
                  ps = (shift_left found (b_peers b))[l - 1 := b_replacements b ! 0]
              in (b\<lparr>b_peers := ps, b_replacements := drop 1 (b_replacements b)\<rparr>, removed, True))
           else (b\<lparr>b_peers := take found (b_peers b) @ drop (found + 1) (b_peers b)\<rparr>, removed, True))
      | None \<Rightarrow>
          (case find_index i 0 (b_replacements b) of
             Some found \<Rightarrow>
               (b\<lparr>b_replacements := take found (b_replacements b) @ drop (found + 1) (b_replacements b)\<rparr>,
                Some (b_replacements b ! found), False)
           | None \<Rightarrow> (b, None, False)))"

section \<open>The table\<close>

record rtable =
  r_self :: kadpeer
  r_buckets :: "bucket list"

text \<open>The index of the bucket of an identifier; \<open>LogDist\<close> is an \<open>int\<close> as in the code.\<close>

definition rtable_bucket :: "rtable \<Rightarrow> ID \<Rightarrow> nat" where
  "rtable_bucket r i =
     (let kid = LogDist i (kp_id (r_self r)) in
      if kid \<le> int BUCKETMINDISTANCE then 0
      else nat (kid - int BUCKETMINDISTANCE - 1))"

definition rtable_size :: "rtable \<Rightarrow> nat" where
  "rtable_size r = foldl (\<lambda>n b. n + bucket_size b) 0 (r_buckets r)"

fun isempty_loop :: "bucket list \<Rightarrow> bool" where
  "isempty_loop [] = True"
| "isempty_loop (b # bs) = (if bucket_size b > 0 then False else isempty_loop bs)"

definition rtable_isempty :: "rtable \<Rightarrow> bool" where
  "rtable_isempty r = isempty_loop (r_buckets r)"

definition rtable_seen :: "rtable \<Rightarrow> kadpeer \<Rightarrow> rtable \<times> kadpeer option \<times> bool" where
  "rtable_seen r p =
     (let k = rtable_bucket r (kp_id p) in
      case bucket_add (r_buckets r ! k) p of
        (b, first, added) \<Rightarrow> (r\<lparr>r_buckets := (r_buckets r)[k := b]\<rparr>, first, added))"

definition newrtable :: "kadpeer \<Rightarrow> rtable" where
  "newrtable self =
     fst (rtable_seen
       \<lparr>r_self = self, r_buckets = replicate NUMBUCKETS \<lparr>b_peers = [], b_replacements = []\<rparr>\<rparr> self)"

definition rtable_remove :: "rtable \<Rightarrow> ID \<Rightarrow> rtable \<times> kadpeer option \<times> bool" where
  "rtable_remove r i =
     (let k = rtable_bucket r i in
      case bucket_remove (r_buckets r ! k) i of
        (b, removed, inbucket) \<Rightarrow> (r\<lparr>r_buckets := (r_buckets r)[k := b]\<rparr>, removed, inbucket))"

definition rtable_get :: "rtable \<Rightarrow> ID \<Rightarrow> bool \<Rightarrow> kadpeer option" where
  "rtable_get r i onlybucket = bucket_get (r_buckets r ! rtable_bucket r i) i onlybucket"

text \<open>
  The queue that \<open>closest\<close> builds: the peers of all buckets with running indices. The items are
  fresh objects that live only during the call, so their address is not used.
\<close>

fun enqueue_buckets :: "ID \<Rightarrow> nat \<Rightarrow> bucket list \<Rightarrow> Pq" where
  "enqueue_buckets target i [] = []"
| "enqueue_buckets target i (b # bs) =
     (let peers = bucket_getpeers b in
      map (\<lambda>(j, p). \<lparr>q_addr = i + j, q_p = p, q_target = target, q_index = int (i + j)\<rparr>)
        (zip [0..<length peers] peers)
      @ enqueue_buckets target (i + length peers) bs)"

definition rtable_closest :: "rtable \<Rightarrow> ID \<Rightarrow> nat \<Rightarrow> kadpeer list option" where
  "rtable_closest r target k =
     map_option (\<lambda>(xs, _). map q_p xs)
       (pop_loop k 0 (Pq_init (enqueue_buckets target 0 (r_buckets r))))"

section \<open>Facts on the loops\<close>

lemma length_shift_left [simp]: "length (shift_left i xs) = length xs"
  by (induction i xs rule: shift_left.induct) (simp add: shift_left.simps)

lemma shift_left_eq:
  "i < length xs \<Longrightarrow> shift_left i xs = take i xs @ drop (Suc i) xs @ [last xs]"
proof (induction i xs rule: shift_left.induct)
  case (1 i xs)
  show ?case
  proof (cases "i < length xs - 1")
    case True
    have "shift_left i xs = shift_left (Suc i) (xs[i := xs ! Suc i])"
      using True by (simp add: shift_left.simps [of i])
    also have "\<dots> = take (Suc i) (xs[i := xs ! Suc i]) @ drop (Suc (Suc i)) xs @ [last (xs[i := xs ! Suc i])]"
      using 1 True by simp
    also have "last (xs[i := xs ! Suc i]) = last xs"
      using True by (cases xs rule: rev_cases) (simp_all add: list_update_append)
    also have "take (Suc i) (xs[i := xs ! Suc i]) = take i xs @ [xs ! Suc i]"
      using True by (simp add: take_Suc_conv_app_nth)
    finally show ?thesis using True by (simp add: Cons_nth_drop_Suc)
  next
    case False
    then have "i = length xs - 1" using 1 by linarith
    moreover have "shift_left i xs = xs" using False by (simp add: shift_left.simps [of i])
    moreover have "xs = butlast xs @ [last xs]" using 1 by (intro append_butlast_last_id [symmetric]) auto
    ultimately show ?thesis by (simp add: butlast_conv_take)
  qed
qed

lemma shift_left_update:
  "i < length xs \<Longrightarrow>
   (shift_left i xs)[length xs - 1 := y] = take i xs @ drop (Suc i) xs @ [y]"
proof -
  assume i: "i < length xs"
  then have l: "length xs - 1 = length (take i xs @ drop (Suc i) xs)" by simp
  show ?thesis
    unfolding l by (simp only: shift_left_eq [OF i] append_assoc [symmetric] list_update_length)
qed

lemma find_peer_None: "find_peer i ps = None \<longleftrightarrow> i \<notin> kp_id ` set ps"
  by (induction ps) auto

lemma find_peer_ex: "(\<exists>p. find_peer i ps = Some p) \<longleftrightarrow> i \<in> kp_id ` set ps"
  using find_peer_None [of i ps] by auto

lemma find_peer_Some: "find_peer i ps = Some p \<Longrightarrow> p \<in> set ps \<and> kp_id p = i"
  by (induction ps) (auto split: if_splits)

lemma find_peer_distinct:
  "distinct (map kp_id ps) \<Longrightarrow> p \<in> set ps \<Longrightarrow> find_peer (kp_id p) ps = Some p"
  by (induction ps) auto

lemma find_index_None: "find_index i k ps = None \<longleftrightarrow> i \<notin> kp_id ` set ps"
  by (induction ps arbitrary: k) auto

lemma find_index_Some:
  "find_index i k ps = Some n \<Longrightarrow> k \<le> n \<and> n - k < length ps \<and> kp_id (ps ! (n - k)) = i"
proof (induction ps arbitrary: k)
  case (Cons p ps)
  then show ?case by (auto simp: Suc_diff_Suc nth_Cons' split: if_splits dest!: Cons.IH)
qed simp

section \<open>The invariant of a bucket\<close>

definition bucket_inv :: "bucket \<Rightarrow> bool" where
  "bucket_inv b \<longleftrightarrow>
     length (b_peers b) \<le> BUCKETSIZE \<and> length (b_replacements b) \<le> REPSIZE \<and>
     distinct (map kp_id (b_peers b @ b_replacements b)) \<and>
     (b_replacements b = [] \<or> length (b_peers b) = BUCKETSIZE)"

abbreviation b_all :: "bucket \<Rightarrow> kadpeer set" where
  "b_all b \<equiv> set (b_peers b) \<union> set (b_replacements b)"

lemma bucket_add_inv [kad_inv]:
  assumes "bucket_inv b" "bucket_add b p = (b', first, added)"
  shows "bucket_inv b' \<and> b_all b' \<subseteq> insert p (b_all b) \<and>
    (added \<longrightarrow> p \<in> set (b_peers b')) \<and> (\<forall>q. first = Some q \<longrightarrow> q \<in> set (b_peers b))"
proof -
  have nth_0: "BUCKETSIZE \<le> length (b_peers b) \<Longrightarrow> b_peers b ! 0 \<in> set (b_peers b)"
    unfolding BUCKETSIZE_def by (intro nth_mem) linarith
  consider (known) "kp_id p \<in> kp_id ` set (b_peers b)"
    | (room) "kp_id p \<notin> kp_id ` set (b_peers b)" "length (b_peers b) < BUCKETSIZE"
    | (rep) "kp_id p \<notin> kp_id ` set (b_peers b)" "BUCKETSIZE \<le> length (b_peers b)"
      "kp_id p \<in> kp_id ` set (b_replacements b)"
    | (new) "kp_id p \<notin> kp_id ` set (b_peers b)" "BUCKETSIZE \<le> length (b_peers b)"
      "kp_id p \<notin> kp_id ` set (b_replacements b)" "length (b_replacements b) < REPSIZE"
    | (shift) "kp_id p \<notin> kp_id ` set (b_peers b)" "BUCKETSIZE \<le> length (b_peers b)"
      "kp_id p \<notin> kp_id ` set (b_replacements b)" "REPSIZE \<le> length (b_replacements b)"
    by linarith
  then show ?thesis
  proof cases
    case known
    then show ?thesis using assms by (auto simp: bucket_add_def find_peer_None find_peer_ex)
  next
    case room
    then have "b_replacements b = []" using assms(1) by (auto simp: bucket_inv_def)
    then show ?thesis using assms room
      by (auto simp: bucket_add_def find_peer_None find_peer_ex bucket_inv_def)
  next
    case rep
    then show ?thesis using assms nth_0
      by (auto simp: bucket_add_def find_peer_None find_peer_ex Let_def)
  next
    case new
    then have "b' = b\<lparr>b_replacements := b_replacements b @ [p]\<rparr>" "first = Some (b_peers b ! 0)" "\<not> added"
      using assms(2) by (auto simp: bucket_add_def find_peer_None find_peer_ex Let_def)
    moreover have "bucket_inv (b\<lparr>b_replacements := b_replacements b @ [p]\<rparr>)"
      using assms(1) new by (simp add: bucket_inv_def)
    ultimately show ?thesis using nth_0 new(2) by auto
  next
    case shift
    have n: "0 < length (b_replacements b)" using shift(4) unfolding REPSIZE_def by linarith
    obtain x xs where r: "b_replacements b = x # xs" using n by (cases "b_replacements b") auto
    have "(shift_left 0 (x # xs))[length xs := p] = xs @ [p]"
      using shift_left_update [of 0 "x # xs" p] by simp
    then have "b' = b\<lparr>b_replacements := xs @ [p]\<rparr>" "first = Some (b_peers b ! 0)" "\<not> added"
      using assms(2) shift r by (auto simp: bucket_add_def find_peer_None find_peer_ex Let_def)
    moreover have "bucket_inv (b\<lparr>b_replacements := xs @ [p]\<rparr>)"
      using assms(1) shift r by (simp add: bucket_inv_def)
    ultimately show ?thesis using nth_0 shift(2) r by auto
  qed
qed

lemma distinct_remove_nth:
  "distinct xs \<Longrightarrow> n < length xs \<Longrightarrow>
   distinct (take n xs @ drop (Suc n) xs) \<and> set (take n xs @ drop (Suc n) xs) = set xs - {xs ! n}"
proof -
  assume d: "distinct xs" "n < length xs"
  then have "xs = take n xs @ xs ! n # drop (Suc n) xs" by (simp add: id_take_nth_drop)
  with d(1) have "distinct (take n xs @ xs ! n # drop (Suc n) xs)"
    "set xs = set (take n xs @ xs ! n # drop (Suc n) xs)" by metis+
  then show ?thesis by auto
qed

lemma distinct_map_remove_nth:
  assumes "distinct (map f xs)" "n < length xs"
  shows "distinct (map f (take n xs @ drop (Suc n) xs))"
    "set (take n xs @ drop (Suc n) xs) = {x \<in> set xs. f x \<noteq> f (xs ! n)}"
proof -
  have "distinct xs" using assms(1) by (simp add: distinct_map)
  note d = distinct_remove_nth [OF this assms(2)]
  show "distinct (map f (take n xs @ drop (Suc n) xs))"
    using d assms(1) by (metis (no_types, lifting) Diff_subset distinct_map inj_on_subset)
  show "set (take n xs @ drop (Suc n) xs) = {x \<in> set xs. f x \<noteq> f (xs ! n)}"
    using d assms by (auto simp: distinct_map inj_on_def)
qed

text \<open>What \<open>remove\<close> does, in terms of the lists.\<close>

lemma bucket_remove_cases:
  assumes "bucket_inv b" "bucket_remove b i = (b', removed, inbucket)"
  obtains (absent) "b' = b" "removed = None" "\<not> inbucket" "i \<notin> kp_id ` b_all b"
  | (peer) n where "inbucket" "n < length (b_peers b)" "kp_id (b_peers b ! n) = i"
      "removed = Some (b_peers b ! n)"
      "b_peers b' = take n (b_peers b) @ drop (Suc n) (b_peers b) @ take 1 (b_replacements b)"
      "b_replacements b' = drop 1 (b_replacements b)"
  | (rep) n where "\<not> inbucket" "n < length (b_replacements b)" "kp_id (b_replacements b ! n) = i"
      "removed = Some (b_replacements b ! n)" "i \<notin> kp_id ` set (b_peers b)"
      "b_peers b' = b_peers b"
      "b_replacements b' = take n (b_replacements b) @ drop (Suc n) (b_replacements b)"
proof (cases "find_index i 0 (b_peers b)")
  case None
  note N = this
  have ni: "i \<notin> kp_id ` set (b_peers b)" using N by (simp add: find_index_None)
  show thesis
  proof (cases "find_index i 0 (b_replacements b)")
    case None
    moreover have "i \<notin> kp_id ` set (b_replacements b)" using None by (simp add: find_index_None)
    ultimately show thesis using N ni assms(2) absent by (auto simp: bucket_remove_def)
  next
    case (Some n)
    then show thesis using N ni assms(2) rep [of n] find_index_Some [OF Some]
      by (auto simp: bucket_remove_def)
  qed
next
  case (Some n)
  have n: "n < length (b_peers b)" "kp_id (b_peers b ! n) = i" using find_index_Some [OF Some] by simp_all
  show thesis
  proof (cases "b_replacements b")
    case Nil
    then show thesis using Some n assms peer [of n] by (auto simp: bucket_remove_def)
  next
    case (Cons x xs)
    then show thesis using Some n assms peer [of n] shift_left_update [OF n(1), of x]
      by (auto simp: bucket_remove_def Let_def)
  qed
qed

lemma bucket_remove_inv [kad_inv]:
  assumes inv: "bucket_inv b" and rm: "bucket_remove b i = (b', removed, inbucket)"
  shows "bucket_inv b' \<and> b_all b' = {p \<in> b_all b. kp_id p \<noteq> i}"
  using inv rm
proof (cases rule: bucket_remove_cases)
  case absent
  then show ?thesis using inv by auto
next
  case (peer n)
  have d: "distinct (map kp_id (b_peers b))" "distinct (map kp_id (b_replacements b))"
    "kp_id ` set (b_peers b) \<inter> kp_id ` set (b_replacements b) = {}"
    using inv by (simp_all add: bucket_inv_def)
  define Q where "Q = take n (b_peers b) @ drop (Suc n) (b_peers b)"
  have Q: "distinct (map kp_id Q)" "set Q = {p \<in> set (b_peers b). kp_id p \<noteq> i}"
    "b_peers b' = Q @ take 1 (b_replacements b)" "length Q = length (b_peers b) - 1"
    using distinct_map_remove_nth [OF d(1) peer(2)] peer(2,3,5) by (simp_all add: Q_def)
  have i: "i \<in> kp_id ` set (b_peers b)" using peer(2,3) by (metis imageI nth_mem)
  show ?thesis
  proof (cases "b_replacements b")
    case Nil
    then show ?thesis using inv peer(6) Q by (auto simp: bucket_inv_def)
  next
    case (Cons x xs)
    have "kp_id x \<noteq> i" "\<forall>p \<in> set xs. kp_id p \<noteq> i" using i d(3) Cons by auto
    moreover have "kp_id ` set Q \<inter> kp_id ` set (x # xs) = {}" using d(3) Cons Q(2) by auto
    moreover have "length (b_peers b') = length (b_peers b)" using peer(2) Q(3,4) Cons by simp
    ultimately show ?thesis using inv peer(6) Q d(2) Cons by (auto simp: bucket_inv_def)
  qed
next
  case (rep n)
  have d: "distinct (map kp_id (b_peers b))" "distinct (map kp_id (b_replacements b))"
    "kp_id ` set (b_peers b) \<inter> kp_id ` set (b_replacements b) = {}"
    using inv by (simp_all add: bucket_inv_def)
  note rm = distinct_map_remove_nth [OF d(2) rep(2)]
  show ?thesis using inv rep rm d by (auto simp: bucket_inv_def)
qed

section \<open>The invariant of the table\<close>

definition rtable_inv :: "rtable \<Rightarrow> bool" where
  "rtable_inv r \<longleftrightarrow>
     wf_id (kp_id (r_self r)) \<and> length (r_buckets r) = NUMBUCKETS \<and>
     (\<forall>k < NUMBUCKETS. bucket_inv (r_buckets r ! k) \<and>
        (\<forall>p \<in> b_all (r_buckets r ! k). wf_id (kp_id p) \<and> rtable_bucket r (kp_id p) = k))"

definition r_all :: "rtable \<Rightarrow> kadpeer set" where
  "r_all r = (\<Union>b \<in> set (r_buckets r). b_all b)"

definition r_peers :: "rtable \<Rightarrow> kadpeer list" where
  "r_peers r = concat (map b_peers (r_buckets r))"

lemma rtable_bucket_range:
  assumes "wf_id (kp_id (r_self r))" "wf_id i"
  shows "rtable_bucket r i < NUMBUCKETS"
  using LogDist_range [OF assms(2,1)]
  by (auto simp: rtable_bucket_def Let_def go_simps)

lemma rtable_bucket_upd [simp]: "rtable_bucket (r\<lparr>r_buckets := bs\<rparr>) i = rtable_bucket r i"
  by (simp add: rtable_bucket_def)

lemma rtable_invD:
  assumes "rtable_inv r"
  shows "wf_id (kp_id (r_self r))" "length (r_buckets r) = NUMBUCKETS"
    "k < NUMBUCKETS \<Longrightarrow> bucket_inv (r_buckets r ! k)"
    "k < NUMBUCKETS \<Longrightarrow> p \<in> b_all (r_buckets r ! k) \<Longrightarrow> wf_id (kp_id p) \<and> rtable_bucket r (kp_id p) = k"
  using assms by (simp_all add: rtable_inv_def)

text \<open>Replacing one bucket: the shared step of \<open>seen\<close> and \<open>remove\<close>.\<close>

lemma rtable_inv_upd:
  assumes "rtable_inv r" "k < NUMBUCKETS" "bucket_inv b"
    and "\<forall>p \<in> b_all b. wf_id (kp_id p) \<and> rtable_bucket r (kp_id p) = k"
  shows "rtable_inv (r\<lparr>r_buckets := (r_buckets r)[k := b]\<rparr>)"
  using assms by (auto simp: rtable_inv_def nth_list_update)

lemma rtable_seen_inv [kad_inv]:
  assumes inv: "rtable_inv r" and wf: "wf_id (kp_id p)" and s: "rtable_seen r p = (r', first, added)"
  shows "rtable_inv r' \<and> r_self r' = r_self r"
proof -
  define k where "k = rtable_bucket r (kp_id p)"
  have k: "k < NUMBUCKETS" unfolding k_def by (rule rtable_bucket_range [OF rtable_invD(1) [OF inv] wf])
  obtain b where b: "bucket_add (r_buckets r ! k) p = (b, first, added)"
    "r' = r\<lparr>r_buckets := (r_buckets r)[k := b]\<rparr>"
    using s by (auto simp: rtable_seen_def Let_def k_def split: prod.splits)
  have "bucket_inv b" "b_all b \<subseteq> insert p (b_all (r_buckets r ! k))"
    using bucket_add_inv [OF rtable_invD(3) [OF inv k] b(1)] by simp_all
  then have "rtable_inv r'" unfolding b(2)
    using rtable_invD(4) [OF inv k] wf k_def by (intro rtable_inv_upd [OF inv k]) blast+
  then show ?thesis using b by simp
qed

lemma rtable_remove_inv [kad_inv]:
  assumes inv: "rtable_inv r" and wf: "wf_id i" and s: "rtable_remove r i = (r', removed, inbucket)"
  shows "rtable_inv r' \<and> r_self r' = r_self r"
proof -
  define k where "k = rtable_bucket r i"
  have k: "k < NUMBUCKETS" unfolding k_def by (rule rtable_bucket_range [OF rtable_invD(1) [OF inv] wf])
  obtain b where b: "bucket_remove (r_buckets r ! k) i = (b, removed, inbucket)"
    "r' = r\<lparr>r_buckets := (r_buckets r)[k := b]\<rparr>"
    using s by (auto simp: rtable_remove_def Let_def k_def split: prod.splits)
  have "bucket_inv b" "b_all b \<subseteq> b_all (r_buckets r ! k)"
    using bucket_remove_inv [OF rtable_invD(3) [OF inv k] b(1)] by auto
  then have "rtable_inv r'" unfolding b(2)
    using rtable_invD(4) [OF inv k] by (intro rtable_inv_upd [OF inv k]) blast+
  then show ?thesis using b by simp
qed

lemma newrtable_inv [kad_inv]:
  assumes "wf_id (kp_id self)"
  shows "rtable_inv (newrtable self) \<and> r_self (newrtable self) = self"
proof -
  let ?r = "\<lparr>r_self = self, r_buckets = replicate NUMBUCKETS \<lparr>b_peers = [], b_replacements = []\<rparr>\<rparr>"
  have "rtable_inv ?r" using assms by (simp add: rtable_inv_def bucket_inv_def)
  then show ?thesis
    using rtable_seen_inv [of ?r self] assms by (cases "rtable_seen ?r self") (simp add: newrtable_def)
qed

lemma r_peers_set: "p \<in> set (r_peers r) \<longleftrightarrow> (\<exists>k < length (r_buckets r). p \<in> set (b_peers (r_buckets r ! k)))"
  by (auto simp: r_peers_def set_conv_nth [of "r_buckets r"])

lemma r_peers_wf: "rtable_inv r \<Longrightarrow> p \<in> set (r_peers r) \<Longrightarrow> wf_id (kp_id p)"
  using rtable_invD(2,4) by (fastforce simp: r_peers_set)

text \<open>What the operations do to the set of all peers, replacements included.\<close>

lemma r_all_upd: "k < length (r_buckets r) \<Longrightarrow> r_all (r\<lparr>r_buckets := (r_buckets r)[k := b]\<rparr>) \<subseteq> r_all r \<union> b_all b"
  by (auto simp: r_all_def dest!: set_update_subset_insert [THEN subsetD])

lemma r_all_nth: "k < length (r_buckets r) \<Longrightarrow> b_all (r_buckets r ! k) \<subseteq> r_all r"
  unfolding r_all_def by (rule UN_upper) simp

lemma rtable_seen_all:
  assumes inv: "rtable_inv r" and wf: "wf_id (kp_id p)" and s: "rtable_seen r p = (r', first, added)"
  shows "r_all r' \<subseteq> insert p (r_all r)" "first = Some q \<Longrightarrow> q \<in> r_all r"
proof -
  define k where "k = rtable_bucket r (kp_id p)"
  have k: "k < NUMBUCKETS" unfolding k_def by (rule rtable_bucket_range [OF rtable_invD(1) [OF inv] wf])
  then have kl: "k < length (r_buckets r)" using rtable_invD(2) [OF inv] by simp
  obtain b where b: "bucket_add (r_buckets r ! k) p = (b, first, added)"
    "r' = r\<lparr>r_buckets := (r_buckets r)[k := b]\<rparr>"
    using s by (auto simp: rtable_seen_def Let_def k_def split: prod.splits)
  note add = bucket_add_inv [OF rtable_invD(3) [OF inv k] b(1)]
  show "r_all r' \<subseteq> insert p (r_all r)" using r_all_upd [OF kl, of b] add r_all_nth [OF kl] b(2) by blast
  show "q \<in> r_all r" if "first = Some q" using add that r_all_nth [OF kl] by blast
qed

lemma rtable_remove_all:
  assumes inv: "rtable_inv r" and wf: "wf_id i" and s: "rtable_remove r i = (r', removed, inbucket)"
  shows "r_all r' \<subseteq> r_all r" "removed = Some q \<Longrightarrow> q \<in> r_all r \<and> kp_id q = i"
proof -
  define k where "k = rtable_bucket r i"
  have k: "k < NUMBUCKETS" unfolding k_def by (rule rtable_bucket_range [OF rtable_invD(1) [OF inv] wf])
  then have kl: "k < length (r_buckets r)" using rtable_invD(2) [OF inv] by simp
  obtain b where b: "bucket_remove (r_buckets r ! k) i = (b, removed, inbucket)"
    "r' = r\<lparr>r_buckets := (r_buckets r)[k := b]\<rparr>"
    using s by (auto simp: rtable_remove_def Let_def k_def split: prod.splits)
  have "b_all b \<subseteq> b_all (r_buckets r ! k)"
    using bucket_remove_inv [OF rtable_invD(3) [OF inv k] b(1)] by auto
  then show "r_all r' \<subseteq> r_all r" using r_all_upd [OF kl, of b] r_all_nth [OF kl] b(2) by blast
  show "q \<in> r_all r \<and> kp_id q = i" if q: "removed = Some q"
    using rtable_invD(3) [OF inv k] b(1)
  proof (cases rule: bucket_remove_cases)
    case absent
    then show ?thesis using q by simp
  next
    case (peer n)
    then show ?thesis using q r_all_nth [OF kl] nth_mem [OF peer(2)] by auto
  next
    case (rep n)
    then show ?thesis using q r_all_nth [OF kl] nth_mem [OF rep(2)] by auto
  qed
qed

lemma rtable_get_all:
  assumes inv: "rtable_inv r" and wf: "wf_id i" and g: "rtable_get r i only = Some p"
  shows "p \<in> r_all r \<and> kp_id p = i"
proof -
  have k: "rtable_bucket r i < length (r_buckets r)"
    using rtable_bucket_range [OF rtable_invD(1) [OF inv] wf] rtable_invD(2) [OF inv] by simp
  have "p \<in> b_all (r_buckets r ! rtable_bucket r i) \<and> kp_id p = i"
    using g find_peer_Some [of i _ p] by (auto simp: rtable_get_def bucket_get_def Let_def split: if_splits)
  then show ?thesis using r_all_nth [OF k] by blast
qed

text \<open>No identifier is in the table twice: buckets do not overlap, since a peer's bucket is its class.\<close>

lemma distinct_concat_classes:
  assumes "\<forall>k < length xss. distinct (xss ! k) \<and> (\<forall>x \<in> set (xss ! k). c x = m + k)"
  shows "distinct (concat xss)"
  using assms
proof (induction xss arbitrary: m)
  case (Cons xs xss)
  have hd: "distinct xs" "\<forall>x \<in> set xs. c x = m"
    using Cons.prems [THEN spec, of 0] by simp_all
  have tl: "\<forall>k < length xss. distinct (xss ! k) \<and> (\<forall>x \<in> set (xss ! k). c x = Suc m + k)"
  proof (intro allI impI)
    fix k assume "k < length xss"
    then show "distinct (xss ! k) \<and> (\<forall>x \<in> set (xss ! k). c x = Suc m + k)"
      using Cons.prems [THEN spec, of "Suc k"] by simp
  qed
  have "c x \<noteq> m" if x: "x \<in> set (concat xss)" for x
  proof -
    obtain k where "k < length xss" "x \<in> set (xss ! k)"
      using x by (auto simp: set_conv_nth [of xss])
    then show ?thesis using tl by simp
  qed
  then show ?case using hd Cons.IH [OF tl] by auto
qed simp

lemma rtable_inv_class:
  "rtable_inv r \<Longrightarrow> k < NUMBUCKETS \<Longrightarrow> x \<in> kp_id ` set (b_peers (r_buckets r ! k)) \<Longrightarrow> rtable_bucket r x = k"
  by (auto simp: rtable_inv_def)

lemma r_peers_distinct:
  assumes "rtable_inv r"
  shows "distinct (map kp_id (r_peers r))"
proof -
  have "distinct (concat (map (\<lambda>b. map kp_id (b_peers b)) (r_buckets r)))"
    by (rule distinct_concat_classes [where c = "rtable_bucket r" and m = 0])
      (use assms rtable_inv_class [OF assms] in \<open>simp add: rtable_inv_def bucket_inv_def\<close>)
  then show ?thesis by (simp add: r_peers_def map_concat comp_def)
qed

lemma r_peers_bound:
  assumes "rtable_inv r"
  shows "length (r_peers r) \<le> NUMBUCKETS * BUCKETSIZE"
proof -
  have "length (concat (map b_peers bs)) \<le> length bs * BUCKETSIZE"
    if "\<forall>b \<in> set bs. length (b_peers b) \<le> BUCKETSIZE" for bs
    using that by (induction bs) auto
  moreover have "\<forall>b \<in> set (r_buckets r). length (b_peers b) \<le> BUCKETSIZE"
    using assms by (auto simp: rtable_inv_def bucket_inv_def in_set_conv_nth [of _ "r_buckets r"])
  ultimately show ?thesis using assms by (fastforce simp: r_peers_def rtable_inv_def)
qed

lemma rtable_size_eq: "rtable_size r = length (r_peers r)"
proof -
  have "foldl (\<lambda>n b. n + bucket_size b) m bs = m + length (concat (map b_peers bs))" for m bs
    by (induction bs arbitrary: m) (simp_all add: bucket_size_def)
  then show ?thesis by (simp add: rtable_size_def r_peers_def)
qed

section \<open>The closest peers\<close>

text \<open>
  \<open>nearest t k P ps\<close>: the list \<open>ps\<close> holds the \<open>k\<close> members of \<open>P\<close> closest to \<open>t\<close> (all, if there are
  fewer), strictly ordered by distance.
\<close>

definition nearest :: "ID \<Rightarrow> nat \<Rightarrow> kadpeer set \<Rightarrow> kadpeer list \<Rightarrow> bool" where
  "nearest t k P ps \<longleftrightarrow>
     set ps \<subseteq> P \<and> length ps = min k (card P) \<and>
     sorted_wrt (\<lambda>p q. xor_dist (kp_id p) t < xor_dist (kp_id q) t) ps \<and>
     (\<forall>p \<in> set ps. \<forall>q \<in> P - set ps. xor_dist (kp_id p) t < xor_dist (kp_id q) t)"

lemma map_snd_zip_upt [simp]: "map snd (zip [0..<length xs] xs) = xs"
  by (simp add: map_snd_zip)

lemma enqueue_buckets_peers: "map q_p (enqueue_buckets t i bs) = concat (map b_peers bs)"
  by (induction bs arbitrary: i) (simp_all add: Let_def bucket_getpeers_def comp_def case_prod_beta)

lemma enqueue_buckets_target: "x \<in> set (enqueue_buckets t i bs) \<Longrightarrow> q_target x = t"
  by (induction bs arbitrary: i) (auto simp: Let_def)

lemma strict_of_sorted_distinct:
  assumes "sorted (map f xs)" "distinct (map f xs)"
  shows "sorted_wrt (\<lambda>x y. f x < f y) xs"
  using assms by (induction xs) (auto simp: order_less_le)

text \<open>Popping \<open>k\<close> items from a queue whose peers have distinct identifiers gives the nearest ones.\<close>

lemma pops_ok_nearest:
  assumes ok: "pops_ok t k pq zs rest" and d: "distinct (map (kp_id \<circ> q_p) pq)"
    and pqok: "\<forall>x \<in> set pq. pq_ok t x"
  shows "nearest t k (q_p ` set pq) (map q_p zs)"
proof -
  have m: "mset (map pq_core pq) = mset (map pq_core (zs @ rest))" using ok by (simp add: pops_ok_def)
  note peers = mset_core_peers(1) [OF m]
  have set: "q_p ` set pq = q_p ` set zs \<union> q_p ` set rest"
    using arg_cong [OF peers, of set_mset] by (simp add: image_Un)
  have "mset (map kp_id (map q_p pq)) = mset (map kp_id (map q_p (zs @ rest)))"
    using arg_cong [OF peers, of "image_mset kp_id"] by (simp add: multiset.map_comp)
  then have di: "distinct (map kp_id (map q_p (zs @ rest)))"
    using d by (metis map_map mset_eq_imp_distinct_iff)
  have okall: "\<forall>x \<in> set (zs @ rest). pq_ok t x" by (rule mset_core_ok [OF m [symmetric] pqok])
  have dist: "pq_dist x \<noteq> pq_dist y" if "x \<in> set (zs @ rest)" "y \<in> set (zs @ rest)" "kp_id (q_p x) \<noteq> kp_id (q_p y)" for x y
    using okall that xor_dist_inj [of "kp_id (q_p x)" t "kp_id (q_p y)"]
    by (auto simp: pq_ok_def pq_dist_def wf_id_def)
  have ddist: "distinct (map pq_dist (zs @ rest))"
  proof (unfold distinct_map, intro conjI inj_onI)
    have i: "distinct (zs @ rest)" "inj_on (kp_id \<circ> q_p) (set (zs @ rest))"
      using di unfolding map_map distinct_map by blast+
    then show "distinct (zs @ rest)" by blast
    fix x y assume xy: "x \<in> set (zs @ rest)" "y \<in> set (zs @ rest)" "pq_dist x = pq_dist y"
    then have "kp_id (q_p x) = kp_id (q_p y)" using dist by blast
    then show "x = y" using inj_onD [OF i(2) _ xy(1,2)] by simp
  qed
  have dzs: "pq_dist z = xor_dist (kp_id (q_p z)) t" if "z \<in> set (zs @ rest)" for z
    using okall that by (auto simp: pq_ok_def pq_dist_def)
  have "sorted_wrt (\<lambda>x y. pq_dist x < pq_dist y) zs"
    using ok ddist by (intro strict_of_sorted_distinct) (simp_all add: pops_ok_def)
  then have "sorted_wrt (\<lambda>x y. xor_dist (kp_id (q_p x)) t < xor_dist (kp_id (q_p y)) t) zs"
    by (rule sorted_wrt_mono_rel [rotated]) (simp add: dzs)
  moreover have "pq_dist z < pq_dist y" if "z \<in> set zs" "y \<in> set rest" for z y
  proof -
    have "pq_dist z \<noteq> pq_dist y" using ddist that by auto
    moreover have "pq_dist z \<le> pq_dist y" using ok that by (simp add: pops_ok_def)
    ultimately show ?thesis by simp
  qed
  moreover have "card (q_p ` set pq) = length pq"
  proof -
    have "distinct (map kp_id (map q_p pq))" using d by simp
    then have "distinct (map q_p pq)" unfolding distinct_map [of kp_id] by (rule conjunct1)
    from distinct_card [OF this] show ?thesis by simp
  qed
  ultimately show ?thesis
    using ok set dzs by (auto simp: nearest_def pops_ok_def sorted_wrt_map)
qed

lemma enqueue_ok:
  assumes "rtable_inv r" "wf_id t"
  shows "map q_p (enqueue_buckets t 0 (r_buckets r)) = r_peers r"
    "\<forall>x \<in> set (enqueue_buckets t 0 (r_buckets r)). pq_ok t x"
proof -
  show peers: "map q_p (enqueue_buckets t 0 (r_buckets r)) = r_peers r"
    by (simp add: enqueue_buckets_peers r_peers_def)
  show "\<forall>x \<in> set (enqueue_buckets t 0 (r_buckets r)). pq_ok t x"
  proof
    fix x assume x: "x \<in> set (enqueue_buckets t 0 (r_buckets r))"
    then have "q_p x \<in> set (r_peers r)" using peers by (metis image_eqI set_map)
    then show "pq_ok t x"
      using r_peers_wf [OF assms(1)] assms(2) enqueue_buckets_target x by (simp add: pq_ok_def)
  qed
qed

lemma rtable_closest_nearest:
  assumes inv: "rtable_inv r" and t: "wf_id t" and k: "0 < k"
  obtains ps where "rtable_closest r t k = Some ps" "nearest t k (set (r_peers r)) ps"
proof -
  define pq where "pq = enqueue_buckets t 0 (r_buckets r)"
  note peers = enqueue_ok(1) [OF inv t, folded pq_def] and ok = enqueue_ok(2) [OF inv t, folded pq_def]
  note init = Pq_init_spec [OF ok]
  obtain zs rest where z: "pop_loop k 0 (Pq_init pq) = Some (zs, rest)" "pops_ok t (k - 0) (Pq_init pq) zs rest"
    by (rule pop_loop_spec [OF init(1) k])
  note ip = mset_core_peers(1) [OF init(2)]
  have "mset (map (kp_id \<circ> q_p) (Pq_init pq)) = mset (map kp_id (r_peers r))"
    using arg_cong [OF ip, of "image_mset kp_id"] by (simp add: peers flip: mset_map)
  then have "distinct (map (kp_id \<circ> q_p) (Pq_init pq))"
    using r_peers_distinct [OF inv] mset_eq_imp_distinct_iff by blast
  moreover have "\<forall>x \<in> set (Pq_init pq). pq_ok t x" using init(1) by (simp add: pq_wf_def)
  ultimately have "nearest t k (q_p ` set (Pq_init pq)) (map q_p zs)"
    using pops_ok_nearest z(2) by fastforce
  moreover have "q_p ` set (Pq_init pq) = set (r_peers r)"
    using ip peers by (metis mset_eq_setD set_map)
  ultimately show thesis using that z(1) by (simp add: rtable_closest_def flip: pq_def)
qed

lemma rtable_closest_zero:
  assumes inv: "rtable_inv r" and t: "wf_id t" and ne: "r_peers r \<noteq> []"
  shows "rtable_closest r t 0 = None"
proof -
  define pq where "pq = enqueue_buckets t 0 (r_buckets r)"
  note peers = enqueue_ok(1) [OF inv t, folded pq_def] and ok = enqueue_ok(2) [OF inv t, folded pq_def]
  have "pq \<noteq> []" using ne peers by auto
  then have "Pq_init pq \<noteq> []" using Pq_init_spec(2) [OF ok] by auto
  then show ?thesis
    using pop_loop_0 [OF Pq_init_spec(1) [OF ok]] by (simp add: rtable_closest_def flip: pq_def)
qed

section \<open>The contract of the table\<close>

text \<open>
  What the lookup and the node rely on. \<open>peers\<close> is the abstract content: the set of peers of all buckets.
\<close>

locale peer_table =
  fixes inv :: "'t \<Rightarrow> bool"
    and peers :: "'t \<Rightarrow> kadpeer set"
    and closest :: "'t \<Rightarrow> ID \<Rightarrow> nat \<Rightarrow> kadpeer list option"
    and seen :: "'t \<Rightarrow> kadpeer \<Rightarrow> 't \<times> kadpeer option \<times> bool"
    and remove :: "'t \<Rightarrow> ID \<Rightarrow> 't \<times> kadpeer option \<times> bool"
    and get :: "'t \<Rightarrow> ID \<Rightarrow> bool \<Rightarrow> kadpeer option"
  assumes inv_wf: "inv t \<Longrightarrow> p \<in> peers t \<Longrightarrow> wf_id (kp_id p)"
    and closest_nearest: "inv t \<Longrightarrow> wf_id i \<Longrightarrow> 0 < k \<Longrightarrow>
      \<exists>ps. closest t i k = Some ps \<and> nearest i k (peers t) ps"
    and seen_inv: "inv t \<Longrightarrow> wf_id (kp_id p) \<Longrightarrow> seen t p = (t', first, added) \<Longrightarrow> inv t'"
    and seen_peers: "inv t \<Longrightarrow> wf_id (kp_id p) \<Longrightarrow> seen t p = (t', first, added) \<Longrightarrow>
      peers t' = (if added then insert p (peers t) else peers t)"
    and remove_inv: "inv t \<Longrightarrow> wf_id i \<Longrightarrow> remove t i = (t', removed, inb) \<Longrightarrow> inv t'"
    and remove_gone: "inv t \<Longrightarrow> wf_id i \<Longrightarrow> remove t i = (t', removed, inb) \<Longrightarrow> get t' i False = None"
    and get_member: "inv t \<Longrightarrow> wf_id i \<Longrightarrow> get t i True = Some p \<longleftrightarrow> p \<in> peers t \<and> kp_id p = i"
begin

lemma closest_props:
  assumes "inv t" "wf_id i" "0 < k" "closest t i k = Some ps"
  shows "distinct (map kp_id ps)" "length ps \<le> k" "set ps \<subseteq> peers t" "\<forall>p \<in> set ps. wf_id (kp_id p)"
proof -
  have n: "nearest i k (peers t) ps" using closest_nearest [OF assms(1-3)] assms(4) by auto
  then have "sorted_wrt (\<lambda>p q. kp_id p \<noteq> kp_id q) ps"
    unfolding nearest_def by (auto elim: sorted_wrt_mono_rel [rotated])
  then show "distinct (map kp_id ps)" by (induction ps) auto
  show "length ps \<le> k" "set ps \<subseteq> peers t" using n by (simp_all add: nearest_def)
  then show "\<forall>p \<in> set ps. wf_id (kp_id p)" using inv_wf [OF assms(1)] by auto
qed

text \<open>A peer that was added is found, and a peer that was removed is not among the closest.\<close>

lemma seen_get: "inv t \<Longrightarrow> wf_id (kp_id p) \<Longrightarrow> seen t p = (t', first, True) \<Longrightarrow> get t' (kp_id p) True = Some p"
  using get_member [OF seen_inv, of t p t' first True "kp_id p" p] seen_peers [of t p t' first True] by simp

end

lemma bucket_add_peers:
  "bucket_add b p = (b', first, added) \<Longrightarrow> b_peers b' = (if added then b_peers b @ [p] else b_peers b)"
  by (auto simp: bucket_add_def Let_def split: if_splits)

lemma rtable_seen_peers:
  assumes inv: "rtable_inv r" and wf: "wf_id (kp_id p)" and s: "rtable_seen r p = (r', first, added)"
  shows "set (r_peers r') = (if added then insert p (set (r_peers r)) else set (r_peers r))"
proof -
  define k where "k = rtable_bucket r (kp_id p)"
  have k: "k < length (r_buckets r)"
    using rtable_bucket_range [OF rtable_invD(1) [OF inv] wf] rtable_invD(2) [OF inv] by (simp add: k_def)
  obtain b where b: "bucket_add (r_buckets r ! k) p = (b, first, added)"
    "r' = r\<lparr>r_buckets := (r_buckets r)[k := b]\<rparr>"
    using s by (auto simp: rtable_seen_def Let_def k_def split: prod.splits)
  have "q \<in> set (r_peers r') \<longleftrightarrow> q \<in> (if added then insert p (set (r_peers r)) else set (r_peers r))" for q
    unfolding b(2) using k bucket_add_peers [OF b(1)]
    by (cases added) (auto simp: r_peers_set nth_list_update split: if_splits)
  then show ?thesis by blast
qed

lemma rtable_get_member:
  assumes inv: "rtable_inv r" and wf: "wf_id i"
  shows "rtable_get r i True = Some p \<longleftrightarrow> p \<in> set (r_peers r) \<and> kp_id p = i"
proof
  define k where "k = rtable_bucket r i"
  have k: "k < NUMBUCKETS" unfolding k_def by (rule rtable_bucket_range [OF rtable_invD(1) [OF inv] wf])
  have g: "rtable_get r i True = find_peer i (b_peers (r_buckets r ! k))"
    by (simp add: rtable_get_def bucket_get_def k_def)
  { assume "rtable_get r i True = Some p"
    then show "p \<in> set (r_peers r) \<and> kp_id p = i"
      using find_peer_Some [of i _ p] k rtable_invD(2) [OF inv] unfolding g r_peers_set by auto }
  { assume p: "p \<in> set (r_peers r) \<and> kp_id p = i"
    then obtain j where j: "j < NUMBUCKETS" "p \<in> set (b_peers (r_buckets r ! j))"
      using rtable_invD(2) [OF inv] by (auto simp: r_peers_set)
    then have "j = k" using rtable_inv_class [OF inv j(1), of i] p by (auto simp: k_def)
    moreover have "distinct (map kp_id (b_peers (r_buckets r ! k)))"
      using rtable_invD(3) [OF inv k] by (simp add: bucket_inv_def)
    ultimately show "rtable_get r i True = Some p"
      using find_peer_distinct j p unfolding g by blast }
qed

lemma rtable_remove_gone:
  assumes inv: "rtable_inv r" and wf: "wf_id i" and s: "rtable_remove r i = (r', removed, inb)"
  shows "rtable_get r' i False = None"
proof -
  define k where "k = rtable_bucket r i"
  have k: "k < NUMBUCKETS" unfolding k_def by (rule rtable_bucket_range [OF rtable_invD(1) [OF inv] wf])
  obtain b where b: "bucket_remove (r_buckets r ! k) i = (b, removed, inb)"
    "r' = r\<lparr>r_buckets := (r_buckets r)[k := b]\<rparr>"
    using s by (auto simp: rtable_remove_def Let_def k_def split: prod.splits)
  have "b_all b = {p \<in> b_all (r_buckets r ! k). kp_id p \<noteq> i}"
    using bucket_remove_inv [OF rtable_invD(3) [OF inv k] b(1)] by simp
  then have "i \<notin> kp_id ` set (b_peers b)" "i \<notin> kp_id ` set (b_replacements b)" by auto
  then show ?thesis
    using k rtable_invD(2) [OF inv]
    by (simp add: b(2) rtable_get_def bucket_get_def Let_def find_peer_None flip: k_def)
qed

interpretation rt: peer_table rtable_inv "\<lambda>r. set (r_peers r)" rtable_closest rtable_seen rtable_remove rtable_get
proof unfold_locales
  show "\<exists>ps. rtable_closest r i k = Some ps \<and> nearest i k (set (r_peers r)) ps"
    if "rtable_inv r" "wf_id i" "0 < k" for r i k
    using rtable_closest_nearest [OF that] by blast
  show "rtable_inv r'" if "rtable_inv r" "wf_id (kp_id p)" "rtable_seen r p = (r', first, added)"
    for r p r' first added using rtable_seen_inv [OF that] by simp
  show "rtable_inv r'" if "rtable_inv r" "wf_id i" "rtable_remove r i = (r', removed, inb)"
    for r i r' removed inb using rtable_remove_inv [OF that] by simp
qed (rule r_peers_wf rtable_seen_peers rtable_remove_gone rtable_get_member; assumption)+

text \<open>
  Claim C7. The search for the closest peers is correct on every table in good order: for a positive
  \<open>k\<close> it returns, strictly sorted by XOR distance, the \<open>k\<close> peers of the whole table that are
  closest to the target (all of them, if there are fewer), and no other peer of the table is closer
  than one that is returned.
\<close>

theorem closest_is_nearest:
  assumes "rtable_inv r" "wf_id t" "0 < k"
  shows "\<exists>ps. rtable_closest r t k = Some ps \<and> nearest t k (set (r_peers r)) ps \<and>
    length ps = min k (rtable_size r)"
proof -
  obtain ps where ps: "rtable_closest r t k = Some ps" "nearest t k (set (r_peers r)) ps"
    using rt.closest_nearest [OF assms] by blast
  have "distinct (r_peers r)" using r_peers_distinct [OF assms(1)] by (simp add: distinct_map)
  then show ?thesis using ps by (auto simp: nearest_def rtable_size_eq distinct_card)
qed

theorem closest_is_nearest_witness:
  "\<exists>ps. rtable_closest (newrtable \<lparr>kp_addr = 0, kp_id = replicate 20 0\<rparr>) (replicate 20 1) 3 = Some ps \<and>
     nearest (replicate 20 1) 3 (set (r_peers (newrtable \<lparr>kp_addr = 0, kp_id = replicate 20 0\<rparr>))) ps"
  using closest_is_nearest [of "newrtable \<lparr>kp_addr = 0, kp_id = replicate 20 0\<rparr>" "replicate 20 1" 3]
    newrtable_inv [of "\<lparr>kp_addr = 0, kp_id = replicate 20 0\<rparr>"]
  by (auto simp: wf_id_def ADDRBYTES_def)

section \<open>Runs of the table\<close>

text \<open>Sequences of table operations.\<close>

datatype rtop = Seen kadpeer | Remove ID

fun rtop_wf :: "rtop \<Rightarrow> bool" where
  "rtop_wf (Seen p) = wf_id (kp_id p)"
| "rtop_wf (Remove i) = wf_id i"

fun rt_exec :: "rtable \<Rightarrow> rtop \<Rightarrow> rtable" where
  "rt_exec r (Seen p) = fst (rtable_seen r p)"
| "rt_exec r (Remove i) = fst (rtable_remove r i)"

definition rt_run :: "kadpeer \<Rightarrow> rtop list \<Rightarrow> rtable" where
  "rt_run self ops = foldl rt_exec (newrtable self) ops"

lemma rt_run_inv:
  assumes "wf_id (kp_id self)" "\<forall>x \<in> set ops. rtop_wf x"
  shows "rtable_inv (rt_run self ops) \<and> r_self (rt_run self ops) = self"
proof -
  have "rtable_inv (foldl rt_exec r ops) \<and> r_self (foldl rt_exec r ops) = r_self r"
    if "rtable_inv r" "\<forall>x \<in> set ops. rtop_wf x" for r
    using that
  proof (induction ops arbitrary: r)
    case (Cons x ops)
    have "rtable_inv (rt_exec r x) \<and> r_self (rt_exec r x) = r_self r"
    proof (cases x)
      case (Seen p)
      then show ?thesis using Cons.prems rtable_seen_inv [of r p] by (cases "rtable_seen r p") simp
    next
      case (Remove i)
      then show ?thesis using Cons.prems rtable_remove_inv [of r i] by (cases "rtable_remove r i") simp
    qed
    then show ?case using Cons by simp
  qed simp
  then show ?thesis using newrtable_inv [OF assms(1)] assms(2) by (simp add: rt_run_def)
qed

text \<open>The node's own peer stays in its bucket unless it is removed by name.\<close>

lemma self_stays:
  assumes inv: "rtable_inv r" and self: "\<exists>p \<in> set (r_peers r). kp_id p = i" and wf: "rtop_wf x"
    and nr: "x \<noteq> Remove i"
  shows "\<exists>p \<in> set (r_peers (rt_exec r x)). kp_id p = i"
proof (cases x)
  case (Seen p)
  obtain r' first added where s: "rtable_seen r p = (r', first, added)" by (rule prod_cases3)
  have "wf_id (kp_id p)" using wf Seen by simp
  then show ?thesis using rtable_seen_peers [OF inv _ s] self Seen s by (auto split: if_splits)
next
  case (Remove j)
  obtain q where q: "q \<in> set (r_peers r)" "kp_id q = i" using self by blast
  define k where "k = rtable_bucket r j"
  have wfj: "wf_id j" using wf Remove by simp
  have k: "k < NUMBUCKETS" unfolding k_def by (rule rtable_bucket_range [OF rtable_invD(1) [OF inv] wfj])
  obtain b removed inb where b: "bucket_remove (r_buckets r ! k) j = (b, removed, inb)" by (rule prod_cases3)
  have ex: "rt_exec r x = r\<lparr>r_buckets := (r_buckets r)[k := b]\<rparr>"
    using b Remove by (simp add: rtable_remove_def Let_def k_def)
  obtain m where m: "m < NUMBUCKETS" "q \<in> set (b_peers (r_buckets r ! m))"
    using q rtable_invD(2) [OF inv] by (auto simp: r_peers_set)
  have "q \<in> set (b_peers b)" if "m = k"
    using rtable_invD(3) [OF inv k] b
  proof (cases rule: bucket_remove_cases)
    case absent
    then show ?thesis using m that by simp
  next
    case (peer n)
    have d: "distinct (map kp_id (b_peers (r_buckets r ! k)))"
      using rtable_invD(3) [OF inv k] by (simp add: bucket_inv_def)
    have "kp_id q \<noteq> kp_id (b_peers (r_buckets r ! k) ! n)" using peer(3) q(2) nr Remove by auto
    then have "q \<in> set (take n (b_peers (r_buckets r ! k)) @ drop (Suc n) (b_peers (r_buckets r ! k)))"
      unfolding distinct_map_remove_nth(2) [OF d peer(2)] using m that by simp
    then show ?thesis unfolding peer(5) by auto
  next
    case (rep n)
    then show ?thesis using m that by simp
  qed
  then have "m < length (r_buckets (rt_exec r x))" "q \<in> set (b_peers (r_buckets (rt_exec r x) ! m))"
    using m rtable_invD(2) [OF inv] by (cases "m = k"; simp add: ex)+
  then have "q \<in> set (r_peers (rt_exec r x))" unfolding r_peers_set by blast
  then show ?thesis using q(2) by blast
qed

lemma isempty_iff: "rtable_isempty r \<longleftrightarrow> r_peers r = []"
proof -
  have "isempty_loop bs \<longleftrightarrow> concat (map b_peers bs) = []" for bs
    by (induction bs) (auto simp: bucket_size_def)
  then show ?thesis by (simp add: rtable_isempty_def r_peers_def)
qed

lemma newrtable_self:
  assumes "wf_id (kp_id self)"
  shows "\<exists>p \<in> set (r_peers (newrtable self)). kp_id p = kp_id self"
proof -
  let ?b = "\<lparr>b_peers = [], b_replacements = []\<rparr>"
  let ?r = "\<lparr>r_self = self, r_buckets = replicate NUMBUCKETS ?b\<rparr>"
  have "rtable_inv ?r" using assms by (simp add: rtable_inv_def bucket_inv_def)
  moreover have k: "rtable_bucket ?r (kp_id self) < NUMBUCKETS" using assms by (intro rtable_bucket_range) simp_all
  moreover have "bucket_add ?b self = (\<lparr>b_peers = [self], b_replacements = []\<rparr>, None, True)"
    by (simp add: bucket_add_def BUCKETSIZE_def)
  then have "rtable_seen ?r self = (newrtable self, None, True)"
    using k by (simp add: newrtable_def rtable_seen_def Let_def)
  ultimately show ?thesis using rtable_seen_peers [of ?r self "newrtable self" None True] assms by simp
qed

lemma rt_run_self:
  assumes "wf_id (kp_id self)" "\<forall>x \<in> set ops. rtop_wf x" "Remove (kp_id self) \<notin> set ops"
  shows "\<exists>p \<in> set (r_peers (rt_run self ops)). kp_id p = kp_id self"
  using assms(2,3)
proof (induction ops rule: rev_induct)
  case Nil
  then show ?case using newrtable_self [OF assms(1)] by (simp add: rt_run_def)
next
  case (snoc x ops)
  have "rtable_inv (rt_run self ops)" using rt_run_inv [OF assms(1), of ops] snoc.prems by simp
  moreover have "x \<noteq> Remove (kp_id self)" using snoc.prems by auto
  ultimately show ?case
    using self_stays [of "rt_run self ops" "kp_id self" x] snoc by (simp add: rt_run_def)
qed

text \<open>
  Claim C6. After any sequence of contacts and removals the routing table is in good order: each of
  its ten buckets holds at most ten peers and five replacements, replacements only when it is full,
  no identifier occurs twice, and every peer is in the bucket of its distance class; so the table
  never holds more than a hundred peers.
\<close>

theorem rtable_reachable_inv:
  assumes "wf_id (kp_id self)" "\<forall>x \<in> set ops. rtop_wf x"
  shows "rtable_inv (rt_run self ops) \<and> distinct (map kp_id (r_peers (rt_run self ops))) \<and>
    rtable_size (rt_run self ops) \<le> 100"
  using rt_run_inv [OF assms] r_peers_distinct r_peers_bound [of "rt_run self ops"]
  by (simp add: rtable_size_eq go_simps)

theorem rtable_reachable_inv_witness:
  "let self = \<lparr>kp_addr = 0, kp_id = replicate 20 0\<rparr>; p = \<lparr>kp_addr = 1, kp_id = replicate 20 1\<rparr>
   in rtable_inv (rt_run self [Seen p, Seen p, Remove (replicate 20 1)])"
  using rtable_reachable_inv [of "\<lparr>kp_addr = 0, kp_id = replicate 20 0\<rparr>"
      "[Seen \<lparr>kp_addr = 1, kp_id = replicate 20 1\<rparr>, Seen \<lparr>kp_addr = 1, kp_id = replicate 20 1\<rparr>,
        Remove (replicate 20 1)]"]
  by (simp add: wf_id_def ADDRBYTES_def)

text \<open>
  Claim C24. The table holds the node's own peer from the start, so it is never empty unless the node
  itself is removed by name. The branch of the main loop that seeds an empty table again is
  therefore not taken after all other peers have been lost.
\<close>

theorem rtable_never_empty:
  assumes "wf_id (kp_id self)" "\<forall>x \<in> set ops. rtop_wf x" "Remove (kp_id self) \<notin> set ops"
  shows "\<not> rtable_isempty (rt_run self ops) \<and> 0 < rtable_size (rt_run self ops)"
  using rt_run_self [OF assms] by (auto simp: isempty_iff rtable_size_eq)

theorem rtable_never_empty_witness:
  "\<not> rtable_isempty (rt_run \<lparr>kp_addr = 0, kp_id = replicate 20 0\<rparr>
      [Seen \<lparr>kp_addr = 1, kp_id = replicate 20 1\<rparr>, Remove (replicate 20 1)])"
  using rtable_never_empty [of "\<lparr>kp_addr = 0, kp_id = replicate 20 0\<rparr>"
      "[Seen \<lparr>kp_addr = 1, kp_id = replicate 20 1\<rparr>, Remove (replicate 20 1)]"]
  by (simp add: wf_id_def ADDRBYTES_def)

end
