(* ===== verification/KadPeersort.thy ===== *)
theory KadPeersort
  imports KadTable
begin

text \<open>
  The neighbour buffer of a lookup (\<open>ndn/kad/peersort.go\<close>, type \<open>peersort\<close>): a heap of items together
  with the index of the identifiers it holds. Items are objects, allocated from a counter; the
  time of the last query of an item is in a store, because the lookup marks items after it has
  put them back. A buffer in good order is a heap of items for its own target, without
  duplicate identifiers, and its index is exact.
\<close>

record pqmem =
  pm_next :: nat
  pm_queried :: querystore

record peersort =
  ps_target :: ID
  ps_queue :: Pq
  ps_peers :: "ID \<rightharpoonup> nat"

definition new_item :: "ID \<Rightarrow> kadpeer \<Rightarrow> nat \<Rightarrow> pqmem \<Rightarrow> PqPeer \<times> pqmem" where
  "new_item target p index m =
     (\<lparr>q_addr = pm_next m, q_p = p, q_target = target, q_index = int index\<rparr>,
      m\<lparr>pm_next := Suc (pm_next m), pm_queried := (pm_queried m)(pm_next m := 0)\<rparr>)"

text \<open>
  The constructor skips a peer whose identifier is already there. It has made the queue as long as the
  list of peers, so each skipped peer leaves a nil item at the end, on which \<open>heap.Init\<close> panics
  (its comparison reads every position of a queue of two or more items): \<open>None\<close>.
\<close>

fun newpeersort_loop :: "ID \<Rightarrow> kadpeer list \<Rightarrow> Pq \<Rightarrow> (ID \<rightharpoonup> nat) \<Rightarrow> pqmem \<Rightarrow> Pq \<times> (ID \<rightharpoonup> nat) \<times> pqmem" where
  "newpeersort_loop target [] q idx m = (q, idx, m)"
| "newpeersort_loop target (p # ps) q idx m =
     (if idx (kp_id p) \<noteq> None then newpeersort_loop target ps q idx m
      else (case new_item target p (length q) m of
              (item, m') \<Rightarrow> newpeersort_loop target ps (q @ [item]) (idx(kp_id p \<mapsto> q_addr item)) m'))"

definition newpeersort :: "ID \<Rightarrow> kadpeer list \<Rightarrow> pqmem \<Rightarrow> (peersort \<times> pqmem) option" where
  "newpeersort target peers m =
     (case newpeersort_loop target peers [] Map.empty m of
        (q, idx, m') \<Rightarrow>
          if length q < length peers then None
          else Some (\<lparr>ps_target = target, ps_queue = Pq_init q, ps_peers = idx\<rparr>, m'))"

definition ps_push :: "kadpeer \<Rightarrow> peersort \<Rightarrow> pqmem \<Rightarrow> peersort \<times> pqmem" where
  "ps_push p ps m =
     (if ps_peers ps (kp_id p) \<noteq> None then (ps, m)
      else (case new_item (ps_target ps) p 0 m of
              (item, m') \<Rightarrow>
                (ps\<lparr>ps_peers := (ps_peers ps)(kp_id p \<mapsto> q_addr item),
                    ps_queue := Pq_push item (ps_queue ps)\<rparr>, m')))"

definition ps_repush :: "PqPeer \<Rightarrow> peersort \<Rightarrow> peersort" where
  "ps_repush qp ps =
     (if ps_peers ps (kp_id (q_p qp)) \<noteq> None then ps
      else ps\<lparr>ps_peers := (ps_peers ps)(kp_id (q_p qp) \<mapsto> q_addr qp),
              ps_queue := Pq_push qp (ps_queue ps)\<rparr>)"

fun ps_update :: "kadpeer list \<Rightarrow> peersort \<Rightarrow> pqmem \<Rightarrow> peersort \<times> pqmem" where
  "ps_update [] ps m = (ps, m)"
| "ps_update (p # peers) ps m =
     (if ps_peers ps (kp_id p) \<noteq> None then ps_update peers ps m
      else (case new_item (ps_target ps) p 0 m of
              (item, m') \<Rightarrow>
                ps_update peers
                  (ps\<lparr>ps_peers := (ps_peers ps)(kp_id p \<mapsto> q_addr item),
                      ps_queue := Pq_push item (ps_queue ps)\<rparr>) m'))"

definition ps_delete :: "PqPeer list \<Rightarrow> (ID \<rightharpoonup> nat) \<Rightarrow> (ID \<rightharpoonup> nat)" where
  "ps_delete items idx = foldl (\<lambda>m item. m(kp_id (q_p item) := None)) idx items"

definition ps_closest :: "nat \<Rightarrow> peersort \<Rightarrow> (PqPeer list \<times> peersort) option" where
  "ps_closest k ps =
     map_option (\<lambda>(items, q). (items, ps\<lparr>ps_queue := q, ps_peers := ps_delete items (ps_peers ps)\<rparr>))
       (pop_loop k 0 (ps_queue ps))"

text \<open>The nil check function accepts nothing.\<close>

definition ps_closestex :: "nat \<Rightarrow> (PqPeer \<Rightarrow> bool) option \<Rightarrow> peersort \<Rightarrow> kadpeer list" where
  "ps_closestex k check ps =
     (let l = min k (length (ps_queue ps)) in
      map q_p (filter (\<lambda>p. case check of None \<Rightarrow> False | Some c \<Rightarrow> c p) (take l (ps_queue ps))))"

definition notqueried :: "int \<Rightarrow> querystore \<Rightarrow> PqPeer \<Rightarrow> bool" where
  "notqueried now qs p \<longleftrightarrow> \<not> recentlyqueried now qs p"

definition notseen :: "int \<Rightarrow> 'r peerstore \<Rightarrow> PqPeer \<Rightarrow> bool" where
  "notseen now st p \<longleftrightarrow> \<not> recentlyseen now (q_p p) st"

section \<open>The invariant\<close>

abbreviation item_id :: "PqPeer \<Rightarrow> ID" where
  "item_id x \<equiv> kp_id (q_p x)"

definition ps_ids :: "peersort \<Rightarrow> ID set" where
  "ps_ids ps = item_id ` set (ps_queue ps)"

definition ps_content :: "peersort \<Rightarrow> kadpeer set" where
  "ps_content ps = q_p ` set (ps_queue ps)"

definition ps_inv :: "peersort \<Rightarrow> bool" where
  "ps_inv ps \<longleftrightarrow>
     wf_id (ps_target ps) \<and> pq_wf (ps_target ps) (ps_queue ps) \<and>
     distinct (map item_id (ps_queue ps)) \<and> dom (ps_peers ps) = ps_ids ps"

lemma Pq_push_peers:
  assumes "pq_wf t pq" "pq_ok t x"
  shows "mset (map q_p (Pq_push x pq)) = add_mset (q_p x) (mset (map q_p pq))"
  using mset_core_peers(1) [of "Pq_push x pq" "x # pq"] Pq_push_spec(2) [OF assms] by simp

lemma Pq_push_ids:
  assumes "pq_wf t pq" "pq_ok t x"
  shows "q_p ` set (Pq_push x pq) = insert (q_p x) (q_p ` set pq)"
    "item_id ` set (Pq_push x pq) = insert (item_id x) (item_id ` set pq)"
    "item_id x \<notin> item_id ` set pq \<Longrightarrow> distinct (map item_id pq) \<Longrightarrow> distinct (map item_id (Pq_push x pq))"
proof -
  note m = Pq_push_peers [OF assms]
  show a: "q_p ` set (Pq_push x pq) = insert (q_p x) (q_p ` set pq)"
    using arg_cong [OF m, of set_mset] by simp
  show "item_id ` set (Pq_push x pq) = insert (item_id x) (item_id ` set pq)"
    using arg_cong [OF a, of "\<lambda>S. kp_id ` S"] by (simp add: image_image)
  assume "item_id x \<notin> item_id ` set pq" "distinct (map item_id pq)"
  moreover have "mset (map item_id (Pq_push x pq)) = mset (map item_id (x # pq))"
    using arg_cong [OF m, of "image_mset kp_id"] by (simp add: multiset.map_comp comp_def)
  ultimately show "distinct (map item_id (Pq_push x pq))"
    using mset_eq_imp_distinct_iff [of "map item_id (Pq_push x pq)" "map item_id (x # pq)"] by simp
qed

text \<open>Adding one item under a new identifier: the shared step of \<open>push\<close>, \<open>repush\<close> and \<open>update\<close>.\<close>

lemma ps_add_inv:
  fixes a :: nat
  assumes inv: "ps_inv ps" and new: "ps_peers ps (item_id x) = None" and ok: "pq_ok (ps_target ps) x"
  defines "ps' \<equiv> ps\<lparr>ps_peers := (ps_peers ps)(item_id x \<mapsto> a), ps_queue := Pq_push x (ps_queue ps)\<rparr>"
  shows "ps_inv ps'" "ps_ids ps' = insert (item_id x) (ps_ids ps)"
    "ps_content ps' = insert (q_p x) (ps_content ps)" "ps_target ps' = ps_target ps"
proof -
  have wf: "pq_wf (ps_target ps) (ps_queue ps)" using inv by (simp add: ps_inv_def)
  have "item_id x \<notin> dom (ps_peers ps)" using new by (simp add: domIff)
  then have nid: "item_id x \<notin> item_id ` set (ps_queue ps)" using inv by (simp add: ps_inv_def ps_ids_def)
  note ids = Pq_push_ids [OF wf ok]
  show "ps_ids ps' = insert (item_id x) (ps_ids ps)"
    "ps_content ps' = insert (q_p x) (ps_content ps)" "ps_target ps' = ps_target ps"
    using ids by (simp_all add: ps'_def ps_ids_def ps_content_def)
  then show "ps_inv ps'"
    using inv Pq_push_spec(1) [OF wf ok] ids(3) [OF nid] unfolding ps_inv_def by (simp add: ps'_def)
qed

lemma ps_repush_spec [kad_inv]:
  assumes "ps_inv ps" "pq_ok (ps_target ps) qp"
  shows "ps_inv (ps_repush qp ps)" "ps_ids (ps_repush qp ps) = insert (item_id qp) (ps_ids ps)"
    "ps_content (ps_repush qp ps) \<subseteq> insert (q_p qp) (ps_content ps)"
    "ps_target (ps_repush qp ps) = ps_target ps"
  using ps_add_inv [of ps qp "q_addr qp"] assms
  by (auto simp: ps_repush_def ps_inv_def dom_def)

lemma new_item_simps [simp]:
  "fst (new_item t p i m) = \<lparr>q_addr = pm_next m, q_p = p, q_target = t, q_index = int i\<rparr>"
  "pm_next (snd (new_item t p i m)) = Suc (pm_next m)"
  by (simp_all add: new_item_def)

lemma ps_update_spec [kad_inv]:
  assumes "ps_inv ps" "\<forall>p \<in> set peers. wf_id (kp_id p)" "ps_update peers ps m = (ps', m')"
  shows "ps_inv ps' \<and> ps_ids ps' = ps_ids ps \<union> kp_id ` set peers \<and>
    ps_content ps' \<subseteq> ps_content ps \<union> set peers \<and> ps_target ps' = ps_target ps"
  using assms
proof (induction peers arbitrary: ps m)
  case (Cons p peers)
  show ?case
  proof (cases "ps_peers ps (kp_id p)")
    case None
    define x where "x = \<lparr>q_addr = pm_next m, q_p = p, q_target = ps_target ps, q_index = 0\<rparr>"
    have x: "q_p x = p" "pq_ok (ps_target ps) x" "ps_peers ps (item_id x) = None"
      using Cons.prems(1,2) None by (simp_all add: x_def pq_ok_def ps_inv_def)
    note add = ps_add_inv [OF Cons.prems(1) x(3,2), of "q_addr x"]
    have "ps_update peers (ps\<lparr>ps_peers := (ps_peers ps)(item_id x \<mapsto> q_addr x),
        ps_queue := Pq_push x (ps_queue ps)\<rparr>) (snd (new_item (ps_target ps) p 0 m)) = (ps', m')"
      using Cons.prems(3) None by (simp add: x_def new_item_def)
    from Cons.IH [OF add(1) _ this] show ?thesis using Cons.prems(2) add x by auto
  next
    case (Some a)
    then have "kp_id p \<in> ps_ids ps" using Cons.prems(1) by (auto simp: ps_inv_def)
    moreover have eq: "ps_update peers ps m = (ps', m')" using Cons.prems(3) Some by simp
    ultimately show ?thesis using Cons.IH [OF Cons.prems(1) _ eq] Cons.prems(2) by auto
  qed
qed simp

lemma ps_delete_eq: "ps_delete items idx = (\<lambda>i. if i \<in> item_id ` set items then None else idx i)"
proof -
  have "foldl (\<lambda>m item. m(item_id item := None)) f items =
      (\<lambda>i. if i \<in> item_id ` set items then None else f i)" for f :: "ID \<rightharpoonup> nat"
    by (induction items arbitrary: f) auto
  then show ?thesis by (simp add: ps_delete_def)
qed

lemma ps_closest_spec [kad_inv]:
  assumes inv: "ps_inv ps" and k: "0 < k"
  obtains items ps' where "ps_closest k ps = Some (items, ps')" "ps_inv ps'"
    "ps_target ps' = ps_target ps" "\<forall>x \<in> set items. pq_ok (ps_target ps) x"
    "nearest (ps_target ps) k (ps_content ps) (map q_p items)"
    "distinct (map item_id items)" "ps_ids ps' = ps_ids ps - item_id ` set items"
    "item_id ` set items \<subseteq> ps_ids ps" "ps_content ps' \<subseteq> ps_content ps"
proof -
  let ?t = "ps_target ps" and ?q = "ps_queue ps"
  have wf: "pq_wf ?t ?q" and d: "distinct (map item_id ?q)" and dm: "dom (ps_peers ps) = ps_ids ps"
    using inv by (simp_all add: ps_inv_def)
  obtain zs rest where z: "pop_loop k 0 ?q = Some (zs, rest)" "pops_ok ?t (k - 0) ?q zs rest"
    by (rule pop_loop_spec [OF wf k])
  have m: "mset (map pq_core ?q) = mset (map pq_core (zs @ rest))" using z(2) by (simp add: pops_ok_def)
  note mp = mset_core_peers(1) [OF m]
  have mi: "mset (map item_id ?q) = mset (map item_id (zs @ rest))"
    using arg_cong [OF mp, of "image_mset kp_id"] by (simp add: multiset.map_comp comp_def)
  have dd: "distinct (map item_id (zs @ rest))" using d mset_eq_imp_distinct_iff [OF mi] by simp
  have ids: "ps_ids ps = item_id ` set zs \<union> item_id ` set rest"
    using arg_cong [OF mi, of set_mset] by (simp add: ps_ids_def image_Un)
  define ps' where "ps' = ps\<lparr>ps_queue := rest, ps_peers := ps_delete zs (ps_peers ps)\<rparr>"
  have id': "ps_ids ps' = ps_ids ps - item_id ` set zs" using ids dd by (auto simp: ps_ids_def ps'_def)
  have "dom (ps_peers ps') = dom (ps_peers ps) - item_id ` set zs"
    by (auto simp: ps'_def ps_delete_eq dom_def)
  then have "ps_inv ps'"
    using inv z(2) dd dm id' by (simp add: ps_inv_def ps'_def pops_ok_def)
  moreover have "nearest ?t k (q_p ` set ?q) (map q_p zs)"
    using pops_ok_nearest [of ?t k ?q zs rest] z(2) d wf by (simp add: pq_wf_def comp_def)
  moreover have "q_p ` set rest \<subseteq> q_p ` set ?q"
    using arg_cong [OF mp, of set_mset] by auto
  ultimately show thesis
    using that [of zs ps'] z dd ids id' by (simp add: ps_closest_def ps'_def pops_ok_def ps_content_def)
qed

text \<open>With distinct identifiers the constructor succeeds and holds exactly the given peers.\<close>

lemma newpeersort_loop_spec:
  assumes "newpeersort_loop t peers q idx m = (q', idx', m')"
    and "dom idx = item_id ` set q" "distinct (map item_id q)"
    and "\<forall>x \<in> set q. q_target x = t"
  shows "dom idx' = item_id ` set q' \<and> distinct (map item_id q') \<and> (\<forall>x \<in> set q'. q_target x = t) \<and>
    set (map q_p q') \<subseteq> set (map q_p q) \<union> set peers \<and>
    (distinct (map item_id q @ map kp_id peers) \<longrightarrow> map q_p q' = map q_p q @ peers)"
  using assms
proof (induction peers arbitrary: q idx m)
  case (Cons p peers)
  show ?case
  proof (cases "idx (kp_id p)")
    case None
    have eq: "newpeersort_loop t peers (q @ [fst (new_item t p (length q) m)]) (idx(kp_id p \<mapsto> pm_next m))
        (snd (new_item t p (length q) m)) = (q', idx', m')"
      using Cons.prems(1) None by (simp add: new_item_def)
    have "kp_id p \<notin> dom idx" using None by (simp add: domIff)
    then have new: "kp_id p \<notin> item_id ` set q" using Cons.prems(2) by simp
    have pr: "dom (idx(kp_id p \<mapsto> pm_next m)) = item_id ` set (q @ [fst (new_item t p (length q) m)])"
      "distinct (map item_id (q @ [fst (new_item t p (length q) m)]))"
      "\<forall>x \<in> set (q @ [fst (new_item t p (length q) m)]). q_target x = t"
      using Cons.prems(2-4) new by (simp_all add: dom_fun_upd)
    show ?thesis using Cons.IH [OF eq pr] by simp
  next
    case (Some a)
    then have "kp_id p \<in> dom idx" by (simp add: domI)
    then have "\<not> distinct (map item_id q @ map kp_id (p # peers))" using Cons.prems(2) by auto
    moreover have eq: "newpeersort_loop t peers q idx m = (q', idx', m')" using Cons.prems(1) Some by simp
    ultimately show ?thesis using Cons.IH [OF eq Cons.prems(2-4)] by (simp add: subset_insertI2)
  qed
qed simp

lemma newpeersort_spec [kad_inv]:
  assumes "distinct (map kp_id peers)" "\<forall>p \<in> set peers. wf_id (kp_id p)" "wf_id t"
  obtains ps m' where "newpeersort t peers m = Some (ps, m')" "ps_inv ps" "ps_target ps = t"
    "ps_content ps = set peers"
proof -
  obtain q idx m' where l: "newpeersort_loop t peers [] Map.empty m = (q, idx, m')"
    by (rule prod_cases3)
  have q: "dom idx = item_id ` set q" "distinct (map item_id q)" "\<forall>x \<in> set q. q_target x = t"
    "map q_p q = peers"
    using newpeersort_loop_spec [OF l] assms(1) by simp_all
  have "\<forall>x \<in> set q. pq_ok t x" using q(3,4) assms(2,3) by (auto simp: pq_ok_def)
  note init = Pq_init_spec [OF this]
  note mp = mset_core_peers(1) [OF init(2)]
  have mi: "mset (map item_id (Pq_init q)) = mset (map item_id q)"
    using arg_cong [OF mp, of "image_mset kp_id"] by (simp add: multiset.map_comp comp_def)
  define ps where "ps = \<lparr>ps_target = t, ps_queue = Pq_init q, ps_peers = idx\<rparr>"
  have "newpeersort t peers m = Some (ps, m')"
    using l arg_cong [OF q(4), of length] by (simp add: newpeersort_def ps_def)
  moreover have "ps_inv ps"
    using init(1) q(1,2) assms(3) mset_eq_imp_distinct_iff [OF mi] mset_eq_setD [OF mi]
    by (simp add: ps_inv_def ps_def ps_ids_def)
  moreover have "ps_content ps = set peers"
    using mset_eq_setD [OF mp] q(4) by (simp add: ps_def ps_content_def flip: set_map)
  ultimately show thesis using that by (simp add: ps_def)
qed

end
