(* ===== verification/KadLookup.thy ===== *)
theory KadLookup
  imports KadPeersort
begin

text \<open>
  The iterative lookup (\<open>ndn/kad/algo.go\<close>). The environment decides what the queried peers answer, when
  the answers arrive and whether the lookup is aborted; it is given as a list of round descriptions,
  one per turn of the main loop. When the list ends before the loop does, the lookup is still
  running. The loop variable of the query loop is shared by the callbacks (the module is built with
  Go 1.13 semantics), so the item that an answer names is the value of the variable when the callback
  runs: the item at the callback's own position or at a later one.
\<close>

datatype kad_error = ErrNoPeer | ErrJobAborted | ErrInvalidIdentity | ErrRpc nat

record findnoderesult =
  fr_queried :: PqPeer
  fr_peers :: "kadpeer list"
  fr_err :: "kad_error option"

text \<open>
  One turn: the clock at the \<open>i\<close>-th test, the answer to the \<open>i\<close>-th query, the position of the loop
  variable when that answer arrives, the order of arrival, the clock of the marks, and the number of
  answers after which an abort is received, if one is. Positions and order depend on the number of
  queries of the turn, their first argument.
\<close>

record round =
  rd_now :: "nat \<Rightarrow> int"
  rd_reply :: "nat \<Rightarrow> kadpeer list \<times> kad_error option"
  rd_captured :: "nat \<Rightarrow> nat \<Rightarrow> nat"
  rd_arrival :: "nat \<Rightarrow> nat list"
  rd_mark :: int
  rd_abort :: "nat option"

datatype turn = Aborted | Round round

datatype lookup_result = Running | Panic | Returned "kadpeer list" "kad_error option"

fun compare :: "kadpeer list \<Rightarrow> kadpeer list \<Rightarrow> bool" where
  "compare [] [] = True"
| "compare (p # l1) (q # l2) = (if kp_id p \<noteq> kp_id q then False else compare l1 l2)"
| "compare _ _ = False"

text \<open>The result that position \<open>i\<close> of the querying list sends to the result channel.\<close>

definition round_result :: "round \<Rightarrow> querystore \<Rightarrow> PqPeer list \<Rightarrow> nat \<Rightarrow> findnoderesult" where
  "round_result e qs queried i =
     (if \<not> recentlyqueried (rd_now e i) qs (queried ! i)
      then \<lparr>fr_queried = queried ! rd_captured e (length queried) i,
            fr_peers = fst (rd_reply e i), fr_err = snd (rd_reply e i)\<rparr>
      else \<lparr>fr_queried = queried ! i, fr_peers = [], fr_err = None\<rparr>)"

definition handle_result :: "int \<Rightarrow> findnoderesult \<Rightarrow> peersort \<times> pqmem \<Rightarrow> peersort \<times> pqmem" where
  "handle_result now r = (\<lambda>(ps, m).
     if fr_err r \<noteq> None \<or> fr_peers r = [] then (ps, m)
     else
       (let ps1 = ps_repush (fr_queried r) ps;
            m1 = m\<lparr>pm_queried := PqPeer_mark now (fr_queried r) (pm_queried m)\<rparr>
        in ps_update (fr_peers r) ps1 m1))"

definition round_results :: "round \<Rightarrow> pqmem \<Rightarrow> PqPeer list \<Rightarrow> findnoderesult list" where
  "round_results e m queried =
     map (round_result e (pm_queried m) queried) (take (length queried) (rd_arrival e (length queried)))"

definition handle_results :: "int \<Rightarrow> findnoderesult list \<Rightarrow> peersort \<times> pqmem \<Rightarrow> peersort \<times> pqmem" where
  "handle_results now rs s = fold (handle_result now) rs s"

text \<open>The extraction of the new solution: the first \<open>KADEMLIA_ALPHA\<close> are queried next, the others put back.\<close>

definition repush_all :: "PqPeer list \<Rightarrow> peersort \<Rightarrow> peersort" where
  "repush_all items ps = fold ps_repush items ps"

fun lookup_loop :: "nat \<Rightarrow> kadpeer list \<Rightarrow> PqPeer list \<Rightarrow> peersort \<Rightarrow> pqmem \<Rightarrow> turn list \<Rightarrow> lookup_result" where
  "lookup_loop k solution queried ps m [] = Running"
| "lookup_loop k solution queried ps m (Aborted # ts) = Returned [] (Some ErrJobAborted)"
| "lookup_loop k solution queried ps m (Round e # ts) =
     (if queried = [] then Returned [] None
      else if (case rd_abort e of None \<Rightarrow> False | Some n \<Rightarrow> n < length queried)
      then Returned [] (Some ErrJobAborted)
      else
        (case handle_results (rd_mark e) (round_results e m queried) (ps, m) of
           (ps1, m1) \<Rightarrow>
             (case ps_closest k ps1 of
                None \<Rightarrow> Panic
              | Some (closest, ps2) \<Rightarrow>
                  (let newsolution = map q_p closest;
                       queried' = take KADEMLIA_ALPHA closest;
                       ps3 = repush_all (drop KADEMLIA_ALPHA closest) ps2
                   in if compare solution newsolution
                      then (case ts of Aborted # _ \<Rightarrow> Returned [] (Some ErrJobAborted)
                            | _ \<Rightarrow> Returned newsolution None)
                      else lookup_loop k newsolution queried' ps3 m1 ts))))"

definition lookup :: "(ID \<Rightarrow> nat \<Rightarrow> kadpeer list option) \<Rightarrow> ID \<Rightarrow> nat \<Rightarrow> turn list \<Rightarrow> lookup_result" where
  "lookup closest target k ts =
     (case closest target k of
        None \<Rightarrow> Panic
      | Some solution \<Rightarrow>
          if solution = [] then Returned [] (Some ErrNoPeer)
          else (case newpeersort target solution \<lparr>pm_next = 0, pm_queried = (\<lambda>_. 0)\<rparr> of
                  None \<Rightarrow> Panic
                | Some (ps, m) \<Rightarrow>
                    (case ps_closest KADEMLIA_ALPHA ps of
                       None \<Rightarrow> Panic
                     | Some (queried, ps') \<Rightarrow> lookup_loop k solution queried ps' m ts)))"

section \<open>Environments\<close>

text \<open>
  What the channels guarantee of a round: the answers arrive once each, a callback sees its own
  position or a later one, and identifiers have their fixed length.
\<close>

definition round_ok :: "round \<Rightarrow> bool" where
  "round_ok e \<longleftrightarrow>
     (\<forall>n. mset (rd_arrival e n) = mset [0..<n]) \<and>
     (\<forall>n i. i < n \<longrightarrow> i \<le> rd_captured e n i \<and> rd_captured e n i < n) \<and>
     (\<forall>i. \<forall>p \<in> set (fst (rd_reply e i)). wf_id (kp_id p))"

fun turn_ok :: "turn \<Rightarrow> bool" where
  "turn_ok Aborted = True"
| "turn_ok (Round e) = round_ok e"

fun turn_peers :: "turn \<Rightarrow> kadpeer set" where
  "turn_peers Aborted = {}"
| "turn_peers (Round e) = (\<Union>i. set (fst (rd_reply e i)))"

lemma le_last: "i < n \<Longrightarrow> i \<le> n - Suc 0"
  by simp

lemma compare_iff: "compare l1 l2 \<longleftrightarrow> map kp_id l1 = map kp_id l2"
  by (induction l1 l2 rule: compare.induct) auto

section \<open>One round\<close>

text \<open>The answers that count: without an error and not empty.\<close>

abbreviation useful :: "findnoderesult \<Rightarrow> bool" where
  "useful r \<equiv> fr_err r = None \<and> fr_peers r \<noteq> []"

definition result_ok :: "ID \<Rightarrow> findnoderesult \<Rightarrow> bool" where
  "result_ok t r \<longleftrightarrow> pq_ok t (fr_queried r) \<and> (\<forall>p \<in> set (fr_peers r). wf_id (kp_id p))"

definition contrib_ids :: "findnoderesult \<Rightarrow> ID set" where
  "contrib_ids r = (if useful r then insert (item_id (fr_queried r)) (kp_id ` set (fr_peers r)) else {})"

definition contrib :: "findnoderesult \<Rightarrow> kadpeer set" where
  "contrib r = (if useful r then insert (q_p (fr_queried r)) (set (fr_peers r)) else {})"

lemma handle_result_spec [kad_inv]:
  assumes "ps_inv ps" "result_ok (ps_target ps) r" "handle_result now r (ps, m) = (ps', m')"
  shows "ps_inv ps' \<and> ps_target ps' = ps_target ps \<and>
    ps_ids ps' = ps_ids ps \<union> contrib_ids r \<and> ps_content ps' \<subseteq> ps_content ps \<union> contrib r"
proof (cases "useful r")
  case True
  have ok: "pq_ok (ps_target ps) (fr_queried r)" using assms(2) by (simp add: result_ok_def)
  note rp = ps_repush_spec [OF assms(1) ok]
  obtain m1 where u: "ps_update (fr_peers r) (ps_repush (fr_queried r) ps) m1 = (ps', m')"
    using assms(3) True by (auto simp: handle_result_def Let_def)
  have wf: "\<forall>p \<in> set (fr_peers r). wf_id (kp_id p)" using assms(2) by (simp add: result_ok_def)
  show ?thesis using ps_update_spec [OF rp(1) wf u] rp(2-4) True by (auto simp: contrib_def contrib_ids_def)
next
  case False
  then have "ps' = ps" using assms(3) by (auto simp: handle_result_def)
  then show ?thesis using False assms(1) by (auto simp: contrib_def contrib_ids_def)
qed

lemma handle_results_spec:
  assumes "ps_inv ps" "\<forall>r \<in> set rs. result_ok (ps_target ps) r" "handle_results now rs (ps, m) = (ps', m')"
  shows "ps_inv ps' \<and> ps_target ps' = ps_target ps \<and> ps_ids ps' = ps_ids ps \<union> \<Union>(contrib_ids ` set rs) \<and>
    ps_content ps' \<subseteq> ps_content ps \<union> \<Union>(contrib ` set rs)"
  using assms
proof (induction rs arbitrary: ps m)
  case Nil
  then show ?case by (simp add: handle_results_def)
next
  case (Cons r rs)
  obtain ps1 m1 where h: "handle_result now r (ps, m) = (ps1, m1)" by (cases "handle_result now r (ps, m)")
  have rest: "handle_results now rs (ps1, m1) = (ps', m')" using Cons.prems(3) h by (simp add: handle_results_def)
  have ok: "result_ok (ps_target ps) r" using Cons.prems(2) by simp
  note one = handle_result_spec [OF Cons.prems(1) ok h]
  have "ps_inv ps1" "\<forall>r \<in> set rs. result_ok (ps_target ps1) r" using one Cons.prems(2) by simp_all
  note IH = Cons.IH [OF this rest]
  have "ps_ids ps' = ps_ids ps \<union> \<Union>(contrib_ids ` set (r # rs))"
    "ps_content ps' \<subseteq> ps_content ps \<union> \<Union>(contrib ` set (r # rs))"
    using IH one unfolding list.set image_insert Union_insert by blast+
  then show ?case using IH one by simp
qed

lemma repush_all_spec [kad_inv]:
  assumes "ps_inv ps" "\<forall>x \<in> set items. pq_ok (ps_target ps) x"
  shows "ps_inv (repush_all items ps) \<and> ps_target (repush_all items ps) = ps_target ps \<and>
    ps_ids (repush_all items ps) = ps_ids ps \<union> item_id ` set items \<and>
    ps_content (repush_all items ps) \<subseteq> ps_content ps \<union> q_p ` set items"
  using assms
proof (induction items arbitrary: ps)
  case Nil
  then show ?case by (simp add: repush_all_def)
next
  case (Cons x items)
  have x: "pq_ok (ps_target ps) x" using Cons.prems(2) by simp
  note one = ps_repush_spec [OF Cons.prems(1) x]
  have "ps_inv (ps_repush x ps)" "\<forall>y \<in> set items. pq_ok (ps_target (ps_repush x ps)) y"
    using one Cons.prems(2) by simp_all
  note IH = Cons.IH [OF this]
  have eq: "repush_all (x # items) ps = repush_all items (ps_repush x ps)" by (simp add: repush_all_def)
  have "ps_content (repush_all items (ps_repush x ps)) \<subseteq> ps_content ps \<union> q_p ` set (x # items)"
    using IH one(3) unfolding list.set image_insert by blast
  then show ?case unfolding eq using IH one(2,4) by simp
qed

section \<open>The loop\<close>

text \<open>What holds between two turns: a buffer in good order, and querying items for its target.\<close>

definition lookup_inv :: "ID \<Rightarrow> kadpeer set \<Rightarrow> PqPeer list \<Rightarrow> peersort \<Rightarrow> bool" where
  "lookup_inv t P queried ps \<longleftrightarrow>
     ps_inv ps \<and> ps_target ps = t \<and> (\<forall>x \<in> set queried. pq_ok t x) \<and>
     ps_content ps \<subseteq> P \<and> q_p ` set queried \<subseteq> P"

lemma round_results_ok:
  assumes "round_ok e" "\<forall>x \<in> set queried. pq_ok t x" "q_p ` set queried \<subseteq> P" "turn_peers (Round e) \<subseteq> P"
    "r \<in> set (round_results e m queried)"
  shows "result_ok t r" "contrib r \<subseteq> P"
proof -
  let ?n = "length queried"
  obtain i where i: "i \<in> set (rd_arrival e ?n)" "r = round_result e (pm_queried m) queried i"
    using assms(5) by (auto simp: round_results_def dest: in_set_takeD)
  have "set (rd_arrival e ?n) = {0..<?n}"
    using assms(1) mset_eq_setD [of "rd_arrival e ?n" "[0..<?n]"] by (simp add: round_ok_def)
  then have n: "i < ?n" "rd_captured e ?n i < ?n" using i(1) assms(1) by (auto simp: round_ok_def)
  have m: "queried ! i \<in> set queried" "queried ! rd_captured e ?n i \<in> set queried" using n by simp_all
  have "fr_queried r \<in> set queried" "set (fr_peers r) \<subseteq> set (fst (rd_reply e i))"
    using m by (simp_all add: i(2) round_result_def)
  moreover have "\<forall>p \<in> set (fst (rd_reply e i)). wf_id (kp_id p)" using assms(1) by (simp add: round_ok_def)
  moreover have "set (fst (rd_reply e i)) \<subseteq> P" using assms(4) by auto
  ultimately show "result_ok t r" "contrib r \<subseteq> P"
    using assms(2,3) by (auto simp: result_ok_def contrib_def)
qed

text \<open>One turn that is not aborted: the new solution is the nearest part of the buffer, and the invariant stays.\<close>

lemma lookup_round:
  assumes k: "0 < k" and inv: "lookup_inv t P queried ps" and e: "round_ok e" "turn_peers (Round e) \<subseteq> P"
  obtains ps1 m1 items ps2 where
    "handle_results (rd_mark e) (round_results e m queried) (ps, m) = (ps1, m1)"
    "ps_closest k ps1 = Some (items, ps2)" "nearest t k (ps_content ps1) (map q_p items)"
    "ps_content ps1 \<subseteq> P" "ps_ids ps1 = ps_ids ps \<union> \<Union>(contrib_ids ` set (round_results e m queried))"
    "lookup_inv t P (take KADEMLIA_ALPHA items) (repush_all (drop KADEMLIA_ALPHA items) ps2)"
proof -
  obtain ps1 m1 where h: "handle_results (rd_mark e) (round_results e m queried) (ps, m) = (ps1, m1)"
    by (cases "handle_results (rd_mark e) (round_results e m queried) (ps, m)")
  have inv: "ps_inv ps" "ps_target ps = t" "\<forall>x \<in> set queried. pq_ok t x" "ps_content ps \<subseteq> P"
    "q_p ` set queried \<subseteq> P" using inv by (simp_all add: lookup_inv_def)
  note ok = round_results_ok [OF e(1) inv(3,5) e(2)]
  have "\<forall>r \<in> set (round_results e m queried). result_ok (ps_target ps) r"
    using ok(1) inv(2) by blast
  note hs = handle_results_spec [OF inv(1) this h]
  have "\<Union>(contrib ` set (round_results e m queried)) \<subseteq> P" using ok(2) by blast
  then have c1: "ps_content ps1 \<subseteq> P" using hs inv(4) by blast
  have ps1: "ps_inv ps1" "ps_target ps1 = t" using hs inv(2) by simp_all
  obtain items ps2 where c: "ps_closest k ps1 = Some (items, ps2)" "ps_inv ps2" "ps_target ps2 = t"
    "\<forall>x \<in> set items. pq_ok t x" "nearest t k (ps_content ps1) (map q_p items)" "ps_content ps2 \<subseteq> ps_content ps1"
    by (rule ps_closest_spec [OF ps1(1) k]) (simp add: ps1(2))
  have sub: "set (drop KADEMLIA_ALPHA items) \<subseteq> set items" "set (take KADEMLIA_ALPHA items) \<subseteq> set items"
    by (rule set_drop_subset, rule set_take_subset)
  have "\<forall>x \<in> set (drop KADEMLIA_ALPHA items). pq_ok (ps_target ps2) x" using c(3,4) sub(1) by blast
  note rp = repush_all_spec [OF c(2) this]
  have items: "q_p ` set items \<subseteq> P" using c(5) c1 by (auto simp: nearest_def)
  note img = subset_trans [OF image_mono [OF sub(1)] items] subset_trans [OF image_mono [OF sub(2)] items]
  have "\<forall>x \<in> set (take KADEMLIA_ALPHA items). pq_ok t x" using c(4) sub(2) by blast
  moreover have "ps_content (repush_all (drop KADEMLIA_ALPHA items) ps2) \<subseteq> P"
    using rp c(6) c1 img(1) by (meson Un_least subset_trans)
  ultimately have "lookup_inv t P (take KADEMLIA_ALPHA items) (repush_all (drop KADEMLIA_ALPHA items) ps2)"
    using rp c(3) img(2) by (simp add: lookup_inv_def)
  then show thesis using that [OF h c(1,5) c1] hs by simp
qed

definition lookup_good :: "ID \<Rightarrow> nat \<Rightarrow> kadpeer set \<Rightarrow> lookup_result \<Rightarrow> bool" where
  "lookup_good t k P r \<longleftrightarrow>
     (case r of
        Running \<Rightarrow> True
      | Panic \<Rightarrow> False
      | Returned res None \<Rightarrow> res = [] \<or> (\<exists>B \<subseteq> P. nearest t k B res)
      | Returned res (Some e) \<Rightarrow> res = [] \<and> e \<in> {ErrJobAborted, ErrNoPeer})"

lemma lookup_loop_good:
  assumes "0 < k" "lookup_inv t P queried ps" "\<forall>x \<in> set ts. turn_ok x \<and> turn_peers x \<subseteq> P"
  shows "lookup_good t k P (lookup_loop k solution queried ps m ts)"
  using assms(2,3)
proof (induction ts arbitrary: solution queried ps m)
  case Nil
  then show ?case by (simp add: lookup_good_def)
next
  case (Cons x ts)
  show ?case
  proof (cases x)
    case Aborted
    then show ?thesis by (simp add: lookup_good_def)
  next
    case (Round e)
    then have e: "round_ok e" "turn_peers (Round e) \<subseteq> P" using Cons.prems(2) by simp_all
    obtain ps1 m1 items ps2 where r:
      "handle_results (rd_mark e) (round_results e m queried) (ps, m) = (ps1, m1)"
      "ps_closest k ps1 = Some (items, ps2)" "nearest t k (ps_content ps1) (map q_p items)"
      "ps_content ps1 \<subseteq> P"
      "lookup_inv t P (take KADEMLIA_ALPHA items) (repush_all (drop KADEMLIA_ALPHA items) ps2)"
      by (rule lookup_round [OF assms(1) Cons.prems(1) e])
    have "lookup_good t k P (Returned [] None)" "lookup_good t k P (Returned [] (Some ErrJobAborted))"
      "lookup_good t k P (Returned (map q_p items) None)"
      using r(3,4) by (auto simp: lookup_good_def)
    moreover have "lookup_good t k P (lookup_loop k (map q_p items) (take KADEMLIA_ALPHA items)
        (repush_all (drop KADEMLIA_ALPHA items) ps2) m1 ts)"
      using Cons.IH [OF r(5)] Cons.prems(2) by simp
    ultimately show ?thesis using r(1,2) Round
      by (simp add: Let_def split: list.split turn.split)
  qed
qed

section \<open>The whole lookup\<close>

lemma nearest_sorted:
  "nearest t k B res \<Longrightarrow> length res \<le> k \<and> set res \<subseteq> B \<and>
     sorted_wrt (\<lambda>p q. xor_dist (kp_id p) t < xor_dist (kp_id q) t) res"
  by (simp add: nearest_def)

context peer_table
begin

lemma lookup_table_good:
  assumes "inv tb" "wf_id t" "0 < k" "\<forall>x \<in> set ts. turn_ok x"
  shows "lookup_good t k (peers tb \<union> \<Union>(turn_peers ` set ts)) (lookup (closest tb) t k ts)"
proof -
  let ?P = "peers tb \<union> \<Union>(turn_peers ` set ts)"
  obtain sol where sol: "closest tb t k = Some sol" "nearest t k (peers tb) sol"
    using closest_nearest [OF assms(1-3)] by blast
  note cp = closest_props [OF assms(1-3) sol(1)]
  obtain ps m where ps: "newpeersort t sol \<lparr>pm_next = 0, pm_queried = (\<lambda>_. 0)\<rparr> = Some (ps, m)" "ps_inv ps"
    "ps_target ps = t" "ps_content ps = set sol"
    by (rule newpeersort_spec [OF cp(1,4) assms(2)])
  have alpha: "0 < KADEMLIA_ALPHA" by (simp add: KADEMLIA_ALPHA_def)
  obtain items ps' where c: "ps_closest KADEMLIA_ALPHA ps = Some (items, ps')" "ps_inv ps'" "ps_target ps' = ps_target ps"
    "\<forall>x \<in> set items. pq_ok (ps_target ps) x" "nearest (ps_target ps) KADEMLIA_ALPHA (ps_content ps) (map q_p items)"
    "ps_content ps' \<subseteq> ps_content ps"
    by (rule ps_closest_spec [OF ps(2) alpha])
  have "q_p ` set items \<subseteq> set sol" using nearest_sorted [OF c(5)] ps(4) by simp
  then have inv: "lookup_inv t ?P items ps'"
    using c ps(3,4) cp(3) by (auto simp: lookup_inv_def)
  have turns: "\<forall>x \<in> set ts. turn_ok x \<and> turn_peers x \<subseteq> ?P" using assms(4) by blast
  show ?thesis
  proof (cases "sol = []")
    case True
    then show ?thesis using sol(1) by (simp add: lookup_def lookup_good_def)
  next
    case False
    then show ?thesis using lookup_loop_good [OF assms(3) inv turns] sol(1) ps(1) c(1)
      by (simp add: lookup_def)
  qed
qed

end

text \<open>
  Claim C11. A lookup on a routing table in good order never panics, whatever the queried peers
  answer and in whatever order. When it returns without an error, the result has at most \<open>k\<close>
  peers, strictly sorted by distance to the target, all taken from the table or from an answer.
  With an error it returns no peer, and the error is the abort or the missing first peer.
\<close>

theorem lookup_sound:
  assumes "rtable_inv r" "wf_id t" "0 < k" "\<forall>x \<in> set ts. turn_ok x"
  shows "lookup (rtable_closest r) t k ts \<noteq> Panic \<and>
    (\<forall>res. lookup (rtable_closest r) t k ts = Returned res None \<longrightarrow>
      length res \<le> k \<and> sorted_wrt (\<lambda>p q. xor_dist (kp_id p) t < xor_dist (kp_id q) t) res \<and>
      set res \<subseteq> set (r_peers r) \<union> \<Union>(turn_peers ` set ts)) \<and>
    (\<forall>res e. lookup (rtable_closest r) t k ts = Returned res (Some e) \<longrightarrow>
      res = [] \<and> e \<in> {ErrJobAborted, ErrNoPeer})"
proof (intro conjI allI impI)
  let ?P = "set (r_peers r) \<union> \<Union>(turn_peers ` set ts)"
  note good = rt.lookup_table_good [OF assms]
  show "lookup (rtable_closest r) t k ts \<noteq> Panic" using good by (auto simp: lookup_good_def)
  fix res assume "lookup (rtable_closest r) t k ts = Returned res None"
  then have "res = [] \<or> (\<exists>B \<subseteq> ?P. nearest t k B res)" using good by (simp add: lookup_good_def)
  then have "length res \<le> k \<and> sorted_wrt (\<lambda>p q. xor_dist (kp_id p) t < xor_dist (kp_id q) t) res \<and> set res \<subseteq> ?P"
    using nearest_sorted [of t k _ res] by fastforce
  then show "length res \<le> k" "sorted_wrt (\<lambda>p q. xor_dist (kp_id p) t < xor_dist (kp_id q) t) res"
    "set res \<subseteq> ?P" by blast+
next
  fix res e assume "lookup (rtable_closest r) t k ts = Returned res (Some e)"
  then show "res = []" "e \<in> {ErrJobAborted, ErrNoPeer}"
    using rt.lookup_table_good [OF assms] by (simp_all add: lookup_good_def)
qed

theorem lookup_sound_witness:
  "lookup (rtable_closest (newrtable \<lparr>kp_addr = 0, kp_id = replicate 20 0\<rparr>)) (replicate 20 1) 5
     [Round \<lparr>rd_now = \<lambda>_. 20000000000, rd_reply = \<lambda>_. ([\<lparr>kp_addr = 1, kp_id = replicate 20 2\<rparr>], None),
        rd_captured = (\<lambda>n _. n - 1), rd_arrival = (\<lambda>n. [0..<n]), rd_mark = 20000000000, rd_abort = None\<rparr>] \<noteq> Panic"
  using lookup_sound [of "newrtable \<lparr>kp_addr = 0, kp_id = replicate 20 0\<rparr>" "replicate 20 1" 5
      "[Round \<lparr>rd_now = \<lambda>_. 20000000000, rd_reply = \<lambda>_. ([\<lparr>kp_addr = 1, kp_id = replicate 20 2\<rparr>], None),
        rd_captured = (\<lambda>n _. n - 1), rd_arrival = (\<lambda>n. [0..<n]), rd_mark = 20000000000, rd_abort = None\<rparr>]"]
    newrtable_inv [of "\<lparr>kp_addr = 0, kp_id = replicate 20 0\<rparr>"]
  by (simp add: wf_id_def ADDRBYTES_def round_ok_def le_last)

section \<open>What a round keeps\<close>

text \<open>
  Claim C20. The solution of a round is the nearest part of what the buffer holds after the answers, and
  the buffer then holds the old identifiers, those that useful answers name, and for each useful
  answer the item its callback saw. So a peer that was taken out for querying is kept only if some
  callback saw it or some answer names it: a peer that was queried a short time before, or whose
  own callback ran after the loop variable had moved on, is dropped although it is alive.
\<close>

theorem lookup_round_keeps:
  assumes "0 < k" "lookup_inv t P queried ps" "round_ok e" "turn_peers (Round e) \<subseteq> P"
  shows "\<exists>ps1 m1 items ps2.
    handle_results (rd_mark e) (round_results e m queried) (ps, m) = (ps1, m1) \<and>
    ps_closest k ps1 = Some (items, ps2) \<and> nearest t k (ps_content ps1) (map q_p items) \<and>
    ps_ids ps1 = ps_ids ps \<union> \<Union>(contrib_ids ` set (round_results e m queried)) \<and>
    (\<forall>i. i \<notin> ps_ids ps \<and> (\<forall>r \<in> set (round_results e m queried). i \<notin> contrib_ids r) \<longrightarrow>
       i \<notin> item_id ` set items)"
proof -
  obtain ps1 m1 items ps2 where r:
    "handle_results (rd_mark e) (round_results e m queried) (ps, m) = (ps1, m1)"
    "ps_closest k ps1 = Some (items, ps2)" "nearest t k (ps_content ps1) (map q_p items)"
    "ps_ids ps1 = ps_ids ps \<union> \<Union>(contrib_ids ` set (round_results e m queried))"
    by (rule lookup_round [OF assms])
  have "q_p ` set items \<subseteq> ps_content ps1" using nearest_sorted [OF r(3)] by simp
  from image_mono [OF this, of kp_id]
  have "item_id ` set items \<subseteq> ps_ids ps1" by (simp add: image_image ps_content_def ps_ids_def)
  then have "i \<notin> item_id ` set items"
    if "i \<notin> ps_ids ps" "\<forall>r \<in> set (round_results e m queried). i \<notin> contrib_ids r" for i
    using r(4) that by blast
  with r show ?thesis by blast
qed

theorem lookup_round_keeps_witness:
  "let a = \<lparr>q_addr = 0, q_p = \<lparr>kp_addr = 0, kp_id = replicate 20 1\<rparr>, q_target = replicate 20 0, q_index = -1\<rparr>;
       b = \<lparr>q_addr = 1, q_p = \<lparr>kp_addr = 1, kp_id = replicate 20 2\<rparr>, q_target = replicate 20 0, q_index = -1\<rparr>;
       c = \<lparr>kp_addr = 2, kp_id = replicate 20 3\<rparr>;
       ps = \<lparr>ps_target = replicate 20 0, ps_queue = [], ps_peers = Map.empty\<rparr>;
       m = \<lparr>pm_next = 2, pm_queried = (\<lambda>_. 0)\<rparr>;
       e = \<lparr>rd_now = \<lambda>_. 20000000000, rd_reply = \<lambda>_. ([c], None), rd_captured = (\<lambda>n _. n - 1),
            rd_arrival = (\<lambda>n. [0..<n]), rd_mark = 20000000000, rd_abort = None\<rparr>
   in \<exists>ps1 m1 items ps2.
     handle_results (rd_mark e) (round_results e m [a, b]) (ps, m) = (ps1, m1) \<and>
     ps_closest 5 ps1 = Some (items, ps2) \<and> fst (rd_reply e 0) = [c] \<and> item_id a \<notin> item_id ` set items"
proof -
  define a where "a = \<lparr>q_addr = 0, q_p = \<lparr>kp_addr = 0, kp_id = replicate 20 1\<rparr>, q_target = replicate 20 0, q_index = -1\<rparr>"
  define b where "b = \<lparr>q_addr = 1, q_p = \<lparr>kp_addr = 1, kp_id = replicate 20 2\<rparr>, q_target = replicate 20 0, q_index = -1\<rparr>"
  define c where "c = \<lparr>kp_addr = 2, kp_id = replicate 20 (3 :: byte)\<rparr>"
  define ps where "ps = \<lparr>ps_target = replicate 20 0, ps_queue = [], ps_peers = Map.empty\<rparr>"
  define m where "m = \<lparr>pm_next = 2, pm_queried = (\<lambda>_. 0)\<rparr>"
  define e where "e = \<lparr>rd_now = \<lambda>_. 20000000000, rd_reply = \<lambda>_. ([c], None), rd_captured = (\<lambda>n _. n - 1),
            rd_arrival = (\<lambda>n. [0..<n]), rd_mark = 20000000000, rd_abort = None\<rparr>"
  have inv: "lookup_inv (replicate 20 0) {q_p a, q_p b, c} [a, b] ps"
    by (simp add: lookup_inv_def ps_inv_def ps_def a_def b_def pq_ok_def wf_id_def ADDRBYTES_def pq_wf_def
        is_heap_def heap_from_def ps_ids_def ps_content_def)
  have e: "round_ok e" "turn_peers (Round e) \<subseteq> {q_p a, q_p b, c}"
    by (simp_all add: round_ok_def e_def c_def wf_id_def ADDRBYTES_def le_last)
  have "item_id a \<notin> ps_ids ps" by (simp add: ps_def ps_ids_def)
  moreover have "\<forall>r \<in> set (round_results e m [a, b]). item_id a \<notin> contrib_ids r"
    by (simp add: round_results_def round_result_def recentlyqueried_def go_simps e_def m_def upt_rec
        contrib_ids_def a_def b_def c_def)
  ultimately show ?thesis
    using lookup_round_keeps [OF _ inv e, of 5 m]
    unfolding Let_def a_def [symmetric] b_def [symmetric] c_def [symmetric] ps_def [symmetric]
      m_def [symmetric] e_def [symmetric]
    by (auto simp: e_def)
qed

end
