(* ===== verification/NdnName.thy ===== *)
theory NdnName
  imports KadId
begin

text \<open>
  Names of the NDN layer (\<open>ndn/ndnsuit/utils.go\<close>). A name is a list of typed components; the type
  itself comes from an external package, of which the code uses the two fields. The printable form
  escapes each component as a query string, so different names of plain components have
  different printable forms; the Kademlia layer hashes that form into node identifiers.
\<close>

record NameComponent =
  nc_type :: nat
  nc_value :: bytes

type_synonym Name = "NameComponent list"

definition TtImplicitSha256DigestComponent :: nat where "TtImplicitSha256DigestComponent = 1"
definition TtParametersSha256DigestComponent :: nat where "TtParametersSha256DigestComponent = 2"

definition BuildName :: "Name list \<Rightarrow> Name" where
  "BuildName names =
     (let l = foldl (\<lambda>l n. l + length n) 0 names;
          newname = replicate l \<lparr>nc_type = 0, nc_value = []\<rparr>
      in fst (foldl (\<lambda>(buf, l) n. (take l buf @ go_copy (drop l buf) n, l + length n)) (newname, 0) names))"

definition CopyName :: "Name \<Rightarrow> Name" where
  "CopyName src = go_copy (replicate (length src) \<lparr>nc_type = 0, nc_value = []\<rparr>) src"

text \<open>\<open>url.QueryEscape\<close>: letters, digits and four marks stay, a space becomes a plus, the rest is escaped.\<close>

definition unreserved :: "byte \<Rightarrow> bool" where
  "unreserved c \<longleftrightarrow> 97 \<le> c \<and> c \<le> 122 \<or> 65 \<le> c \<and> c \<le> 90 \<or> 48 \<le> c \<and> c \<le> 57 \<or>
     c = 45 \<or> c = 95 \<or> c = 46 \<or> c = 126"

definition upperhex :: "nat \<Rightarrow> byte" where
  "upperhex n = (if n < 10 then of_nat (48 + n) else of_nat (55 + n))"

fun QueryEscape :: "bytes \<Rightarrow> bytes" where
  "QueryEscape [] = []"
| "QueryEscape (c # cs) =
     (if unreserved c then [c]
      else if c = 32 then [43]
      else [37, upperhex (unat c div 16), upperhex (unat c mod 16)]) @ QueryEscape cs"

text \<open>A digest value shorter than two bytes makes the slice expression panic.\<close>

definition PrettyNameComponent :: "NameComponent \<Rightarrow> bytes option" where
  "PrettyNameComponent c =
     (if nc_type c = TtImplicitSha256DigestComponent \<or> nc_type c = TtParametersSha256DigestComponent
      then (let hexv = EncodeToString (nc_value c) in
            if length hexv < 4 then None else Some (take 4 hexv @ [46, 46, 46]))
      else Some (QueryEscape (nc_value c)))"

fun PrettyName :: "Name \<Rightarrow> bytes option" where
  "PrettyName [] = Some []"
| "PrettyName (c # cs) =
     (case PrettyNameComponent c of
        None \<Rightarrow> None
      | Some s \<Rightarrow> map_option (\<lambda>r. 47 # s @ r) (PrettyName cs))"

section \<open>Copying and joining names\<close>

lemma CopyName_id: "CopyName n = n"
  by (simp add: CopyName_def)

lemma foldl_len: "foldl (\<lambda>l n. l + length n) k names = k + length (concat names)"
  by (induction names arbitrary: k) simp_all

lemma BuildName_loop:
  "length buf = length pre + length (concat names) \<Longrightarrow> take (length pre) buf = pre \<Longrightarrow>
   fst (foldl (\<lambda>(buf, l) n. (take l buf @ go_copy (drop l buf) n, l + length n)) (buf, length pre) names)
     = pre @ concat names"
proof (induction names arbitrary: pre buf)
  case (Cons n names)
  let ?buf = "take (length pre) buf @ go_copy (drop (length pre) buf) n"
  have t: "take (length pre + length n) ?buf = pre @ n"
    using Cons.prems by (simp add: go_copy_def)
  show ?case
    using Cons.IH [of ?buf "pre @ n"] Cons.prems t by simp
qed simp

lemma BuildName_concat: "BuildName names = concat names"
proof -
  have l: "foldl (\<lambda>l n. l + length n) 0 names = length (concat names)" by (simp add: foldl_len)
  show ?thesis
    unfolding BuildName_def Let_def l
    using BuildName_loop [of "replicate (length (concat names)) \<lparr>nc_type = 0, nc_value = []\<rparr>" "[]" names] by simp
qed

section \<open>Printable names are unique\<close>

text \<open>Reading an escaped component back.\<close>

definition unhex :: "byte \<Rightarrow> nat" where
  "unhex c = (if c \<le> 57 then unat c - 48 else unat c - 55)"

fun unescape :: "bytes \<Rightarrow> bytes" where
  "unescape [] = []"
| "unescape (c # cs) =
     (if c = 37 then of_nat (unhex (cs ! 0) * 16 + unhex (cs ! 1)) # unescape (drop 2 cs)
      else if c = 43 then 32 # unescape cs
      else c # unescape cs)"

lemma nat_less_16:
  assumes "n < (16 :: nat)"
  shows "n \<in> {0, 1, 2, 3, 4, 5, 6, 7, 8, 9, 10, 11, 12, 13, 14, 15}"
  using assms by (simp; presburger)

lemma unhex_upperhex: "n < 16 \<Longrightarrow> unhex (upperhex n) = n \<and> upperhex n \<noteq> 47"
  by (drule nat_less_16, elim insertE emptyE) (simp_all add: unhex_def upperhex_def)

lemma byte_nibbles: "unat (c :: byte) div 16 < 16" "unat (c :: byte) mod 16 < 16"
  using unat_byte_bound [of c] by linarith+

lemma unescape_QueryEscape: "unescape (QueryEscape cs) = cs"
proof (induction cs)
  case (Cons c cs)
  have "c \<noteq> 37 \<and> c \<noteq> 43" if "unreserved c" using that by (auto simp: unreserved_def)
  then show ?case
    using Cons unhex_upperhex [OF byte_nibbles(1), of c] unhex_upperhex [OF byte_nibbles(2), of c]
    by (simp del: of_nat_add of_nat_mult)
qed simp

lemma QueryEscape_no_slash: "47 \<notin> set (QueryEscape cs)"
proof (induction cs)
  case (Cons c cs)
  have "unreserved c \<Longrightarrow> c \<noteq> 47" by (auto simp: unreserved_def)
  then show ?case
    using Cons unhex_upperhex [OF byte_nibbles(1), of c] unhex_upperhex [OF byte_nibbles(2), of c] by auto
qed simp

definition plain_name :: "Name \<Rightarrow> bool" where
  "plain_name n \<longleftrightarrow> (\<forall>c \<in> set n. nc_type c = 8)"

lemma PrettyName_plain:
  "plain_name n \<Longrightarrow> PrettyName n = Some (concat (map (\<lambda>c. 47 # QueryEscape (nc_value c)) n))"
  by (induction n)
    (simp_all add: plain_name_def PrettyNameComponent_def TtImplicitSha256DigestComponent_def
      TtParametersSha256DigestComponent_def)

text \<open>
  A reader of printable names of plain components: cut at the slashes, and unescape the pieces. It stands in
  for the external parser where a concrete one is needed.
\<close>

function split_marks :: "bytes \<Rightarrow> bytes list" where
  "split_marks [] = []"
| "split_marks (c # cs) = takeWhile (\<lambda>c. c \<noteq> 47) cs # split_marks (dropWhile (\<lambda>c. c \<noteq> 47) cs)"
  by pat_completeness auto
termination by (relation "measure length") (auto simp: le_imp_less_Suc length_dropWhile_le)

definition ParsePlain :: "bytes \<Rightarrow> Name" where
  "ParsePlain s = map (\<lambda>v. \<lparr>nc_type = 8, nc_value = unescape v\<rparr>) (split_marks s)"

lemma split_marks_concat:
  "\<forall>x \<in> set xs. 47 \<notin> set x \<Longrightarrow> split_marks (concat (map ((#) 47) xs)) = xs"
proof (induction xs)
  case (Cons x xs)
  have t: "takeWhile (\<lambda>c. c \<noteq> 47) (concat (map ((#) 47) xs)) = []"
    "dropWhile (\<lambda>c. c \<noteq> 47) (concat (map ((#) 47) xs)) = concat (map ((#) 47) xs)"
    by (cases xs; simp)+
  have x: "c \<noteq> 47" if "c \<in> set x" for c using Cons.prems that by auto
  have "takeWhile (\<lambda>c. c \<noteq> 47) (x @ concat (map ((#) 47) xs)) = x"
    using takeWhile_append2 [of x "\<lambda>c. c \<noteq> 47", OF x] t(1) by simp
  moreover have "dropWhile (\<lambda>c. c \<noteq> 47) (x @ concat (map ((#) 47) xs)) = concat (map ((#) 47) xs)"
    using dropWhile_append2 [of x "\<lambda>c. c \<noteq> 47", OF x] t(2) by simp
  moreover have "split_marks (concat (map ((#) 47) xs)) = xs" using Cons by simp
  ultimately show ?case by (simp only: list.map concat.simps append_Cons split_marks.simps)
qed simp

lemma ParsePlain_PrettyName:
  assumes "plain_name n" "PrettyName n = Some s"
  shows "ParsePlain s = n"
proof -
  let ?e = "map (\<lambda>c. QueryEscape (nc_value c)) n"
  have s: "s = concat (map ((#) 47) ?e)" using assms PrettyName_plain by (simp add: comp_def)
  have "\<forall>x \<in> set ?e. 47 \<notin> set x" using QueryEscape_no_slash by simp
  then have "split_marks s = ?e" unfolding s by (rule split_marks_concat)
  moreover have "map (\<lambda>c. \<lparr>nc_type = 8, nc_value = nc_value c\<rparr>) n = n"
    using assms(1) by (intro map_idI) (simp add: plain_name_def)
  ultimately show ?thesis by (simp add: ParsePlain_def comp_def unescape_QueryEscape)
qed

text \<open>
  Claim C21. Two names of plain components have the same printable form only if they are the same name,
  so the printable form that is hashed into a node identifier identifies the name.
\<close>

theorem PrettyName_injective:
  assumes "plain_name a" "plain_name b"
  shows "PrettyName a \<noteq> None \<and> (PrettyName a = PrettyName b \<longleftrightarrow> a = b)"
proof -
  obtain s where s: "PrettyName a = Some s" using PrettyName_plain [OF assms(1)] by blast
  have "a = b" if "PrettyName a = PrettyName b"
    using ParsePlain_PrettyName [OF assms(1) s] ParsePlain_PrettyName [OF assms(2)] s that by metis
  with s show ?thesis by auto
qed

theorem PrettyName_injective_witness:
  "PrettyName [\<lparr>nc_type = 8, nc_value = [97, 47, 98]\<rparr>] \<noteq> PrettyName [\<lparr>nc_type = 8, nc_value = [97]\<rparr>, \<lparr>nc_type = 8, nc_value = [98]\<rparr>]"
  using PrettyName_injective [of "[\<lparr>nc_type = 8, nc_value = [97, 47, 98]\<rparr>]"
      "[\<lparr>nc_type = 8, nc_value = [97]\<rparr>, \<lparr>nc_type = 8, nc_value = [98]\<rparr>]"]
  by (simp add: plain_name_def)

end
