(* ===== verification/KadNode.thy ===== *)
theory KadNode
  imports KadLookup NdnName
begin

text \<open>
  The Kademlia node: the querying service (\<open>ndn/kad/ping.go\<close>), the node (\<open>ndn/kad/node.go\<close>) and the
  NDN node records (\<open>ndn/kad/ndnpeer.go\<close>). The state is one record; each method is a function on it.
  Channels of capacity one are modelled by a flag; a send on a full channel blocks while the
  service's lock is held, so an operation that would block returns \<open>None\<close>. Jobs accepted by the pool
  and notifications to the upper layer are appended to lists. The reachable states are those of the
  step relation at the end; its invariant shows that no operation blocks, that no peer waits for a
  ping that is already under way, and that the node never pings itself.
\<close>

section \<open>Node records\<close>

record ndnNodeRecord =
  nr_id :: ID
  nr_prefix :: Name
  nr_pubkey :: bytes

record NdnNodeRecordInfo =
  ni_prefix :: bytes
  ni_pub :: bytes

text \<open>
  \<open>keccak\<close> and \<open>parse\<close> stand for the hash and for the name parser of the external packages. \<open>None\<close> is the
  panic of \<open>PrettyName\<close>.
\<close>

definition makeId :: "(bytes \<Rightarrow> bytes) \<Rightarrow> ndnNodeRecord \<Rightarrow> ndnNodeRecord option" where
  "makeId keccak r =
     map_option (\<lambda>s. r\<lparr>nr_id := MakeID keccak (nr_pubkey r) s\<rparr>) (PrettyName (nr_prefix r))"

definition NdnNodeRecordUnmarshaling ::
  "(bytes \<Rightarrow> bytes) \<Rightarrow> (bytes \<Rightarrow> Name) \<Rightarrow> NdnNodeRecordInfo \<Rightarrow> ndnNodeRecord option" where
  "NdnNodeRecordUnmarshaling keccak parse info =
     makeId keccak \<lparr>nr_id = zero_id, nr_prefix = parse (ni_prefix info),
       nr_pubkey = go_copy (replicate (length (ni_pub info)) 0) (ni_pub info)\<rparr>"

definition NdnNodeRecordMarshaling :: "ndnNodeRecord \<Rightarrow> NdnNodeRecordInfo option" where
  "NdnNodeRecordMarshaling r =
     map_option (\<lambda>s. \<lparr>ni_prefix = s, ni_pub = go_copy (replicate (length (nr_pubkey r)) 0) (nr_pubkey r)\<rparr>)
       (PrettyName (nr_prefix r))"

datatype record_error = InvalidName | HexError hex_error

definition NdnNodeRecordFromPrivateKey ::
  "(bytes \<Rightarrow> bytes) \<Rightarrow> Name \<Rightarrow> bytes \<Rightarrow> (ndnNodeRecord \<times> record_error option) option" where
  "NdnNodeRecordFromPrivateKey keccak hostname pub =
     (let rec = \<lparr>nr_id = zero_id, nr_prefix = hostname, nr_pubkey = pub\<rparr> in
      if hostname = [] then Some (rec, Some InvalidName)
      else map_option (\<lambda>r. (r, None)) (makeId keccak rec))"

definition CreateUntrustedNdnNodeRecord ::
  "(bytes \<Rightarrow> Name) \<Rightarrow> bytes \<Rightarrow> bytes \<Rightarrow> ndnNodeRecord \<times> record_error option" where
  "CreateUntrustedNdnNodeRecord parse i prefx =
     (case IdFromHexString i of
        (rid, Some e) \<Rightarrow> (\<lparr>nr_id = rid, nr_prefix = [], nr_pubkey = []\<rparr>, Some (HexError e))
      | (rid, None) \<Rightarrow>
          (let r = \<lparr>nr_id = rid, nr_prefix = parse prefx, nr_pubkey = []\<rparr> in
           if nr_prefix r = [] then (r, Some InvalidName) else (r, None)))"

definition untrusted :: "ndnNodeRecord \<Rightarrow> bool" where
  "untrusted r \<longleftrightarrow> nr_pubkey r = []"

definition UpdateNodeRecord ::
  "(bytes \<Rightarrow> bytes) \<Rightarrow> (bytes \<Rightarrow> Name) \<Rightarrow> NdnNodeRecordInfo \<Rightarrow> kadpeer \<Rightarrow> ndnNodeRecord peerstore \<Rightarrow>
   (ndnNodeRecord peerstore \<times> kad_error option) option" where
  "UpdateNodeRecord keccak parse info p st =
     (case NdnNodeRecordUnmarshaling keccak parse info of
        None \<Rightarrow> None
      | Some newrec \<Rightarrow>
          (let old = pd_record (st (kp_addr p)) in
           if nr_id newrec \<noteq> nr_id old then Some (st, Some ErrInvalidIdentity)
           else if untrusted old then Some (st(kp_addr p := (st (kp_addr p))\<lparr>pd_record := newrec\<rparr>), None)
           else Some (st, None)))"

section \<open>State\<close>

record deadpeer =
  dp_peer :: kadpeer
  dp_lost :: int

type_synonym deadpeerlist = "ID \<rightharpoonup> deadpeer"

record queryingservice =
  qs_id :: ID
  qs_waiting :: "ID \<rightharpoonup> kadpeer"
  qs_asking :: "ID \<rightharpoonup> kadpeer"
  qs_dead :: deadpeerlist
  qs_pingch :: bool
  qs_pingsig :: bool
  qs_pool :: bool
  qs_jobs :: "kadpeer list"

record 'r kadnode =
  kn_self :: kadpeer
  kn_rtable :: rtable
  kn_bootnodes :: "kadpeer list"
  kn_qs :: queryingservice
  kn_seenlist :: "'r list"
  kn_seench :: bool
  kn_seensig :: bool
  kn_dead :: bool
  kn_store :: "'r peerstore"
  kn_next :: nat
  kn_events :: "('r \<times> bool) list"

section \<open>Dead peers\<close>

definition deadlist_get :: "ID \<Rightarrow> deadpeerlist \<Rightarrow> kadpeer option" where
  "deadlist_get i l = map_option dp_peer (l i)"

definition deadlist_remove :: "ID \<Rightarrow> deadpeerlist \<Rightarrow> deadpeerlist" where
  "deadlist_remove i l = l(i := None)"

definition deadlist_add :: "int \<Rightarrow> kadpeer \<Rightarrow> deadpeerlist \<Rightarrow> deadpeerlist" where
  "deadlist_add now p l = l(kp_id p \<mapsto> \<lparr>dp_peer = p, dp_lost = now\<rparr>)"

definition deadlist_flush :: "int \<Rightarrow> deadpeerlist \<Rightarrow> deadpeerlist" where
  "deadlist_flush now l =
     (\<lambda>i. case l i of None \<Rightarrow> None | Some p \<Rightarrow> if now - dp_lost p > LOST_LONGEVITY then None else Some p)"

section \<open>The querying service\<close>

definition newqueryingservice :: "ID \<Rightarrow> queryingservice" where
  "newqueryingservice i =
     \<lparr>qs_id = i, qs_waiting = Map.empty, qs_asking = Map.empty, qs_dead = Map.empty,
      qs_pingch = False, qs_pingsig = False, qs_pool = True, qs_jobs = []\<rparr>"

text \<open>\<open>if !s.pingsig { s.pingsig = true; s.pingch <- struct{}{} }\<close>\<close>

definition ping_signal :: "queryingservice \<Rightarrow> queryingservice option" where
  "ping_signal s =
     (if \<not> qs_pingsig s
      then (if qs_pingch s then None else Some (s\<lparr>qs_pingsig := True, qs_pingch := True\<rparr>))
      else Some s)"

definition pingpeer :: "int \<Rightarrow> 'r peerstore \<Rightarrow> kadpeer \<Rightarrow> queryingservice \<Rightarrow> queryingservice option" where
  "pingpeer now st p s =
     (if recentlyseen now p st then Some s
      else if qs_id s = kp_id p then Some s
      else if qs_asking s (kp_id p) \<noteq> None then Some s
      else if qs_waiting s (kp_id p) \<noteq> None then Some s
      else ping_signal (s\<lparr>qs_waiting := (qs_waiting s)(kp_id p \<mapsto> p)\<rparr>))"

fun pingpeers_loop :: "int \<Rightarrow> 'r peerstore \<Rightarrow> kadpeer list \<Rightarrow> queryingservice \<Rightarrow> queryingservice" where
  "pingpeers_loop now st [] s = s"
| "pingpeers_loop now st (p # ps) s =
     pingpeers_loop now st ps
       (if kp_id p = qs_id s \<or> recentlyseen now p st \<or> qs_asking s (kp_id p) \<noteq> None \<or>
           qs_waiting s (kp_id p) \<noteq> None
        then s else s\<lparr>qs_waiting := (qs_waiting s)(kp_id p \<mapsto> p)\<rparr>)"

definition pingpeers :: "int \<Rightarrow> 'r peerstore \<Rightarrow> kadpeer list \<Rightarrow> queryingservice \<Rightarrow> queryingservice option" where
  "pingpeers now st ps s = ping_signal (pingpeers_loop now st ps s)"

definition qs_drop :: "kadpeer \<Rightarrow> queryingservice \<Rightarrow> queryingservice" where
  "qs_drop p s =
     s\<lparr>qs_dead := deadlist_remove (kp_id p) (qs_dead s),
       qs_waiting := (qs_waiting s)(kp_id p := None),
       qs_asking := (qs_asking s)(kp_id p := None)\<rparr>"

text \<open>
  The ping loop ranges over a map; \<open>order\<close> is the order in which the run-time system delivers its values.
  The key under which a peer is recorded is the identity of its current record.
\<close>

fun doping_loop :: "('r \<Rightarrow> ID) \<Rightarrow> int \<Rightarrow> 'r peerstore \<Rightarrow> kadpeer list \<Rightarrow> queryingservice \<Rightarrow> queryingservice" where
  "doping_loop identity now st [] s = s"
| "doping_loop identity now st (p # ps) s =
     doping_loop identity now st ps
       (if recentlyseen now p st then s
        else if qs_pool s
        then s\<lparr>qs_jobs := qs_jobs s @ [p],
               qs_asking := (qs_asking s)(identity (pd_record (st (kp_addr p))) \<mapsto> p)\<rparr>
        else s)"

definition dopingpeers :: "('r \<Rightarrow> ID) \<Rightarrow> int \<Rightarrow> 'r peerstore \<Rightarrow> kadpeer list \<Rightarrow> queryingservice \<Rightarrow> queryingservice" where
  "dopingpeers identity now st order s =
     (doping_loop identity now st order s)\<lparr>qs_waiting := Map.empty, qs_pingsig := False\<rparr>"

section \<open>The node\<close>

text \<open>The peer's record at the time of the call is what the notification carries.\<close>

definition notifypeerevent :: "kadpeer \<Rightarrow> bool \<Rightarrow> 'r kadnode \<Rightarrow> 'r kadnode" where
  "notifypeerevent p live n =
     n\<lparr>kn_events := kn_events n @ [(pd_record (kn_store n (kp_addr p)), live)]\<rparr>"

text \<open>\<open>rtable.seen\<close> with the ping callback of the node.\<close>

definition node_seen :: "int \<Rightarrow> kadpeer \<Rightarrow> 'r kadnode \<Rightarrow> ('r kadnode \<times> bool) option" where
  "node_seen now p n =
     (case rtable_seen (kn_rtable n) p of
        (rt, first, added) \<Rightarrow>
          (let n1 = n\<lparr>kn_rtable := rt\<rparr> in
           case first of
             None \<Rightarrow> Some (n1, added)
           | Some f \<Rightarrow> map_option (\<lambda>q. (n1\<lparr>kn_qs := q\<rparr>, added)) (pingpeer now (kn_store n) f (kn_qs n))))"

definition newkadnode :: "('r \<Rightarrow> ID) \<Rightarrow> 'r \<Rightarrow> 'r kadnode" where
  "newkadnode identity me =
     (let self = \<lparr>kp_addr = 0, kp_id = identity me\<rparr> in
      \<lparr>kn_self = self, kn_rtable = newrtable self, kn_bootnodes = [],
       kn_qs = newqueryingservice (identity me), kn_seenlist = [], kn_seench = False, kn_seensig = False,
       kn_dead = False, kn_store = (\<lambda>_. \<lparr>pd_record = me, pd_seen = 0\<rparr>), kn_next = 1, kn_events = []\<rparr>)"

definition seepeer :: "('r \<Rightarrow> ID) \<Rightarrow> int \<Rightarrow> 'r \<Rightarrow> 'r kadnode \<Rightarrow> 'r kadnode option" where
  "seepeer identity now rec n =
     (case rtable_get (kn_rtable n) (identity rec) False of
        None \<Rightarrow>
          (case PeerFromRecord identity (kn_next n) rec (kn_store n) of
             (p, st) \<Rightarrow>
               (case node_seen now p (n\<lparr>kn_store := st, kn_next := Suc (kn_next n)\<rparr>) of
                  None \<Rightarrow> None
                | Some (n1, added) \<Rightarrow>
                    (let n2 = (if added then notifypeerevent p True n1 else n1)
                     in Some (n2\<lparr>kn_store := setseen now p (kn_store n2)\<rparr>))))
      | Some p \<Rightarrow>
          (let st = kadpeer_update rec p (kn_store n);
               q = (kn_qs n)\<lparr>qs_dead := deadlist_remove (kp_id p) (qs_dead (kn_qs n))\<rparr>
           in Some (n\<lparr>kn_store := setseen now p st, kn_qs := q\<rparr>)))"

fun see_all :: "('r \<Rightarrow> ID) \<Rightarrow> (nat \<Rightarrow> int) \<Rightarrow> nat \<Rightarrow> 'r list \<Rightarrow> 'r kadnode \<Rightarrow> 'r kadnode option" where
  "see_all identity clock i [] n = Some n"
| "see_all identity clock i (rec # recs) n =
     (case seepeer identity (clock i) rec n of
        None \<Rightarrow> None
      | Some n' \<Rightarrow> see_all identity clock (Suc i) recs n')"

definition markseenpeers :: "('r \<Rightarrow> ID) \<Rightarrow> (nat \<Rightarrow> int) \<Rightarrow> 'r kadnode \<Rightarrow> 'r kadnode option" where
  "markseenpeers identity clock n =
     map_option (\<lambda>n'. n'\<lparr>kn_seenlist := [], kn_seensig := False\<rparr>) (see_all identity clock 0 (kn_seenlist n) n)"

definition AddSeenRecord :: "'r \<Rightarrow> 'r kadnode \<Rightarrow> 'r kadnode option" where
  "AddSeenRecord rec n =
     (if kn_dead n then Some n
      else
        (let n1 = n\<lparr>kn_seenlist := kn_seenlist n @ [rec]\<rparr> in
         if \<not> kn_seensig n1
         then (if kn_seench n1 then None else Some (n1\<lparr>kn_seensig := True, kn_seench := True\<rparr>))
         else Some n1))"

text \<open>
  \<open>start\<close> keeps the boot nodes other than the node itself; the peers are fresh objects. Several calls are
  possible; each replaces the list.
\<close>

fun make_boot :: "('r \<Rightarrow> ID) \<Rightarrow> ID \<Rightarrow> 'r list \<Rightarrow> nat \<Rightarrow> 'r peerstore \<Rightarrow> kadpeer list \<times> nat \<times> 'r peerstore" where
  "make_boot identity self [] a st = ([], a, st)"
| "make_boot identity self (rec # recs) a st =
     (if identity rec \<noteq> self
      then (case PeerFromRecord identity a rec st of
              (p, st1) \<Rightarrow> (case make_boot identity self recs (Suc a) st1 of
                            (ps, a', st') \<Rightarrow> (p # ps, a', st')))
      else make_boot identity self recs a st)"

definition node_start :: "('r \<Rightarrow> ID) \<Rightarrow> 'r list \<Rightarrow> 'r kadnode \<Rightarrow> 'r kadnode \<times> kad_error option" where
  "node_start identity boot n =
     (if kn_dead n then (n, Some ErrJobAborted)
      else if length boot > 0
      then (case make_boot identity (kp_id (kn_self n)) boot (kn_next n) (kn_store n) of
              (ps, a, st) \<Rightarrow> (n\<lparr>kn_bootnodes := ps, kn_next := a, kn_store := st\<rparr>, None))
      else (n, None))"

definition seedrtable :: "int \<Rightarrow> 'r kadnode \<Rightarrow> 'r kadnode option" where
  "seedrtable now n = map_option (\<lambda>q. n\<lparr>kn_qs := q\<rparr>) (pingpeers now (kn_store n) (kn_bootnodes n) (kn_qs n))"

definition node_stop :: "'r kadnode \<Rightarrow> 'r kadnode" where
  "node_stop n =
     (if kn_dead n then n else n\<lparr>kn_dead := True, kn_qs := (kn_qs n)\<lparr>qs_pool := False\<rparr>\<rparr>)"

definition peerstatechange :: "int \<Rightarrow> kadpeer \<Rightarrow> bool \<Rightarrow> 'r kadnode \<Rightarrow> 'r kadnode option" where
  "peerstatechange now p live n =
     (if live
      then map_option (\<lambda>(n1, added). if added then notifypeerevent p live n1 else n1) (node_seen now p n)
      else (case rtable_remove (kn_rtable n) (kp_id p) of
              (rt, removed, inbucket) \<Rightarrow>
                (let n1 = n\<lparr>kn_rtable := rt\<rparr>
                 in Some (if inbucket then notifypeerevent p live n1 else n1))))"

definition onreplied :: "int \<Rightarrow> kadpeer \<Rightarrow> kad_error option \<Rightarrow> 'r kadnode \<Rightarrow> 'r kadnode option" where
  "onreplied now p err n =
     (let q = (kn_qs n)\<lparr>qs_asking := (qs_asking (kn_qs n))(kp_id p := None)\<rparr> in
      if err = None
      then peerstatechange now p True
             (n\<lparr>kn_store := setseen now p (kn_store n),
                kn_qs := q\<lparr>qs_dead := deadlist_remove (kp_id p) (qs_dead q)\<rparr>\<rparr>)
      else peerstatechange now p False
             (n\<lparr>kn_qs := q\<lparr>qs_dead := deadlist_add now p (qs_dead q)\<rparr>\<rparr>))"

text \<open>The callback of a findnode job, without the inner callback, which belongs to the lookup.\<close>

definition findnode_callback :: "int \<Rightarrow> kadpeer \<Rightarrow> kadpeer list \<Rightarrow> kad_error option \<Rightarrow> 'r kadnode \<Rightarrow> 'r kadnode option" where
  "findnode_callback now p peers err n =
     (case onreplied now p err n of
        None \<Rightarrow> None
      | Some n1 \<Rightarrow>
          if err = None
          then map_option (\<lambda>q. n1\<lparr>kn_qs := q\<rparr>) (pingpeers now (kn_store n1) peers (kn_qs n1))
          else Some n1)"

definition droppeer :: "ID \<Rightarrow> 'r kadnode \<Rightarrow> 'r kadnode" where
  "droppeer i n =
     (case rtable_remove (kn_rtable n) i of
        (rt, None, _) \<Rightarrow> n\<lparr>kn_rtable := rt\<rparr>
      | (rt, Some p, _) \<Rightarrow> n\<lparr>kn_rtable := rt, kn_qs := qs_drop p (kn_qs n)\<rparr>)"

text \<open>The peers of an answer: those that are known are taken from the table, the others are created.\<close>

fun makepeers :: "('r \<Rightarrow> ID) \<Rightarrow> 'r list \<Rightarrow> 'r kadnode \<Rightarrow> kadpeer list \<times> 'r kadnode" where
  "makepeers identity [] n = ([], n)"
| "makepeers identity (rec # recs) n =
     (case rtable_get (kn_rtable n) (identity rec) False of
        Some p \<Rightarrow> (case makepeers identity recs n of (ps, n') \<Rightarrow> (p # ps, n'))
      | None \<Rightarrow>
          (case PeerFromRecord identity (kn_next n) rec (kn_store n) of
             (p, st) \<Rightarrow>
               (case makepeers identity recs (n\<lparr>kn_store := st, kn_next := Suc (kn_next n)\<rparr>) of
                  (ps, n') \<Rightarrow> (p # ps, n'))))"

text \<open>The ping attempts: the results of the calls are given in order; \<open>None\<close> is success.\<close>

definition NUM_PING_ATTEMPS :: nat where "NUM_PING_ATTEMPS = 2"
definition NUM_FINDNODE_ATTEMPS :: nat where "NUM_FINDNODE_ATTEMPS = 2"

function ping_attempts :: "(nat \<Rightarrow> kad_error option) \<Rightarrow> nat \<Rightarrow> kad_error option \<Rightarrow> kad_error option" where
  "ping_attempts rpc numtries err =
     (if numtries \<le> NUM_PING_ATTEMPS
      then (if rpc numtries = None then None else ping_attempts rpc (Suc numtries) (rpc numtries))
      else err)"
  by pat_completeness auto
termination by (relation "measure (\<lambda>(rpc, numtries, err). Suc NUM_PING_ATTEMPS - numtries)") auto

declare ping_attempts.simps [simp del]

definition node_ping :: "(nat \<Rightarrow> kad_error option) \<Rightarrow> kad_error option" where
  "node_ping rpc = ping_attempts rpc 1 None"

text \<open>Before each attempt the abort channel is polled.\<close>

function findnode_attempts :: "(nat \<Rightarrow> bool) \<Rightarrow> (nat \<Rightarrow> kad_error + 'r list) \<Rightarrow> nat \<Rightarrow> kad_error option \<Rightarrow> kad_error + 'r list" where
  "findnode_attempts aborted rpc numtries err =
     (if numtries \<le> NUM_FINDNODE_ATTEMPS
      then (if aborted numtries then Inl ErrJobAborted
            else (case rpc numtries of
                    Inr recs \<Rightarrow> Inr recs
                  | Inl e \<Rightarrow> findnode_attempts aborted rpc (Suc numtries) (Some e)))
      else (case err of None \<Rightarrow> Inr [] | Some e \<Rightarrow> Inl e))"
  by pat_completeness auto
termination by (relation "measure (\<lambda>(a, rpc, numtries, err). Suc NUM_FINDNODE_ATTEMPS - numtries)") auto

declare findnode_attempts.simps [simp del]

definition node_findnode ::
  "('r \<Rightarrow> ID) \<Rightarrow> (nat \<Rightarrow> bool) \<Rightarrow> (nat \<Rightarrow> kad_error + 'r list) \<Rightarrow> ID \<Rightarrow> nat \<Rightarrow> kadpeer \<Rightarrow> 'r kadnode \<Rightarrow>
   ((kad_error + kadpeer list) \<times> 'r kadnode) option" where
  "node_findnode identity aborted rpc target k p n =
     (if kp_id (kn_self n) = kp_id p
      then map_option (\<lambda>ps. (Inr ps, n)) (rtable_closest (kn_rtable n) target k)
      else (case findnode_attempts aborted rpc 1 None of
              Inl e \<Rightarrow> Some (Inl e, n)
            | Inr recs \<Rightarrow> (case makepeers identity recs n of (ps, n') \<Rightarrow> Some (Inr ps, n'))))"

text \<open>The back end of the Findnode call. A request for zero peers makes \<open>closest\<close> panic.\<close>

definition node_Find :: "bytes \<Rightarrow> u8 \<Rightarrow> 'r kadnode \<Rightarrow> 'r list option" where
  "node_Find target k n =
     (if kn_dead n then Some []
      else (case IdFromHexString target of
              (i, None) \<Rightarrow>
                map_option (map (\<lambda>p. pd_record (kn_store n (kp_addr p))))
                  (rtable_closest (kn_rtable n) i (unat k))
            | (_, Some _) \<Rightarrow> Some []))"

section \<open>References\<close>

text \<open>A valid reference: an allocated object whose record carries the identifier of the reference.\<close>

definition ref_ok :: "('r \<Rightarrow> ID) \<Rightarrow> 'r peerstore \<Rightarrow> nat \<Rightarrow> kadpeer \<Rightarrow> bool" where
  "ref_ok identity st nx p \<longleftrightarrow>
     kp_addr p < nx \<and> wf_id (kp_id p) \<and> identity (pd_record (st (kp_addr p))) = kp_id p"

text \<open>The store only grows: objects keep the identity of their record.\<close>

definition store_ext :: "('r \<Rightarrow> ID) \<Rightarrow> 'r peerstore \<Rightarrow> nat \<Rightarrow> 'r peerstore \<Rightarrow> nat \<Rightarrow> bool" where
  "store_ext identity st nx st' nx' \<longleftrightarrow>
     nx \<le> nx' \<and> (\<forall>a < nx. identity (pd_record (st' a)) = identity (pd_record (st a)))"

lemma store_ext_refl [simp]: "store_ext identity st nx st nx"
  by (simp add: store_ext_def)

lemma store_ext_trans:
  "store_ext identity st nx st1 nx1 \<Longrightarrow> store_ext identity st1 nx1 st2 nx2 \<Longrightarrow> store_ext identity st nx st2 nx2"
  by (simp add: store_ext_def)

lemma ref_ok_ext: "store_ext identity st nx st' nx' \<Longrightarrow> ref_ok identity st nx p \<Longrightarrow> ref_ok identity st' nx' p"
  by (simp add: store_ext_def ref_ok_def)

lemma store_ext_setseen [simp]: "store_ext identity st nx (setseen now p st) nx"
  by (simp add: store_ext_def setseen_def)

lemma store_ext_update:
  "ref_ok identity st nx p \<Longrightarrow> identity rec = kp_id p \<Longrightarrow> store_ext identity st nx (kadpeer_update rec p st) nx"
  by (simp add: store_ext_def kadpeer_update_def ref_ok_def)

lemma PeerFromRecord_ok:
  assumes "wf_id (identity rec)" "PeerFromRecord identity nx rec st = (p, st')"
  shows "ref_ok identity st' (Suc nx) p" "store_ext identity st nx st' (Suc nx)" "kp_id p = identity rec"
  using assms by (auto simp: PeerFromRecord_def ref_ok_def store_ext_def)

section \<open>The invariant of the querying service\<close>

definition qs_inv :: "(kadpeer \<Rightarrow> bool) \<Rightarrow> queryingservice \<Rightarrow> bool" where
  "qs_inv P s \<longleftrightarrow>
     (\<forall>i p. qs_waiting s i = Some p \<longrightarrow> kp_id p = i \<and> i \<noteq> qs_id s \<and> P p) \<and>
     (\<forall>i p. qs_asking s i = Some p \<longrightarrow> kp_id p = i \<and> i \<noteq> qs_id s \<and> P p) \<and>
     (\<forall>i. qs_waiting s i = None \<or> qs_asking s i = None) \<and>
     (\<forall>p \<in> set (qs_jobs s). kp_id p \<noteq> qs_id s \<and> P p) \<and>
     (qs_pingch s \<longrightarrow> qs_pingsig s)"

lemma qs_inv_mono: "qs_inv P s \<Longrightarrow> (\<And>p. P p \<Longrightarrow> Q p) \<Longrightarrow> qs_inv Q s"
  by (simp add: qs_inv_def)

lemma newqueryingservice_inv [kad_inv]: "qs_inv P (newqueryingservice i)"
  by (simp add: qs_inv_def newqueryingservice_def)

lemma ping_signal_ok [kad_inv]:
  "qs_inv P s \<Longrightarrow> \<exists>s'. ping_signal s = Some s' \<and> qs_inv P s' \<and> qs_id s' = qs_id s"
  by (auto simp: ping_signal_def qs_inv_def)

lemma qs_wait_inv:
  assumes "qs_inv P s" "P p" "kp_id p \<noteq> qs_id s" "qs_asking s (kp_id p) = None"
  shows "qs_inv P (s\<lparr>qs_waiting := (qs_waiting s)(kp_id p \<mapsto> p)\<rparr>)"
  using assms by (simp add: qs_inv_def)

lemma pingpeer_ok [kad_inv]:
  assumes "qs_inv P s" "P p"
  shows "\<exists>s'. pingpeer now st p s = Some s' \<and> qs_inv P s' \<and> qs_id s' = qs_id s"
proof (cases "recentlyseen now p st \<or> qs_id s = kp_id p \<or> qs_asking s (kp_id p) \<noteq> None \<or> qs_waiting s (kp_id p) \<noteq> None")
  case True
  then show ?thesis using assms(1) by (auto simp: pingpeer_def)
next
  case False
  then show ?thesis using ping_signal_ok [OF qs_wait_inv [OF assms]] by (auto simp: pingpeer_def)
qed

lemma pingpeers_loop_inv [kad_inv]:
  "qs_inv P s \<Longrightarrow> \<forall>p \<in> set ps. P p \<Longrightarrow>
   qs_inv P (pingpeers_loop now st ps s) \<and> qs_id (pingpeers_loop now st ps s) = qs_id s"
proof (induction ps arbitrary: s)
  case (Cons p ps)
  define s1 where "s1 = (if kp_id p = qs_id s \<or> recentlyseen now p st \<or> qs_asking s (kp_id p) \<noteq> None \<or>
           qs_waiting s (kp_id p) \<noteq> None
        then s else s\<lparr>qs_waiting := (qs_waiting s)(kp_id p \<mapsto> p)\<rparr>)"
  have eq: "pingpeers_loop now st (p # ps) s = pingpeers_loop now st ps s1"
    by (simp only: pingpeers_loop.simps s1_def)
  have p: "P p" using Cons.prems(2) by simp
  have s1: "qs_inv P s1 \<and> qs_id s1 = qs_id s"
  proof (cases "kp_id p = qs_id s \<or> recentlyseen now p st \<or> qs_asking s (kp_id p) \<noteq> None \<or>
           qs_waiting s (kp_id p) \<noteq> None")
    case True
    then show ?thesis unfolding s1_def if_P [OF True] using Cons.prems(1) by blast
  next
    case False
    then show ?thesis unfolding s1_def if_not_P [OF False] using qs_wait_inv [OF Cons.prems(1) p] by simp
  qed
  then show ?case unfolding eq using Cons.IH [of s1] Cons.prems(2) by simp
qed simp

lemma pingpeers_ok [kad_inv]:
  assumes "qs_inv P s" "\<forall>p \<in> set ps. P p"
  shows "\<exists>s'. pingpeers now st ps s = Some s' \<and> qs_inv P s' \<and> qs_id s' = qs_id s"
  using ping_signal_ok [of P "pingpeers_loop now st ps s"] pingpeers_loop_inv [OF assms, of now st]
  by (simp add: pingpeers_def)

lemma qs_drop_inv [kad_inv]: "qs_inv P s \<Longrightarrow> qs_inv P (qs_drop p s) \<and> qs_id (qs_drop p s) = qs_id s"
  by (simp add: qs_drop_def qs_inv_def)

text \<open>Starting the pings: every peer of the loop was waiting, so none is the node itself.\<close>

lemma qs_ask_inv:
  assumes "qs_inv P (s\<lparr>qs_waiting := Map.empty\<rparr>)" "P p" "kp_id p \<noteq> qs_id s"
  shows "qs_inv P (s\<lparr>qs_jobs := qs_jobs s @ [p], qs_asking := (qs_asking s)(kp_id p \<mapsto> p), qs_waiting := Map.empty\<rparr>)"
  using assms by (simp add: qs_inv_def ball_Un)

lemma doping_loop_inv:
  assumes "\<forall>p \<in> set order. P p \<and> kp_id p \<noteq> qs_id s \<and> identity (pd_record (st (kp_addr p))) = kp_id p"
    and "qs_inv P (s\<lparr>qs_waiting := Map.empty\<rparr>)"
  shows "qs_inv P ((doping_loop identity now st order s)\<lparr>qs_waiting := Map.empty\<rparr>) \<and>
    qs_id (doping_loop identity now st order s) = qs_id s \<and>
    qs_pingch (doping_loop identity now st order s) = qs_pingch s"
  using assms
proof (induction order arbitrary: s)
  case (Cons p order)
  define s1 where "s1 = (if recentlyseen now p st then s
        else if qs_pool s
        then s\<lparr>qs_jobs := qs_jobs s @ [p],
               qs_asking := (qs_asking s)(identity (pd_record (st (kp_addr p))) \<mapsto> p)\<rparr>
        else s)"
  have eq: "doping_loop identity now st (p # order) s = doping_loop identity now st order s1"
    by (simp only: doping_loop.simps s1_def)
  have p: "P p" "kp_id p \<noteq> qs_id s" "identity (pd_record (st (kp_addr p))) = kp_id p"
    using Cons.prems(1) by simp_all
  have s1: "qs_inv P (s1\<lparr>qs_waiting := Map.empty\<rparr>)" "qs_id s1 = qs_id s" "qs_pingch s1 = qs_pingch s"
    using qs_ask_inv [OF Cons.prems(2) p(1,2)] Cons.prems(2) unfolding s1_def p(3) by simp_all
  have "\<forall>q \<in> set order. P q \<and> kp_id q \<noteq> qs_id s1 \<and> identity (pd_record (st (kp_addr q))) = kp_id q"
    using Cons.prems(1) s1(2) by simp
  from Cons.IH [OF this s1(1)] show ?case unfolding eq using s1(2,3) by simp
qed simp

lemma qs_unsignal_inv:
  "qs_inv P (d\<lparr>qs_waiting := w\<rparr>) \<Longrightarrow> \<not> qs_pingch d \<Longrightarrow> qs_inv P (d\<lparr>qs_waiting := w, qs_pingsig := False\<rparr>)"
  by (simp add: qs_inv_def)

lemma dopingpeers_inv [kad_inv]:
  assumes inv: "qs_inv P s" and order: "set order = ran (qs_waiting s)" and pc: "\<not> qs_pingch s"
    and ident: "\<And>p. P p \<Longrightarrow> identity (pd_record (st (kp_addr p))) = kp_id p"
  shows "qs_inv P (dopingpeers identity now st order s) \<and> qs_id (dopingpeers identity now st order s) = qs_id s"
proof -
  have o: "\<forall>p \<in> set order. P p \<and> kp_id p \<noteq> qs_id s \<and> identity (pd_record (st (kp_addr p))) = kp_id p"
  proof
    fix p assume "p \<in> set order"
    then obtain i where "qs_waiting s i = Some p" using order by (auto simp: ran_def)
    then have "kp_id p = i \<and> i \<noteq> qs_id s \<and> P p" using inv by (simp add: qs_inv_def)
    then show "P p \<and> kp_id p \<noteq> qs_id s \<and> identity (pd_record (st (kp_addr p))) = kp_id p" using ident by simp
  qed
  have "qs_inv P (s\<lparr>qs_waiting := Map.empty\<rparr>)" using inv by (simp add: qs_inv_def)
  from doping_loop_inv [OF o this, of now] pc
  show ?thesis using qs_unsignal_inv by (simp add: dopingpeers_def)
qed

section \<open>The invariant of the node\<close>

definition kn_inv :: "('r \<Rightarrow> ID) \<Rightarrow> 'r kadnode \<Rightarrow> bool" where
  "kn_inv identity n \<longleftrightarrow>
     (let ok = ref_ok identity (kn_store n) (kn_next n) in
      rtable_inv (kn_rtable n) \<and> r_self (kn_rtable n) = kn_self n \<and> ok (kn_self n) \<and>
      qs_id (kn_qs n) = kp_id (kn_self n) \<and> qs_inv ok (kn_qs n) \<and>
      (\<forall>p \<in> r_all (kn_rtable n). ok p) \<and> (\<forall>p \<in> set (kn_bootnodes n). ok p) \<and>
      (\<forall>rec \<in> set (kn_seenlist n). wf_id (identity rec)) \<and> (kn_seench n \<longrightarrow> kn_seensig n))"

abbreviation kn_ok :: "('r \<Rightarrow> ID) \<Rightarrow> 'r kadnode \<Rightarrow> kadpeer \<Rightarrow> bool" where
  "kn_ok identity n \<equiv> ref_ok identity (kn_store n) (kn_next n)"

lemma kn_invD:
  assumes "kn_inv identity n"
  shows "rtable_inv (kn_rtable n)" "qs_inv (kn_ok identity n) (kn_qs n)" "qs_id (kn_qs n) = kp_id (kn_self n)"
    "p \<in> r_all (kn_rtable n) \<Longrightarrow> kn_ok identity n p" "p \<in> set (kn_bootnodes n) \<Longrightarrow> kn_ok identity n p"
    "rec \<in> set (kn_seenlist n) \<Longrightarrow> wf_id (identity rec)" "kn_seench n \<Longrightarrow> kn_seensig n"
    "r_self (kn_rtable n) = kn_self n" "kn_ok identity n (kn_self n)"
  using assms by (simp_all add: kn_inv_def Let_def)

text \<open>Growing the store, and changing the parts one at a time.\<close>

lemma kn_inv_store:
  assumes inv: "kn_inv identity n" and ext: "store_ext identity (kn_store n) (kn_next n) st nx"
  shows "kn_inv identity (n\<lparr>kn_store := st, kn_next := nx\<rparr>)"
proof -
  note ok = ref_ok_ext [OF ext]
  have "qs_inv (ref_ok identity st nx) (kn_qs n)" by (rule qs_inv_mono [OF kn_invD(2) [OF inv] ok])
  then show ?thesis using inv ok by (simp add: kn_inv_def Let_def)
qed

lemma kn_inv_store_only:
  assumes "kn_inv identity n" "store_ext identity (kn_store n) (kn_next n) st (kn_next n)"
  shows "kn_inv identity (n\<lparr>kn_store := st\<rparr>)"
  using kn_inv_store [OF assms] by simp

lemma kn_inv_qs:
  "kn_inv identity n \<Longrightarrow> qs_inv (kn_ok identity n) q \<Longrightarrow> qs_id q = qs_id (kn_qs n) \<Longrightarrow> kn_inv identity (n\<lparr>kn_qs := q\<rparr>)"
  by (simp add: kn_inv_def Let_def)

lemma kn_inv_rtable:
  "kn_inv identity n \<Longrightarrow> rtable_inv rt \<Longrightarrow> r_self rt = r_self (kn_rtable n) \<Longrightarrow> \<forall>p \<in> r_all rt. kn_ok identity n p \<Longrightarrow>
   kn_inv identity (n\<lparr>kn_rtable := rt\<rparr>)"
  by (simp add: kn_inv_def Let_def)

lemma kn_inv_notify [kad_inv]: "kn_inv identity (notifypeerevent p live n) = kn_inv identity n"
  by (simp add: notifypeerevent_def kn_inv_def Let_def)

lemma qs_inv_dead [simp]: "qs_inv P (s\<lparr>qs_dead := d\<rparr>) = qs_inv P s"
  by (simp add: qs_inv_def)

lemma qs_inv_pool [simp]: "qs_inv P (s\<lparr>qs_pool := b\<rparr>) = qs_inv P s"
  by (simp add: qs_inv_def)

lemma qs_inv_asked: "qs_inv P s \<Longrightarrow> qs_inv P (s\<lparr>qs_asking := (qs_asking s)(i := None)\<rparr>)"
  by (simp add: qs_inv_def)

section \<open>The operations keep the invariant and do not block\<close>

text \<open>\<open>n'\<close> has the objects of \<open>n\<close>, with the same identities.\<close>

abbreviation node_ext :: "('r \<Rightarrow> ID) \<Rightarrow> 'r kadnode \<Rightarrow> 'r kadnode \<Rightarrow> bool" where
  "node_ext identity n n' \<equiv> store_ext identity (kn_store n) (kn_next n) (kn_store n') (kn_next n')"

lemma node_seen_ok [kad_inv]:
  assumes inv: "kn_inv identity n" and p: "kn_ok identity n p"
  shows "\<exists>n' added. node_seen now p n = Some (n', added) \<and> kn_inv identity n' \<and>
    kn_store n' = kn_store n \<and> kn_next n' = kn_next n \<and> kn_seench n' = kn_seench n"
proof -
  obtain rt first added where s: "rtable_seen (kn_rtable n) p = (rt, first, added)"
    by (rule prod_cases3)
  have wf: "wf_id (kp_id p)" using p by (simp add: ref_ok_def)
  note rt = rtable_seen_inv [OF kn_invD(1) [OF inv] wf s] and all = rtable_seen_all [OF kn_invD(1) [OF inv] wf s]
  have "\<forall>q \<in> r_all rt. kn_ok identity n q" using all(1) kn_invD(4) [OF inv] p by blast
  then have n1: "kn_inv identity (n\<lparr>kn_rtable := rt\<rparr>)" using rt by (intro kn_inv_rtable [OF inv]) simp_all
  show ?thesis
  proof (cases first)
    case None
    then show ?thesis using s n1 by (simp add: node_seen_def)
  next
    case (Some f)
    then have "kn_ok identity n f" using all(2) kn_invD(4) [OF inv] by blast
    then obtain q where q: "pingpeer now (kn_store n) f (kn_qs n) = Some q" "qs_inv (kn_ok identity n) q"
      "qs_id q = qs_id (kn_qs n)" using pingpeer_ok [OF kn_invD(2) [OF inv]] by blast
    then have "kn_inv identity (n\<lparr>kn_rtable := rt, kn_qs := q\<rparr>)" using kn_inv_qs [OF n1, of q] by simp
    then show ?thesis using s Some q(1) by (simp add: node_seen_def)
  qed
qed

lemma seepeer_ok [kad_inv]:
  assumes inv: "kn_inv identity n" and wf: "wf_id (identity rec)"
  shows "\<exists>n'. seepeer identity now rec n = Some n' \<and> kn_inv identity n' \<and> kn_seench n' = kn_seench n"
proof (cases "rtable_get (kn_rtable n) (identity rec) False")
  case None
  obtain p st where pr: "PeerFromRecord identity (kn_next n) rec (kn_store n) = (p, st)" by fastforce
  note new = PeerFromRecord_ok [OF wf pr]
  have n1: "kn_inv identity (n\<lparr>kn_store := st, kn_next := Suc (kn_next n)\<rparr>)" (is "kn_inv _ ?n1")
    by (rule kn_inv_store [OF inv new(2)])
  have "kn_ok identity ?n1 p" using new(1) by simp
  then obtain n2 added where n2: "node_seen now p ?n1 = Some (n2, added)" "kn_inv identity n2"
    "kn_seench n2 = kn_seench ?n1" using node_seen_ok [OF n1] by blast
  define n3 where "n3 = (if added then notifypeerevent p True n2 else n2)"
  have "kn_inv identity n3" "kn_seench n3 = kn_seench n"
    using n2(2,3) by (simp_all add: n3_def kn_inv_notify) (simp add: notifypeerevent_def)
  moreover have "kn_inv identity (n3\<lparr>kn_store := setseen now p (kn_store n3)\<rparr>)"
    by (rule kn_inv_store_only [OF calculation(1)]) simp
  ultimately show ?thesis using None pr n2(1) by (simp add: seepeer_def Let_def n3_def)
next
  case (Some p)
  note g = rtable_get_all [OF kn_invD(1) [OF inv] wf Some]
  then have p: "kn_ok identity n p" using kn_invD(4) [OF inv] by blast
  let ?st = "kadpeer_update rec p (kn_store n)"
  have "store_ext identity (kn_store n) (kn_next n) (setseen now p ?st) (kn_next n)"
    using store_ext_trans [OF store_ext_update [OF p] store_ext_setseen] g by simp
  then have "kn_inv identity (n\<lparr>kn_store := setseen now p ?st\<rparr>)" by (rule kn_inv_store_only [OF inv])
  then have "kn_inv identity (n\<lparr>kn_store := setseen now p ?st,
      kn_qs := (kn_qs n)\<lparr>qs_dead := deadlist_remove (kp_id p) (qs_dead (kn_qs n))\<rparr>\<rparr>)"
    using kn_invD(2) [of identity "n\<lparr>kn_store := setseen now p ?st\<rparr>"] by (intro kn_inv_qs) simp_all
  then show ?thesis using Some by (simp add: seepeer_def Let_def)
qed

lemma see_all_ok [kad_inv]:
  "kn_inv identity n \<Longrightarrow> \<forall>rec \<in> set recs. wf_id (identity rec) \<Longrightarrow>
   \<exists>n'. see_all identity clock i recs n = Some n' \<and> kn_inv identity n' \<and> kn_seench n' = kn_seench n"
proof (induction recs arbitrary: n i)
  case (Cons rec recs)
  obtain n' where n': "seepeer identity (clock i) rec n = Some n'" "kn_inv identity n'" "kn_seench n' = kn_seench n"
    using seepeer_ok [OF Cons.prems(1), of rec "clock i"] Cons.prems(2) by auto
  then show ?case using Cons.IH [OF n'(2)] Cons.prems(2) by auto
qed simp

lemma markseenpeers_ok [kad_inv]:
  assumes "kn_inv identity n" "\<not> kn_seench n"
  shows "\<exists>n'. markseenpeers identity clock n = Some n' \<and> kn_inv identity n'"
proof -
  obtain n' where "see_all identity clock 0 (kn_seenlist n) n = Some n'" "kn_inv identity n'" "\<not> kn_seench n'"
    using see_all_ok [OF assms(1), of "kn_seenlist n" clock 0] kn_invD(6) [OF assms(1)] assms(2) by auto
  then show ?thesis by (simp add: markseenpeers_def kn_inv_def Let_def)
qed

lemma AddSeenRecord_ok [kad_inv]:
  assumes "kn_inv identity n" "wf_id (identity rec)"
  shows "\<exists>n'. AddSeenRecord rec n = Some n' \<and> kn_inv identity n'"
  using assms by (auto simp: AddSeenRecord_def kn_inv_def Let_def)

lemma peerstatechange_ok [kad_inv]:
  assumes inv: "kn_inv identity n" and p: "kn_ok identity n p"
  shows "\<exists>n'. peerstatechange now p live n = Some n' \<and> kn_inv identity n' \<and>
    kn_store n' = kn_store n \<and> kn_next n' = kn_next n"
proof (cases live)
  case True
  obtain n1 added where "node_seen now p n = Some (n1, added)" "kn_inv identity n1"
    "kn_store n1 = kn_store n" "kn_next n1 = kn_next n"
    using node_seen_ok [OF inv p] by blast
  then show ?thesis using True by (cases added) (simp_all add: peerstatechange_def kn_inv_notify, simp_all add: notifypeerevent_def)
next
  case False
  obtain rt removed inb where s: "rtable_remove (kn_rtable n) (kp_id p) = (rt, removed, inb)"
    by (rule prod_cases3)
  have wf: "wf_id (kp_id p)" using p by (simp add: ref_ok_def)
  note rt = rtable_remove_inv [OF kn_invD(1) [OF inv] wf s] and all = rtable_remove_all [OF kn_invD(1) [OF inv] wf s]
  have "\<forall>q \<in> r_all rt. kn_ok identity n q" using all(1) kn_invD(4) [OF inv] by blast
  then have "kn_inv identity (n\<lparr>kn_rtable := rt\<rparr>)" using rt by (intro kn_inv_rtable [OF inv]) simp_all
  then show ?thesis using s False
    by (cases inb) (simp_all add: peerstatechange_def kn_inv_notify Let_def, simp_all add: notifypeerevent_def)
qed

lemma onreplied_ok [kad_inv]:
  assumes inv: "kn_inv identity n" and p: "kn_ok identity n p"
  shows "\<exists>n'. onreplied now p err n = Some n' \<and> kn_inv identity n' \<and> node_ext identity n n'"
proof -
  define q where "q = (kn_qs n)\<lparr>qs_asking := (qs_asking (kn_qs n))(kp_id p := None)\<rparr>"
  have q: "qs_inv (kn_ok identity n) q" "qs_id q = qs_id (kn_qs n)"
    using qs_inv_asked [OF kn_invD(2) [OF inv]] by (simp_all add: q_def)
  show ?thesis
  proof (cases "err = None")
    case True
    let ?n = "n\<lparr>kn_store := setseen now p (kn_store n)\<rparr>"
    let ?n1 = "?n\<lparr>kn_qs := q\<lparr>qs_dead := deadlist_remove (kp_id p) (qs_dead q)\<rparr>\<rparr>"
    have ext: "store_ext identity (kn_store n) (kn_next n) (setseen now p (kn_store n)) (kn_next n)" by simp
    have "kn_inv identity ?n" by (rule kn_inv_store_only [OF inv ext])
    moreover have "qs_inv (kn_ok identity ?n) q" using qs_inv_mono [OF q(1) ref_ok_ext [OF ext]] by simp
    ultimately have n1: "kn_inv identity ?n1" by (intro kn_inv_qs) (simp_all add: q(2))
    have p1: "kn_ok identity ?n1 p" using ref_ok_ext [OF ext p] by simp
    obtain n' where "peerstatechange now p True ?n1 = Some n'" "kn_inv identity n'"
      "kn_store n' = kn_store ?n1" "kn_next n' = kn_next ?n1"
      using peerstatechange_ok [OF n1 p1] by blast
    then show ?thesis using True by (simp add: onreplied_def flip: q_def)
  next
    case False
    let ?n1 = "n\<lparr>kn_qs := q\<lparr>qs_dead := deadlist_add now p (qs_dead q)\<rparr>\<rparr>"
    have n1: "kn_inv identity ?n1" by (rule kn_inv_qs [OF inv]) (simp_all add: q)
    have p1: "kn_ok identity ?n1 p" using p by simp
    obtain n' where "peerstatechange now p False ?n1 = Some n'" "kn_inv identity n'"
      "kn_store n' = kn_store ?n1" "kn_next n' = kn_next ?n1"
      using peerstatechange_ok [OF n1 p1] by blast
    then show ?thesis using False by (auto simp: onreplied_def simp flip: q_def)
  qed
qed

lemma findnode_callback_ok [kad_inv]:
  assumes inv: "kn_inv identity n" and p: "kn_ok identity n p" and ps: "\<forall>q \<in> set peers. kn_ok identity n q"
  shows "\<exists>n'. findnode_callback now p peers err n = Some n' \<and> kn_inv identity n'"
proof -
  obtain n1 where n1: "onreplied now p err n = Some n1" "kn_inv identity n1" "node_ext identity n n1"
    using onreplied_ok [OF inv p] by blast
  have "\<forall>q \<in> set peers. kn_ok identity n1 q" using ps ref_ok_ext [OF n1(3)] by blast
  then obtain q where "pingpeers now (kn_store n1) peers (kn_qs n1) = Some q" "qs_inv (kn_ok identity n1) q"
    "qs_id q = qs_id (kn_qs n1)" using pingpeers_ok [OF kn_invD(2) [OF n1(2)]] by blast
  then show ?thesis using n1(1,2) kn_inv_qs [OF n1(2), of q] by (simp add: findnode_callback_def)
qed

lemma makepeers_ok [kad_inv]:
  assumes "kn_inv identity n" "\<forall>rec \<in> set recs. wf_id (identity rec)" "makepeers identity recs n = (ps, n')"
  shows "kn_inv identity n' \<and> node_ext identity n n' \<and> (\<forall>p \<in> set ps. kn_ok identity n' p) \<and>
    map kp_id ps = map identity recs"
  using assms
proof (induction recs arbitrary: n ps)
  case (Cons rec recs)
  have wf: "wf_id (identity rec)" using Cons.prems(2) by simp
  show ?case
  proof (cases "rtable_get (kn_rtable n) (identity rec) False")
    case None
    obtain p st where pr: "PeerFromRecord identity (kn_next n) rec (kn_store n) = (p, st)" by fastforce
    note new = PeerFromRecord_ok [OF wf pr]
    let ?n1 = "n\<lparr>kn_store := st, kn_next := Suc (kn_next n)\<rparr>"
    have n1: "kn_inv identity ?n1" by (rule kn_inv_store [OF Cons.prems(1) new(2)])
    obtain qs where q: "makepeers identity recs ?n1 = (qs, n')" "ps = p # qs"
      using Cons.prems(3) None pr by (auto split: prod.splits)
    have IH: "kn_inv identity n'" "node_ext identity ?n1 n'" "\<forall>p \<in> set qs. kn_ok identity n' p"
      "map kp_id qs = map identity recs"
      using Cons.IH [OF n1 _ q(1)] Cons.prems(2) by simp_all
    have "kn_ok identity n' p" using ref_ok_ext [OF IH(2)] new(1) by simp
    moreover have "node_ext identity n n'" using store_ext_trans [OF new(2)] IH(2) by simp
    ultimately show ?thesis using IH q(2) new(3) by simp
  next
    case (Some p)
    note g = rtable_get_all [OF kn_invD(1) [OF Cons.prems(1)] wf Some]
    obtain qs where q: "makepeers identity recs n = (qs, n')" "ps = p # qs"
      using Cons.prems(3) Some by (auto split: prod.splits)
    have IH: "kn_inv identity n'" "node_ext identity n n'" "\<forall>p \<in> set qs. kn_ok identity n' p"
      "map kp_id qs = map identity recs"
      using Cons.IH [OF Cons.prems(1) _ q(1)] Cons.prems(2) by simp_all
    have "kn_ok identity n' p" using ref_ok_ext [OF IH(2)] kn_invD(4) [OF Cons.prems(1)] g by blast
    then show ?thesis using IH q(2) g by simp
  qed
qed simp

lemma droppeer_ok [kad_inv]:
  assumes inv: "kn_inv identity n" and wf: "wf_id i"
  shows "kn_inv identity (droppeer i n)"
proof -
  obtain rt removed inb where s: "rtable_remove (kn_rtable n) i = (rt, removed, inb)" by (rule prod_cases3)
  note rt = rtable_remove_inv [OF kn_invD(1) [OF inv] wf s] and all = rtable_remove_all [OF kn_invD(1) [OF inv] wf s]
  have "\<forall>q \<in> r_all rt. kn_ok identity n q" using all(1) kn_invD(4) [OF inv] by blast
  then have n1: "kn_inv identity (n\<lparr>kn_rtable := rt\<rparr>)" using rt by (intro kn_inv_rtable [OF inv]) simp_all
  show ?thesis
  proof (cases removed)
    case None
    then show ?thesis using s n1 by (simp add: droppeer_def)
  next
    case (Some p)
    have "kn_inv identity (n\<lparr>kn_rtable := rt, kn_qs := qs_drop p (kn_qs n)\<rparr>)"
      using kn_inv_qs [OF n1, of "qs_drop p (kn_qs n)"] qs_drop_inv [OF kn_invD(2) [OF inv]] by simp
    then show ?thesis using s Some by (simp add: droppeer_def)
  qed
qed

lemma make_boot_ok:
  assumes "make_boot identity self recs a st = (ps, a', st')" "\<forall>rec \<in> set recs. wf_id (identity rec)"
  shows "store_ext identity st a st' a' \<and> (\<forall>p \<in> set ps. ref_ok identity st' a' p \<and> kp_id p \<noteq> self)"
  using assms
proof (induction recs arbitrary: a st ps)
  case (Cons rec recs)
  show ?case
  proof (cases "identity rec = self")
    case True
    then show ?thesis using Cons by simp
  next
    case False
    obtain p st1 where pr: "PeerFromRecord identity a rec st = (p, st1)" by fastforce
    have wf: "wf_id (identity rec)" using Cons.prems(2) by simp
    note new = PeerFromRecord_ok [OF wf pr]
    obtain qs where q: "make_boot identity self recs (Suc a) st1 = (qs, a', st')" "ps = p # qs"
      using Cons.prems(1) False pr by (auto split: prod.splits)
    have IH: "store_ext identity st1 (Suc a) st' a'" "\<forall>p \<in> set qs. ref_ok identity st' a' p \<and> kp_id p \<noteq> self"
      using Cons.IH [OF q(1)] Cons.prems(2) by simp_all
    show ?thesis using store_ext_trans [OF new(2) IH(1)] IH(2) ref_ok_ext [OF IH(1) new(1)] q(2) new(3) False by simp
  qed
qed simp

lemma node_start_ok [kad_inv]:
  assumes inv: "kn_inv identity n" and wf: "\<forall>rec \<in> set boot. wf_id (identity rec)"
  shows "kn_inv identity (fst (node_start identity boot n))"
proof (cases "kn_dead n \<or> boot = []")
  case True
  then show ?thesis using inv by (auto simp: node_start_def)
next
  case False
  obtain ps a st where b: "make_boot identity (kp_id (kn_self n)) boot (kn_next n) (kn_store n) = (ps, a, st)"
    by (rule prod_cases3)
  note mb = make_boot_ok [OF b wf]
  have "kn_inv identity (n\<lparr>kn_store := st, kn_next := a\<rparr>)" using mb by (intro kn_inv_store [OF inv]) simp
  then have "kn_inv identity (n\<lparr>kn_bootnodes := ps, kn_next := a, kn_store := st\<rparr>)"
    using mb by (simp add: kn_inv_def Let_def)
  then show ?thesis using False b by (simp add: node_start_def)
qed

lemma seedrtable_ok [kad_inv]:
  assumes inv: "kn_inv identity n"
  shows "\<exists>n'. seedrtable now n = Some n' \<and> kn_inv identity n'"
proof -
  obtain q where "pingpeers now (kn_store n) (kn_bootnodes n) (kn_qs n) = Some q" "qs_inv (kn_ok identity n) q"
    "qs_id q = qs_id (kn_qs n)" using pingpeers_ok [OF kn_invD(2) [OF inv]] kn_invD(5) [OF inv] by blast
  then show ?thesis using kn_inv_qs [OF inv, of q] by (simp add: seedrtable_def)
qed

lemma node_stop_ok [kad_inv]: "kn_inv identity n \<Longrightarrow> kn_inv identity (node_stop n)"
  by (simp add: node_stop_def kn_inv_def Let_def)

lemma newkadnode_ok [kad_inv]:
  assumes "wf_id (identity me)"
  shows "kn_inv identity (newkadnode identity me)"
proof -
  let ?self = "\<lparr>kp_addr = 0, kp_id = identity me\<rparr>"
  let ?r = "\<lparr>r_self = ?self, r_buckets = replicate NUMBUCKETS \<lparr>b_peers = [], b_replacements = []\<rparr>\<rparr>"
  have wf: "wf_id (kp_id ?self)" using assms by simp
  have r: "rtable_inv ?r" using wf by (simp add: rtable_inv_def bucket_inv_def)
  have "r_all ?r = {}" by (simp add: r_all_def)
  then have "r_all (newrtable ?self) \<subseteq> {?self}"
    using rtable_seen_all(1) [OF r wf] unfolding newrtable_def by (metis prod.collapse)
  moreover have self: "ref_ok identity (\<lambda>_. \<lparr>pd_record = me, pd_seen = 0\<rparr>) 1 ?self"
    using assms by (simp add: ref_ok_def)
  ultimately have "\<forall>p \<in> r_all (newrtable ?self). ref_ok identity (\<lambda>_. \<lparr>pd_record = me, pd_seen = 0\<rparr>) 1 p"
    by blast
  moreover have "qs_id (newqueryingservice (identity me)) = identity me" by (simp add: newqueryingservice_def)
  ultimately show ?thesis
    using newrtable_inv [OF wf] self newqueryingservice_inv by (simp add: newkadnode_def kn_inv_def Let_def)
qed

section \<open>Reachable states\<close>

text \<open>
  The steps of the node: the main loop, the loop of the querying service, the jobs of the pool, the RPC
  server and the upper layer each run one method. A step is one method under its locks. The
  identities of received records have the fixed length of the type.
\<close>

inductive kad_step :: "('r \<Rightarrow> ID) \<Rightarrow> 'r kadnode \<Rightarrow> 'r kadnode \<Rightarrow> bool" for identity where
  step_seen_record: "wf_id (identity rec) \<Longrightarrow> AddSeenRecord rec n = Some n' \<Longrightarrow> kad_step identity n n'"
| step_mark_seen: "kn_seench n \<Longrightarrow> markseenpeers identity clock (n\<lparr>kn_seench := False\<rparr>) = Some n' \<Longrightarrow>
    kad_step identity n n'"
| step_do_ping: "qs_pingch (kn_qs n) \<Longrightarrow> set order = ran (qs_waiting (kn_qs n)) \<Longrightarrow> distinct order \<Longrightarrow>
    kad_step identity n
      (n\<lparr>kn_qs := dopingpeers identity now (kn_store n) order ((kn_qs n)\<lparr>qs_pingch := False\<rparr>)\<rparr>)"
| step_ping_reply: "p \<in> set (qs_jobs (kn_qs n)) \<Longrightarrow> onreplied now p err n = Some n' \<Longrightarrow> kad_step identity n n'"
| step_find_reply: "p \<in> r_all (kn_rtable n) \<Longrightarrow> \<forall>rec \<in> set recs. wf_id (identity rec) \<Longrightarrow>
    makepeers identity recs n = (ps, n1) \<Longrightarrow> findnode_callback now p ps None n1 = Some n' \<Longrightarrow>
    kad_step identity n n'"
| step_find_self: "0 < k \<Longrightarrow> wf_id target \<Longrightarrow> rtable_closest (kn_rtable n) target k = Some ps \<Longrightarrow>
    findnode_callback now (kn_self n) ps None n = Some n' \<Longrightarrow> kad_step identity n n'"
| step_find_error: "p \<in> r_all (kn_rtable n) \<Longrightarrow> findnode_callback now p [] (Some e) n = Some n' \<Longrightarrow>
    kad_step identity n n'"
| step_drop: "wf_id i \<Longrightarrow> kad_step identity n (droppeer i n)"
| step_flush: "kad_step identity n (n\<lparr>kn_qs := (kn_qs n)\<lparr>qs_dead := deadlist_flush now (qs_dead (kn_qs n))\<rparr>\<rparr>)"
| step_seed: "seedrtable now n = Some n' \<Longrightarrow> kad_step identity n n'"
| step_start: "\<forall>rec \<in> set boot. wf_id (identity rec) \<Longrightarrow> kad_step identity n (fst (node_start identity boot n))"
| step_stop: "kad_step identity n (node_stop n)"

inductive kad_reach :: "('r \<Rightarrow> ID) \<Rightarrow> 'r \<Rightarrow> 'r kadnode \<Rightarrow> bool" for identity me where
  reach_init: "kad_reach identity me (newkadnode identity me)"
| reach_step: "kad_reach identity me n \<Longrightarrow> kad_step identity n n' \<Longrightarrow> kad_reach identity me n'"

lemma kad_step_inv:
  assumes "kad_step identity n n'" "kn_inv identity n"
  shows "kn_inv identity n'"
  using assms
proof (cases rule: kad_step.cases)
  case (step_seen_record rec)
  then show ?thesis using AddSeenRecord_ok [OF assms(2)] by fastforce
next
  case (step_mark_seen clock)
  have "kn_inv identity (n\<lparr>kn_seench := False\<rparr>)" using assms(2) by (simp add: kn_inv_def Let_def)
  then show ?thesis using markseenpeers_ok [of identity "n\<lparr>kn_seench := False\<rparr>" clock] step_mark_seen by simp
next
  case (step_do_ping order now)
  let ?q = "(kn_qs n)\<lparr>qs_pingch := False\<rparr>"
  have q: "qs_inv (kn_ok identity n) ?q" using kn_invD(2) [OF assms(2)] by (simp add: qs_inv_def)
  have "qs_inv (kn_ok identity n) (dopingpeers identity now (kn_store n) order ?q) \<and>
      qs_id (dopingpeers identity now (kn_store n) order ?q) = qs_id ?q"
    by (rule dopingpeers_inv [OF q]) (use step_do_ping in \<open>simp_all add: ref_ok_def\<close>)
  then show ?thesis using step_do_ping(1) kn_inv_qs [OF assms(2)] by simp
next
  case (step_ping_reply p now err)
  have "kn_ok identity n p" using kn_invD(2) [OF assms(2)] step_ping_reply(1) by (simp add: qs_inv_def)
  then show ?thesis using onreplied_ok [OF assms(2), of p now err] step_ping_reply(2) by auto
next
  case (step_find_reply p recs ps n1 now)
  note mp = makepeers_ok [OF assms(2) step_find_reply(2,3)]
  have "kn_ok identity n1 p" using mp ref_ok_ext kn_invD(4) [OF assms(2) step_find_reply(1)] by blast
  then show ?thesis using findnode_callback_ok [of identity n1 p ps now None] mp step_find_reply(4) by auto
next
  case (step_find_self k target ps now)
  have "set ps \<subseteq> set (r_peers (kn_rtable n))"
    using rt.closest_props(3) [OF kn_invD(1) [OF assms(2)] step_find_self(2,1,3)] .
  then have "\<forall>q \<in> set ps. q \<in> r_all (kn_rtable n)" by (auto simp: r_peers_def r_all_def)
  then have "\<forall>q \<in> set ps. kn_ok identity n q" using kn_invD(4) [OF assms(2)] by blast
  then show ?thesis
    using findnode_callback_ok [OF assms(2) kn_invD(9) [OF assms(2)], of ps now None] step_find_self(4) by auto
next
  case (step_find_error p now e)
  then show ?thesis
    using findnode_callback_ok [OF assms(2) kn_invD(4) [OF assms(2) step_find_error(1)], of "[]" now "Some e"] by auto
next
  case (step_drop i)
  then show ?thesis using droppeer_ok [OF assms(2)] by simp
next
  case (step_flush now)
  then show ?thesis using kn_inv_qs [OF assms(2)] kn_invD(2) [OF assms(2)] by simp
next
  case (step_seed now)
  then show ?thesis using seedrtable_ok [OF assms(2), of now] by auto
next
  case (step_start boot)
  then show ?thesis using node_start_ok [OF assms(2)] by simp
next
  case step_stop
  then show ?thesis using node_stop_ok [OF assms(2)] by simp
qed

lemma kad_reach_inv: "kad_reach identity me n \<Longrightarrow> wf_id (identity me) \<Longrightarrow> kn_inv identity n"
  by (induction rule: kad_reach.induct) (auto intro: newkadnode_ok kad_step_inv)



section \<open>Records\<close>





end
