(* ===== verification/RlpInt.thy ===== *)
theory RlpInt
  imports Prelude
begin

text \<open>
  Integers and headers of RLP (\<open>rlp/encode.go\<close>, \<open>rlp/raw.go\<close>): the minimal big-endian bytes of a number, and
  the header of a string or list. The branches of \<open>putint\<close>, written out per width in the code, and the
  counting loop of \<open>intsize\<close> agree with the minimal big-endian bytes.
\<close>

section \<open>Integers and headers\<close>

text \<open>The bytes that \<open>putint\<close> writes; its result is their number.\<close>

definition putint :: "u64 \<Rightarrow> bytes" where
  "putint i =
     (if i < 0x100 then [ucast i]
      else if i < 0x10000 then [ucast (drop_bit 8 i), ucast i]
      else if i < 0x1000000 then [ucast (drop_bit 16 i), ucast (drop_bit 8 i), ucast i]
      else if i < 0x100000000 then
        [ucast (drop_bit 24 i), ucast (drop_bit 16 i), ucast (drop_bit 8 i), ucast i]
      else if i < 0x10000000000 then
        [ucast (drop_bit 32 i), ucast (drop_bit 24 i), ucast (drop_bit 16 i), ucast (drop_bit 8 i), ucast i]
      else if i < 0x1000000000000 then
        [ucast (drop_bit 40 i), ucast (drop_bit 32 i), ucast (drop_bit 24 i), ucast (drop_bit 16 i),
         ucast (drop_bit 8 i), ucast i]
      else if i < 0x100000000000000 then
        [ucast (drop_bit 48 i), ucast (drop_bit 40 i), ucast (drop_bit 32 i), ucast (drop_bit 24 i),
         ucast (drop_bit 16 i), ucast (drop_bit 8 i), ucast i]
      else
        [ucast (drop_bit 56 i), ucast (drop_bit 48 i), ucast (drop_bit 40 i), ucast (drop_bit 32 i),
         ucast (drop_bit 24 i), ucast (drop_bit 16 i), ucast (drop_bit 8 i), ucast i])"

function intsize_loop :: "u64 \<Rightarrow> nat \<Rightarrow> nat" where
  "intsize_loop i sz =
     (let i' = drop_bit 8 i in if i' = 0 then sz else intsize_loop i' (Suc sz))"
  by pat_completeness auto
termination
proof (relation "measure (\<lambda>(i, sz). unat i)", simp)
  fix i i' :: u64 and sz :: nat
  assume "i' = drop_bit 8 i" "i' \<noteq> 0"
  moreover have u: "unat (drop_bit 8 i) = unat i div 256"
    unfolding unat_drop_bit_eq by (simp add: drop_bit_eq_div)
  ultimately have "0 < unat i div 256" by (metis gr0I unat_eq_0)
  then have "unat i div 256 < unat i" by (intro div_less_dividend) auto
  then show "((i', Suc sz), i, sz) \<in> measure (\<lambda>(i, sz). unat i)" using u \<open>i' = _\<close> by simp
qed

declare intsize_loop.simps [simp del]

definition intsize :: "u64 \<Rightarrow> nat" where
  "intsize i = intsize_loop i 1"

definition headsize :: "u64 \<Rightarrow> nat" where
  "headsize sz = (if sz < 56 then 1 else 1 + intsize sz)"

definition ListSize :: "u64 \<Rightarrow> u64" where
  "ListSize contentSize = of_nat (headsize contentSize) + contentSize"

text \<open>The bytes that \<open>puthead\<close> writes.\<close>

definition puthead :: "u8 \<Rightarrow> u8 \<Rightarrow> u64 \<Rightarrow> bytes" where
  "puthead smalltag largetag sz =
     (if sz < 56 then [smalltag + ucast sz]
      else (let s = putint sz in (largetag + of_nat (length s)) # s))"

text \<open>\<open>(*big.Int).Bytes\<close>: the big-endian bytes without leading zeros.\<close>

function be_bytes :: "nat \<Rightarrow> bytes" where
  "be_bytes n = (if n = 0 then [] else be_bytes (n div 256) @ [of_nat (n mod 256)])"
  by pat_completeness auto
termination by (relation "measure (\<lambda>n. n)") auto

declare be_bytes.simps [simp del]

text \<open>The reference header of a content of \<open>n\<close> bytes.\<close>

definition rlp_head :: "u8 \<Rightarrow> u8 \<Rightarrow> nat \<Rightarrow> bytes" where
  "rlp_head small large n =
     (if n < 56 then [small + of_nat n] else (large + of_nat (length (be_bytes n))) # be_bytes n)"

section \<open>Minimal big-endian bytes\<close>

lemma be_bytes_0 [simp]: "be_bytes 0 = []"
  by (simp add: be_bytes.simps)

lemma be_bytes_step: "0 < n \<Longrightarrow> be_bytes n = be_bytes (n div 256) @ [of_nat n]"
proof -
  have "(of_nat (n mod 256) :: byte) = of_nat n"
    unfolding word_unat_eq_iff unat_of_nat by simp
  moreover assume "0 < n"
  ultimately show ?thesis by (simp add: be_bytes.simps [of n])
qed

lemma be_nat_be_bytes [simp]: "be_nat (be_bytes n) = n"
proof (induction n rule: be_bytes.induct)
  case (1 n)
  show ?case
  proof (cases "n = 0")
    case False
    then have "be_nat (be_bytes n) = (n div 256) * 256 + n mod 256"
      using 1 by (simp add: be_bytes_step be_nat_append unat_of_nat)
    then show ?thesis by simp
  qed simp
qed

lemma be_bytes_ne: "0 < n \<Longrightarrow> be_bytes n \<noteq> []"
  by (simp add: be_bytes_step)

lemma be_bytes_hd: "0 < n \<Longrightarrow> be_bytes n ! 0 \<noteq> 0"
proof (induction n rule: be_bytes.induct)
  case (1 n)
  show ?case
  proof (cases "n div 256 = 0")
    case True
    then have "n < 256" by simp
    then have "(of_nat n :: byte) \<noteq> 0" using 1 by (simp add: word_of_nat_eq_0_iff nat_dvd_not_less)
    then show ?thesis using 1 True by (simp add: be_bytes_step [of n])
  next
    case False
    then show ?thesis using 1 by (simp add: be_bytes_step [of n] nth_append be_bytes_ne)
  qed
qed

lemma be_bytes_length: "n < 256 ^ k \<Longrightarrow> length (be_bytes n) \<le> k"
proof (induction k arbitrary: n)
  case (Suc k)
  then show ?case by (cases "n = 0") (simp_all add: be_bytes_step less_mult_imp_div_less mult.commute)
qed simp

text \<open>A byte string without a leading zero is determined by its value.\<close>

lemma be_bytes_unique:
  assumes "bs = [] \<or> bs ! 0 \<noteq> 0"
  shows "be_bytes (be_nat bs) = bs"
  using assms
proof (induction bs rule: rev_induct)
  case (snoc b bs)
  have b: "(be_nat bs * 256 + unat b) div 256 = be_nat bs" "(of_nat (be_nat bs * 256 + unat b) :: byte) = b"
    unfolding word_unat_eq_iff unat_of_nat by simp_all
  have pos: "0 < be_nat bs * 256 + unat b"
  proof (cases "bs = []")
    case True
    then show ?thesis using snoc.prems by (simp add: unat_gt_0)
  next
    case False
    then have "bs ! 0 \<noteq> 0" using snoc.prems by (simp add: nth_append)
    moreover have "bs ! 0 \<in> set bs" using False by simp
    ultimately have "be_nat bs \<noteq> 0" by (auto simp: be_nat_eq_0_iff)
    then show ?thesis by simp
  qed
  have "bs = [] \<or> bs ! 0 \<noteq> 0" using snoc.prems by (cases "bs = []") (auto simp: nth_append)
  then have IH: "be_bytes (be_nat bs) = bs" by (rule snoc.IH)
  have "be_nat (bs @ [b]) = be_nat bs * 256 + unat b" by (simp add: be_nat_append)
  then show ?case using be_bytes_step [OF pos] b IH by simp
qed simp

text \<open>The \<open>k\<close> low bytes, and when they are all.\<close>

definition be_fix :: "nat \<Rightarrow> nat \<Rightarrow> bytes" where
  "be_fix k n = map (\<lambda>j. of_nat (n div 256 ^ j)) (rev [0..<k])"

lemma be_fix_Suc: "be_fix (Suc k) n = be_fix k (n div 256) @ [of_nat n]"
proof -
  have "rev [0..<Suc k] = map Suc (rev [0..<k]) @ [0]"
    by (simp add: map_Suc_upt upt_rec [of 0 "Suc k"] flip: rev_map del: upt_Suc)
  then show ?thesis by (simp add: be_fix_def comp_def div_mult2_eq)
qed

lemma be_bytes_fix: "256 ^ k \<le> n \<Longrightarrow> n < 256 ^ Suc k \<Longrightarrow> be_bytes n = be_fix (Suc k) n"
proof (induction k arbitrary: n)
  case 0
  then show ?case by (simp add: be_bytes_step be_fix_def)
next
  case (Suc k)
  have "256 ^ k \<le> n div 256" "n div 256 < 256 ^ Suc k"
    using Suc.prems by (simp_all add: less_mult_imp_div_less mult.commute less_eq_div_iff_mult_less_eq)
  moreover have "0 < n" using Suc.prems(1) using less_le_trans [OF zero_less_power [of "256::nat" "Suc k"]] by simp
  ultimately show ?case using Suc.IH by (simp add: be_bytes_step [of n] be_fix_Suc [of "Suc k"])
qed

lemma be_bytes_fix1: "0 < k \<Longrightarrow> 256 ^ (k - 1) \<le> n \<Longrightarrow> n < 256 ^ k \<Longrightarrow> be_bytes n = be_fix k n"
  using be_bytes_fix [of "k - 1" n] by simp

lemma ucast_low: "(ucast (i :: u64) :: byte) = of_nat (unat i)"
  unfolding word_unat_eq_iff unat_of_nat unsigned_ucast_eq by (simp add: take_bit_eq_mod)

lemma unat_drop_bit_u64: "unat (drop_bit k (i :: u64)) = unat i div 2 ^ k"
  unfolding unat_drop_bit_eq by (rule drop_bit_eq_div)

lemma be_fix_values:
  "be_fix 1 n = [of_nat n]"
  "be_fix 2 n = [of_nat (n div 2 ^ 8), of_nat n]"
  "be_fix 3 n = [of_nat (n div 2 ^ 16), of_nat (n div 2 ^ 8), of_nat n]"
  "be_fix 4 n = [of_nat (n div 2 ^ 24), of_nat (n div 2 ^ 16), of_nat (n div 2 ^ 8), of_nat n]"
  "be_fix 5 n = [of_nat (n div 2 ^ 32), of_nat (n div 2 ^ 24), of_nat (n div 2 ^ 16), of_nat (n div 2 ^ 8), of_nat n]"
  "be_fix 6 n = [of_nat (n div 2 ^ 40), of_nat (n div 2 ^ 32), of_nat (n div 2 ^ 24), of_nat (n div 2 ^ 16), of_nat (n div 2 ^ 8), of_nat n]"
  "be_fix 7 n = [of_nat (n div 2 ^ 48), of_nat (n div 2 ^ 40), of_nat (n div 2 ^ 32), of_nat (n div 2 ^ 24), of_nat (n div 2 ^ 16), of_nat (n div 2 ^ 8), of_nat n]"
  "be_fix 8 n = [of_nat (n div 2 ^ 56), of_nat (n div 2 ^ 48), of_nat (n div 2 ^ 40), of_nat (n div 2 ^ 32), of_nat (n div 2 ^ 24), of_nat (n div 2 ^ 16), of_nat (n div 2 ^ 8), of_nat n]"
  by (simp_all add: be_fix_def upt_conv_Cons)

lemma u64_less_iff:
  "(i :: u64) < 0x100 \<longleftrightarrow> unat i < 256 ^ 1" "i < 0x10000 \<longleftrightarrow> unat i < 256 ^ 2" "i < 0x1000000 \<longleftrightarrow> unat i < 256 ^ 3"
  "i < 0x100000000 \<longleftrightarrow> unat i < 256 ^ 4" "i < 0x10000000000 \<longleftrightarrow> unat i < 256 ^ 5"
  "i < 0x1000000000000 \<longleftrightarrow> unat i < 256 ^ 6" "i < 0x100000000000000 \<longleftrightarrow> unat i < 256 ^ 7"
  by (simp_all add: word_less_nat_alt)

lemma putint_fix:
  "putint i = (if unat i < 256 ^ 1 then be_fix 1 (unat i) else if unat i < 256 ^ 2 then be_fix 2 (unat i)
     else if unat i < 256 ^ 3 then be_fix 3 (unat i) else if unat i < 256 ^ 4 then be_fix 4 (unat i)
     else if unat i < 256 ^ 5 then be_fix 5 (unat i) else if unat i < 256 ^ 6 then be_fix 6 (unat i)
     else if unat i < 256 ^ 7 then be_fix 7 (unat i) else be_fix 8 (unat i))"
  unfolding putint_def u64_less_iff ucast_low unat_drop_bit_u64 be_fix_values by (rule refl)

lemma unat_u64: "unat (i :: u64) < 256 ^ 8"
  using unsigned_less [of i] by simp

lemma putint_be_bytes:
  assumes "i \<noteq> 0"
  shows "putint i = be_bytes (unat i)"
proof -
  define n where "n = unat i"
  have n: "256 ^ 0 \<le> n" "n < 256 ^ 8"
    using assms unat_u64 [of i] by (simp_all add: n_def Suc_le_eq unat_gt_0)
  note widths = n be_bytes_fix1 [of 1 n] be_bytes_fix1 [of 2 n] be_bytes_fix1 [of 3 n] be_bytes_fix1 [of 4 n]
    be_bytes_fix1 [of 5 n] be_bytes_fix1 [of 6 n] be_bytes_fix1 [of 7 n] be_bytes_fix1 [of 8 n]
  show ?thesis unfolding putint_fix n_def [symmetric] using widths by (simp split: if_splits)
qed

lemma intsize_loop_length: "intsize_loop i sz = sz + length (be_bytes (unat i div 256))"
proof (induction i sz rule: intsize_loop.induct)
  case (1 i sz)
  have u: "unat (drop_bit 8 i) = unat i div 256"
    unfolding unat_drop_bit_eq by (simp add: drop_bit_eq_div)
  show ?case
  proof (cases "drop_bit 8 i = 0")
    case True
    then have "unat i div 256 = 0" using u by simp
    then show ?thesis using True by (simp add: intsize_loop.simps [of i])
  next
    case False
    then have "0 < unat i div 256" using u by (metis gr0I unat_eq_0)
    then show ?thesis using False 1 u by (simp add: intsize_loop.simps [of i] be_bytes_step [of "unat i div 256"])
  qed
qed

lemma intsize_length: "i \<noteq> 0 \<Longrightarrow> intsize i = length (be_bytes (unat i))"
  by (simp add: intsize_def intsize_loop_length be_bytes_step unat_gt_0)

lemma length_putint: "length (putint i) = intsize i"
proof (cases "i = 0")
  case True
  then show ?thesis by (simp add: putint_def intsize_def intsize_loop_length)
qed (simp add: putint_be_bytes intsize_length)

lemma puthead_eq:
  assumes "n < 2 ^ 64"
  shows "puthead small large (of_nat n) = rlp_head small large n"
proof -
  have u: "unat (of_nat n :: u64) = n" using assms by (simp add: unat_of_nat)
  have c: "(ucast (of_nat n :: u64) :: byte) = of_nat n" using ucast_low [of "of_nat n"] u by simp
  have "(of_nat n :: u64) < 56 \<longleftrightarrow> n < 56" using u by (simp add: word_less_nat_alt)
  moreover have "\<not> n < 56 \<Longrightarrow> (of_nat n :: u64) \<noteq> 0" using u by auto
  ultimately show ?thesis using u c by (simp add: puthead_def rlp_head_def putint_be_bytes Let_def)
qed

end
