(* ===== verification/RlpEncode.thy ===== *)
theory RlpEncode
  imports RlpInt
begin

text \<open>
  The RLP encoder (\<open>rlp/encode.go\<close>, \<open>rlp/raw.go\<close>). The encoder appends string data to a buffer and keeps
  list headers apart, as pairs of an offset and a size that is known only when the list ends; the
  final output weaves the headers into the string data. The reference is the recursive
  definition of RLP on values, in which a list is its header followed by its encoded content. The
  main result is that the buffer's output is the reference encoding, for every value whose encoding
  is shorter than \<open>2 ^ 63\<close> bytes, the range of the code's \<open>int\<close>.
\<close>

section \<open>The buffer\<close>

record listhead =
  lh_offset :: int
  lh_size :: int

record encbuf =
  eb_str :: bytes
  eb_lheads :: "listhead list"
  eb_lhsize :: int

definition encbuf_reset :: encbuf where
  "encbuf_reset = \<lparr>eb_str = [], eb_lheads = [], eb_lhsize = 0\<rparr>"

definition listhead_encode :: "listhead \<Rightarrow> bytes" where
  "listhead_encode head = puthead 0xC0 0xF7 (word_of_int (lh_size head))"

definition encbuf_Write :: "bytes \<Rightarrow> encbuf \<Rightarrow> encbuf" where
  "encbuf_Write b w = w\<lparr>eb_str := eb_str w @ b\<rparr>"

definition encodeStringHeader :: "int \<Rightarrow> encbuf \<Rightarrow> encbuf" where
  "encodeStringHeader sz w =
     (if sz < 56 then w\<lparr>eb_str := eb_str w @ [0x80 + word_of_int sz]\<rparr>
      else (let s = putint (word_of_int sz)
            in w\<lparr>eb_str := eb_str w @ (0xB7 + of_nat (length s)) # s\<rparr>))"

definition encodeString :: "bytes \<Rightarrow> encbuf \<Rightarrow> encbuf" where
  "encodeString b w =
     (if length b = 1 \<and> b ! 0 \<le> 0x7F then w\<lparr>eb_str := eb_str w @ [b ! 0]\<rparr>
      else (let w1 = encodeStringHeader (int (length b)) w in w1\<lparr>eb_str := eb_str w1 @ b\<rparr>))"

definition encbuf_size :: "encbuf \<Rightarrow> int" where
  "encbuf_size w = int (length (eb_str w)) + eb_lhsize w"

text \<open>\<open>list\<close> returns a pointer to the new header; here, its position among the headers.\<close>

definition encbuf_list :: "encbuf \<Rightarrow> nat \<times> encbuf" where
  "encbuf_list w =
     (length (eb_lheads w),
      w\<lparr>eb_lheads := eb_lheads w @ [\<lparr>lh_offset = int (length (eb_str w)), lh_size = eb_lhsize w\<rparr>]\<rparr>)"

definition encbuf_listEnd :: "nat \<Rightarrow> encbuf \<Rightarrow> encbuf" where
  "encbuf_listEnd lh w =
     (let h = eb_lheads w ! lh;
          sz = encbuf_size w - lh_offset h - lh_size h;
          w1 = w\<lparr>eb_lheads := (eb_lheads w)[lh := h\<lparr>lh_size := sz\<rparr>]\<rparr>
      in if sz < 56 then w1\<lparr>eb_lhsize := eb_lhsize w1 + 1\<rparr>
         else w1\<lparr>eb_lhsize := eb_lhsize w1 + 1 + int (intsize (word_of_int sz))\<rparr>)"

text \<open>
  The output loop of \<open>toBytes\<close>: \<open>out\<close> is the fixed-size result, \<open>pos\<close> the position in it, \<open>strpos\<close> the
  position in the string data. A header that does not fit makes \<open>puthead\<close> index out of range: \<open>None\<close>.
\<close>

definition put_piece :: "bytes \<Rightarrow> nat \<Rightarrow> bytes \<Rightarrow> bytes" where
  "put_piece out pos s = take pos out @ go_copy (drop pos out) s"

definition toBytes_step :: "bytes \<Rightarrow> listhead \<Rightarrow> bytes \<times> nat \<times> nat \<Rightarrow> (bytes \<times> nat \<times> nat) option" where
  "toBytes_step str head = (\<lambda>(out, pos, strpos).
     let s = slice str strpos (nat (lh_offset head));
         n = min (length out - pos) (length s);
         out1 = put_piece out pos s;
         enc = listhead_encode head;
         pos1 = pos + n
     in if length out1 < pos1 + length enc then None
        else Some (put_piece out1 pos1 enc, pos1 + length enc, strpos + n))"

fun toBytes_loop :: "bytes \<Rightarrow> listhead list \<Rightarrow> bytes \<times> nat \<times> nat \<Rightarrow> (bytes \<times> nat \<times> nat) option" where
  "toBytes_loop str [] st = Some st"
| "toBytes_loop str (head # heads) st =
     (case toBytes_step str head st of None \<Rightarrow> None | Some st' \<Rightarrow> toBytes_loop str heads st')"

definition toBytes :: "encbuf \<Rightarrow> bytes option" where
  "toBytes w =
     map_option (\<lambda>(out, pos, strpos). put_piece out pos (drop strpos (eb_str w)))
       (toBytes_loop (eb_str w) (eb_lheads w) (replicate (nat (encbuf_size w)) 0, 0, 0))"

text \<open>\<open>toWriter\<close>: the pieces in the order in which they are written.\<close>

definition toWriter_step :: "bytes \<Rightarrow> listhead \<Rightarrow> nat \<Rightarrow> bytes list \<times> nat" where
  "toWriter_step str head strpos =
     (if 0 < lh_offset head - int strpos
      then ([slice str strpos (nat (lh_offset head)), listhead_encode head], nat (lh_offset head))
      else ([listhead_encode head], strpos))"

fun toWriter_loop :: "bytes \<Rightarrow> listhead list \<Rightarrow> nat \<Rightarrow> bytes list \<times> nat" where
  "toWriter_loop str [] strpos = ([], strpos)"
| "toWriter_loop str (head # heads) strpos =
     (case toWriter_step str head strpos of
        (ps, sp) \<Rightarrow> (case toWriter_loop str heads sp of (qs, sp') \<Rightarrow> (ps @ qs, sp')))"

definition toWriter :: "encbuf \<Rightarrow> bytes list" where
  "toWriter w =
     (case toWriter_loop (eb_str w) (eb_lheads w) 0 of
        (ps, strpos) \<Rightarrow> if strpos < length (eb_str w) then ps @ [drop strpos (eb_str w)] else ps)"

section \<open>Values and writers\<close>

text \<open>
  The values that the writers of the package accept, after reflection: unsigned integers, booleans, big
  integers (possibly nil), byte strings and arrays, text, raw values, slices and structs, slices
  with the tail tag, pointers and interfaces. \<open>VNilPtr\<close> carries the kind that a nil pointer is
  written as.
\<close>

datatype kind = Byte | String | List

datatype gval =
    VUint u64
  | VBool bool
  | VBigPtr "int option"
  | VBig int
  | VBytes bytes
  | VByteArray bytes
  | VText bytes
  | VRaw bytes
  | VSlice "gval list"
  | VTail "gval list"
  | VStruct "gval list"
  | VPtr gval
  | VNilPtr kind
  | VIface gval
  | VNilIface

datatype enc_error = NegativeBigInt

definition writeUint :: "u64 \<Rightarrow> encbuf \<Rightarrow> encbuf" where
  "writeUint i w =
     (if i = 0 then encbuf_Write [0x80] w
      else if i < 128 then encbuf_Write [ucast i] w
      else (let s = putint i in encbuf_Write ((0x80 + of_nat (length s)) # s) w))"

definition writeBool :: "bool \<Rightarrow> encbuf \<Rightarrow> encbuf" where
  "writeBool b w = encbuf_Write (if b then [0x01] else [0x80]) w"

definition writeBigInt :: "int \<Rightarrow> encbuf \<Rightarrow> enc_error + encbuf" where
  "writeBigInt i w =
     (if i < 0 then Inl NegativeBigInt
      else if i = 0 then Inr (encbuf_Write [0x80] w)
      else Inr (encodeString (be_bytes (nat i)) w))"

definition writeString :: "bytes \<Rightarrow> encbuf \<Rightarrow> encbuf" where
  "writeString s w =
     (if length s = 1 \<and> s ! 0 \<le> 0x7F then encbuf_Write [s ! 0] w
      else encbuf_Write s (encodeStringHeader (int (length s)) w))"

fun write_val :: "gval \<Rightarrow> encbuf \<Rightarrow> enc_error + encbuf"
  and write_all :: "gval list \<Rightarrow> encbuf \<Rightarrow> enc_error + encbuf" where
  "write_val (VUint i) w = Inr (writeUint i w)"
| "write_val (VBool b) w = Inr (writeBool b w)"
| "write_val (VBigPtr i) w =
     (case i of None \<Rightarrow> Inr (encbuf_Write [0x80] w) | Some n \<Rightarrow> writeBigInt n w)"
| "write_val (VBig i) w = writeBigInt i w"
| "write_val (VBytes b) w = Inr (encodeString b w)"
| "write_val (VByteArray b) w = Inr (encodeString b w)"
| "write_val (VText s) w = Inr (writeString s w)"
| "write_val (VRaw b) w = Inr (encbuf_Write b w)"
| "write_val (VSlice vs) w =
     (case encbuf_list w of (lh, w1) \<Rightarrow> map_sum id (encbuf_listEnd lh) (write_all vs w1))"
| "write_val (VTail vs) w = write_all vs w"
| "write_val (VStruct vs) w =
     (case encbuf_list w of (lh, w1) \<Rightarrow> map_sum id (encbuf_listEnd lh) (write_all vs w1))"
| "write_val (VPtr v) w = write_val v w"
| "write_val (VNilPtr k) w =
     (if k = String then Inr (encbuf_Write [0x80] w)
      else (case encbuf_list w of (lh, w1) \<Rightarrow> Inr (encbuf_listEnd lh w1)))"
| "write_val (VIface v) w = write_val v w"
| "write_val VNilIface w = Inr (encbuf_Write [0xC0] w)"
| "write_all [] w = Inr w"
| "write_all (v # vs) w = (case write_val v w of Inl e \<Rightarrow> Inl e | Inr w1 \<Rightarrow> write_all vs w1)"

definition EncodeToBytes :: "gval \<Rightarrow> enc_error + bytes option" where
  "EncodeToBytes v = (case write_val v encbuf_reset of Inl e \<Rightarrow> Inl e | Inr w \<Rightarrow> Inr (toBytes w))"

definition Encode :: "gval \<Rightarrow> enc_error + bytes list" where
  "Encode v = (case write_val v encbuf_reset of Inl e \<Rightarrow> Inl e | Inr w \<Rightarrow> Inr (toWriter w))"

section \<open>The reference encoding\<close>

definition rlp_str :: "bytes \<Rightarrow> bytes" where
  "rlp_str b = (if length b = 1 \<and> b ! 0 < 0x80 then b else rlp_head 0x80 0xB7 (length b) @ b)"

definition rlp_list :: "bytes \<Rightarrow> bytes" where
  "rlp_list content = rlp_head 0xC0 0xF7 (length content) @ content"

fun rlp_val :: "gval \<Rightarrow> bytes" where
  "rlp_val (VUint i) = rlp_str (be_bytes (unat i))"
| "rlp_val (VBool b) = rlp_str (if b then [1] else [])"
| "rlp_val (VBigPtr i) = rlp_str (case i of None \<Rightarrow> [] | Some n \<Rightarrow> be_bytes (nat n))"
| "rlp_val (VBig i) = rlp_str (be_bytes (nat i))"
| "rlp_val (VBytes b) = rlp_str b"
| "rlp_val (VByteArray b) = rlp_str b"
| "rlp_val (VText s) = rlp_str s"
| "rlp_val (VRaw b) = b"
| "rlp_val (VSlice vs) = rlp_list (concat (map rlp_val vs))"
| "rlp_val (VTail vs) = concat (map rlp_val vs)"
| "rlp_val (VStruct vs) = rlp_list (concat (map rlp_val vs))"
| "rlp_val (VPtr v) = rlp_val v"
| "rlp_val (VNilPtr k) = (if k = String then rlp_str [] else rlp_list [])"
| "rlp_val (VIface v) = rlp_val v"
| "rlp_val VNilIface = rlp_list []"

text \<open>The values that can be written: no negative big integer occurs.\<close>

fun writable :: "gval \<Rightarrow> bool" where
  "writable (VBigPtr i) = (case i of None \<Rightarrow> True | Some n \<Rightarrow> 0 \<le> n)"
| "writable (VBig i) = (0 \<le> i)"
| "writable (VSlice vs) = list_all writable vs"
| "writable (VTail vs) = list_all writable vs"
| "writable (VStruct vs) = list_all writable vs"
| "writable (VPtr v) = writable v"
| "writable (VIface v) = writable v"
| "writable _ = True"

lemma encodeStringHeader_eq:
  assumes "n < 2 ^ 64"
  shows "encodeStringHeader (int n) w = w\<lparr>eb_str := eb_str w @ rlp_head 0x80 0xB7 n\<rparr>"
proof -
  have u: "unat (of_nat n :: u64) = n" using assms by (simp add: unat_of_nat)
  have "\<not> n < 56 \<Longrightarrow> (of_nat n :: u64) \<noteq> 0" using u by auto
  then show ?thesis using u by (simp add: encodeStringHeader_def rlp_head_def putint_be_bytes Let_def)
qed

lemma rlp_str_single: "length b = 1 \<Longrightarrow> b ! 0 \<le> 0x7F \<Longrightarrow> rlp_str b = [b ! 0]"
  by (cases b) (auto simp: rlp_str_def word_le_nat_alt word_less_nat_alt)

lemma rlp_str_headed: "\<not> (length b = 1 \<and> b ! 0 \<le> 0x7F) \<Longrightarrow> rlp_str b = rlp_head 0x80 0xB7 (length b) @ b"
  by (auto simp: rlp_str_def word_le_nat_alt word_less_nat_alt)

lemma encodeString_eq:
  assumes "length b < 2 ^ 64"
  shows "encodeString b w = w\<lparr>eb_str := eb_str w @ rlp_str b\<rparr>"
proof (cases "length b = 1 \<and> b ! 0 \<le> 0x7F")
  case True
  then show ?thesis by (simp add: encodeString_def rlp_str_single)
next
  case False
  then show ?thesis
    using rlp_str_headed [OF False] encodeStringHeader_eq [OF assms] by (simp only: encodeString_def Let_def if_False) simp
qed

lemma writeString_eq: "writeString b w = encodeString b w"
  by (simp add: writeString_def encodeString_def encbuf_Write_def Let_def)

section \<open>Weaving headers into string data\<close>

text \<open>
  \<open>frag b s hs\<close> is the output that stands for the string data \<open>s\<close>, whose first byte has offset \<open>b\<close> in the
  buffer, with the headers \<open>hs\<close> woven in. The offsets of the headers are ascending and inside the data.
\<close>

abbreviation lh_off :: "listhead \<Rightarrow> nat" where
  "lh_off h \<equiv> nat (lh_offset h)"

fun frag :: "nat \<Rightarrow> bytes \<Rightarrow> listhead list \<Rightarrow> bytes" where
  "frag b s [] = s"
| "frag b s (h # hs) = take (lh_off h - b) s @ listhead_encode h @ frag (lh_off h) (drop (lh_off h - b) s) hs"

fun heads_in :: "nat \<Rightarrow> nat \<Rightarrow> listhead list \<Rightarrow> bool" where
  "heads_in b e [] = (b \<le> e)"
| "heads_in b e (h # hs) = (0 \<le> lh_offset h \<and> b \<le> lh_off h \<and> heads_in (lh_off h) e hs)"

lemma heads_in_le: "heads_in b e hs \<Longrightarrow> b \<le> e"
  by (induction b e hs rule: heads_in.induct) auto

lemma heads_in_append: "heads_in b m hs \<Longrightarrow> heads_in m e hs' \<Longrightarrow> heads_in b e (hs @ hs')"
proof (induction b m hs rule: heads_in.induct)
  case (1 b m)
  then show ?case by (cases hs') auto
qed auto

lemma frag_length:
  "heads_in b (b + length s) hs \<Longrightarrow>
     length (frag b s hs) = length s + sum_list (map (\<lambda>h. length (listhead_encode h)) hs)"
proof (induction b s hs rule: frag.induct)
  case (2 b s h hs)
  then have "lh_off h \<le> b + length s" using heads_in_le by auto
  then have e: "lh_off h + length (drop (lh_off h - b) s) = b + length s" using 2 by simp
  have "heads_in (lh_off h) (b + length s) hs" using 2 by simp
  then have "length (frag (lh_off h) (drop (lh_off h - b) s) hs)
      = length (drop (lh_off h - b) s) + sum_list (map (\<lambda>h. length (listhead_encode h)) hs)"
    using 2 e by metis
  moreover have "length (take (lh_off h - b) s) + length (drop (lh_off h - b) s) = length s"
    by (metis append_take_drop_id length_append)
  ultimately show ?case by (simp del: length_take length_drop)
qed simp

lemma frag_skip: "heads_in (b + length s) e hs \<Longrightarrow> frag b (s @ s') hs = s @ frag (b + length s) s' hs"
  by (cases hs) auto

lemma frag_append:
  "heads_in b (b + length s) hs \<Longrightarrow> heads_in (b + length s) e hs' \<Longrightarrow>
     frag b (s @ s') (hs @ hs') = frag b s hs @ frag (b + length s) s' hs'"
proof (induction b s hs rule: frag.induct)
  case (1 b s)
  then show ?case by (simp add: frag_skip)
next
  case (2 b s h hs)
  then have le: "lh_off h \<le> b + length s" using heads_in_le by auto
  then have e: "lh_off h + length (drop (lh_off h - b) s) = b + length s" using 2 by simp
  have "heads_in (lh_off h) (b + length s) hs" using 2 by simp
  then have "frag (lh_off h) (drop (lh_off h - b) s @ s') (hs @ hs')
      = frag (lh_off h) (drop (lh_off h - b) s) hs @ frag (b + length s) s' hs'"
    using 2 e by metis
  then show ?case using le by simp
qed

section \<open>The output loops produce the woven output\<close>

lemma put_piece_replicate:
  "length p \<le> r \<Longrightarrow> put_piece (d @ replicate r 0) (length d) p = (d @ p) @ replicate (r - length p) 0"
  by (simp add: put_piece_def go_copy_def)

lemma toBytes_loop_frag:
  assumes "heads_in sp (length str) hs" "length (frag sp (drop sp str) hs) \<le> r"
  shows "\<exists>d' r' sp'. toBytes_loop str hs (d @ replicate r 0, length d, sp) = Some (d' @ replicate r' 0, length d', sp')
     \<and> d' @ drop sp' str = d @ frag sp (drop sp str) hs \<and> length d' + r' = length d + r"
  using assms
proof (induction hs arbitrary: sp d r)
  case (Cons h hs)
  define x where "x = slice str sp (lh_off h)"
  define y where "y = listhead_encode h"
  define f where "f = frag (lh_off h) (drop (lh_off h) str) hs"
  have le: "sp \<le> lh_off h" "lh_off h \<le> length str" using Cons.prems(1) heads_in_le by auto
  then have "length x = lh_off h - sp" by (simp add: x_def)
  then have len: "lh_off h = sp + length x" using le by simp
  have frag: "frag sp (drop sp str) (h # hs) = x @ y @ f"
    using le by (simp add: x_def y_def f_def slice_def take_drop)
  then have r: "length x + length y + length f \<le> r" using Cons.prems(2) by simp
  have xp: "put_piece (d @ replicate r 0) (length d) x = (d @ x) @ replicate (r - length x) 0"
    by (rule put_piece_replicate) (use r in linarith)
  have "put_piece ((d @ x) @ replicate (r - length x) 0) (length (d @ x)) y
          = (d @ x @ y) @ replicate (r - length x - length y) 0"
    using put_piece_replicate [of y "r - length x" "d @ x"] r by simp
  then have step: "toBytes_step str h (d @ replicate r 0, length d, sp)
        = Some ((d @ x @ y) @ replicate (r - length x - length y) 0, length (d @ x @ y), lh_off h)"
    unfolding toBytes_step_def Let_def prod.case x_def [symmetric] y_def [symmetric]
    using r xp by (simp add: min_absorb2 len)
  have "length f \<le> r - length x - length y" using r by simp
  then obtain d' r' sp' where
    "toBytes_loop str hs ((d @ x @ y) @ replicate (r - length x - length y) 0, length (d @ x @ y), lh_off h)
       = Some (d' @ replicate r' 0, length d', sp')"
    "d' @ drop sp' str = (d @ x @ y) @ f" "length d' + r' = length (d @ x @ y) + (r - length x - length y)"
    using Cons.IH [of "lh_off h" "r - length x - length y" "d @ x @ y"] Cons.prems(1) unfolding f_def by auto
  then show ?case unfolding toBytes_loop.simps step frag using r
    by (intro exI [of _ d'] exI [of _ r'] exI [of _ sp']) simp
qed auto

lemma toBytes_frag:
  assumes "heads_in 0 (length (eb_str w)) (eb_lheads w)"
    and "encbuf_size w = int (length (frag 0 (eb_str w) (eb_lheads w)))"
  shows "toBytes w = Some (frag 0 (eb_str w) (eb_lheads w))"
proof -
  let ?f = "frag 0 (eb_str w) (eb_lheads w)"
  obtain d r sp where loop:
    "toBytes_loop (eb_str w) (eb_lheads w) ([] @ replicate (length ?f) 0, length ([] :: bytes), 0)
       = Some (d @ replicate r 0, length d, sp)"
    and d: "d @ drop sp (eb_str w) = [] @ ?f" "length d + r = length ([] :: bytes) + length ?f"
    using toBytes_loop_frag [OF assms(1), of "length ?f" "[]"] by auto
  have "length d + length (drop sp (eb_str w)) = length ?f" using d(1) by (metis append_Nil length_append)
  then have r: "r = length (drop sp (eb_str w))" using d(2) by simp
  have "put_piece (d @ replicate r 0) (length d) (drop sp (eb_str w)) = ?f"
    using put_piece_replicate [of "drop sp (eb_str w)" r d] r d(1) by simp
  then show ?thesis using loop assms(2) by (simp add: toBytes_def)
qed

lemma toWriter_loop_frag:
  assumes "heads_in sp (length str) hs"
  shows "case toWriter_loop str hs sp of (ps, sp') \<Rightarrow> concat ps @ drop sp' str = frag sp (drop sp str) hs"
  using assms
proof (induction hs arbitrary: sp)
  case (Cons h hs)
  have le: "0 \<le> lh_offset h" "sp \<le> lh_off h" using Cons.prems by auto
  have IH: "case toWriter_loop str hs (lh_off h) of
      (ps, sp') \<Rightarrow> concat ps @ drop sp' str = frag (lh_off h) (drop (lh_off h) str) hs"
    using Cons by simp
  have "toWriter_step str h sp = (if sp < lh_off h then [slice str sp (lh_off h), listhead_encode h]
      else [listhead_encode h], lh_off h)"
    using le by (auto simp: toWriter_step_def)
  then show ?case using IH le by (auto simp: slice_def take_drop split: prod.splits)
qed auto

lemma toWriter_frag:
  assumes "heads_in 0 (length (eb_str w)) (eb_lheads w)"
  shows "concat (toWriter w) = frag 0 (eb_str w) (eb_lheads w)"
  using toWriter_loop_frag [OF assms] by (auto simp: toWriter_def split: prod.splits)

section \<open>What a writer appends\<close>

text \<open>
  A writer appends string data and headers to the buffer, counts the bytes of the headers, and what it
  appended stands for the output \<open>out\<close>.
\<close>

definition head_bytes :: "listhead list \<Rightarrow> nat" where
  "head_bytes hs = sum_list (map (\<lambda>h. length (listhead_encode h)) hs)"

definition appends :: "encbuf \<Rightarrow> encbuf \<Rightarrow> bytes \<Rightarrow> bool" where
  "appends w w' out \<longleftrightarrow> (\<exists>s hs.
     eb_str w' = eb_str w @ s \<and> eb_lheads w' = eb_lheads w @ hs \<and>
     eb_lhsize w' = eb_lhsize w + int (head_bytes hs) \<and>
     heads_in (length (eb_str w)) (length (eb_str w')) hs \<and> frag (length (eb_str w)) s hs = out)"

lemma appends_refl: "appends w w []"
  by (auto simp: appends_def head_bytes_def)

lemma appends_str: "appends w (w\<lparr>eb_str := eb_str w @ s\<rparr>) s"
  by (auto simp: appends_def head_bytes_def)

lemma appends_trans:
  assumes "appends w w1 a" "appends w1 w2 b"
  shows "appends w w2 (a @ b)"
proof -
  obtain s hs where a: "eb_str w1 = eb_str w @ s" "eb_lheads w1 = eb_lheads w @ hs"
    "eb_lhsize w1 = eb_lhsize w + int (head_bytes hs)"
    "heads_in (length (eb_str w)) (length (eb_str w1)) hs" "frag (length (eb_str w)) s hs = a"
    using assms(1) unfolding appends_def by blast
  obtain s' hs' where b: "eb_str w2 = eb_str w1 @ s'" "eb_lheads w2 = eb_lheads w1 @ hs'"
    "eb_lhsize w2 = eb_lhsize w1 + int (head_bytes hs')"
    "heads_in (length (eb_str w1)) (length (eb_str w2)) hs'" "frag (length (eb_str w1)) s' hs' = b"
    using assms(2) unfolding appends_def by blast
  have "frag (length (eb_str w)) (s @ s') (hs @ hs') = a @ b"
    using frag_append [of "length (eb_str w)" s hs "length (eb_str w2)" hs' s'] a b by simp
  moreover have "heads_in (length (eb_str w)) (length (eb_str w2)) (hs @ hs')"
    using a(4) b(4) by (rule heads_in_append)
  ultimately show ?thesis
    unfolding appends_def using a b by (intro exI [of _ "s @ s'"] exI [of _ "hs @ hs'"]) (simp add: head_bytes_def)
qed

lemma appends_Write: "appends w (encbuf_Write s w) s"
  by (simp add: encbuf_Write_def appends_str)

lemma appends_encodeString: "length b < 2 ^ 64 \<Longrightarrow> appends w (encodeString b w) (rlp_str b)"
  by (simp add: encodeString_eq appends_str)

lemma length_listhead_encode:
  assumes "n < 2 ^ 64" "lh_size h = int n"
  shows "listhead_encode h = rlp_head 0xC0 0xF7 n"
    and "length (listhead_encode h) = (if n < 56 then 1 else 1 + intsize (of_nat n))"
proof -
  show 1: "listhead_encode h = rlp_head 0xC0 0xF7 n"
    using assms puthead_eq [of n] by (simp add: listhead_encode_def)
  have u: "unat (of_nat n :: u64) = n" using assms by (simp add: unat_of_nat)
  have "\<not> n < 56 \<Longrightarrow> (of_nat n :: u64) \<noteq> 0" using u by auto
  then show "length (listhead_encode h) = (if n < 56 then 1 else 1 + intsize (of_nat n))"
    using u by (simp add: 1 rlp_head_def intsize_length)
qed

text \<open>A list: its header is reserved, the content written, and the header's size set at the end.\<close>

lemma appends_list:
  assumes "encbuf_list w = (lh, w1)" "appends w1 w2 content" "length content < 2 ^ 64"
  shows "appends w (encbuf_listEnd lh w2) (rlp_list content)"
proof -
  define b where "b = length (eb_str w)"
  have w1: "lh = length (eb_lheads w)" "eb_str w1 = eb_str w" "eb_lhsize w1 = eb_lhsize w"
    "eb_lheads w1 = eb_lheads w @ [\<lparr>lh_offset = int b, lh_size = eb_lhsize w\<rparr>]"
    using assms(1) by (auto simp: encbuf_list_def b_def)
  obtain s hs where c: "eb_str w2 = eb_str w @ s"
    "eb_lheads w2 = eb_lheads w @ \<lparr>lh_offset = int b, lh_size = eb_lhsize w\<rparr> # hs"
    "eb_lhsize w2 = eb_lhsize w + int (head_bytes hs)"
    "heads_in b (b + length s) hs" "frag b s hs = content"
    using assms(2) w1 unfolding appends_def b_def by auto
  define n where "n = length content"
  have n: "n = length s + head_bytes hs"
    using frag_length [OF c(4)] c(5) by (simp add: n_def head_bytes_def)
  define h where "h = \<lparr>lh_offset = int b, lh_size = int n\<rparr>"
  have sz: "encbuf_size w2 - int b - eb_lhsize w = int n" using c n by (simp add: encbuf_size_def b_def)
  have enc: "listhead_encode h = rlp_head 0xC0 0xF7 n"
    "length (listhead_encode h) = (if n < 56 then 1 else 1 + intsize (of_nat n))"
    using length_listhead_encode [of n h] assms(3) by (simp_all add: n_def h_def)
  have "eb_str (encbuf_listEnd lh w2) = eb_str w @ s"
    "eb_lheads (encbuf_listEnd lh w2) = eb_lheads w @ h # hs"
    "eb_lhsize (encbuf_listEnd lh w2) = eb_lhsize w + int (head_bytes (h # hs))"
    using c sz enc(2) w1(1) by (simp_all add: encbuf_listEnd_def Let_def h_def head_bytes_def)
  moreover have "frag b s (h # hs) = rlp_list content"
    using c(5) enc(1) by (simp add: h_def rlp_list_def n_def)
  moreover have "heads_in b (b + length s) (h # hs)" using c(4) by (simp add: h_def)
  ultimately show ?thesis unfolding appends_def b_def
    by (intro exI [of _ s] exI [of _ "h # hs"]) simp
qed

section \<open>The encoder computes the reference encoding\<close>

lemma writeUint_appends: "appends w (writeUint i w) (rlp_str (be_bytes (unat i)))"
proof -
  consider "i = 0" | "i \<noteq> 0" "i < 128" | "i \<noteq> 0" "\<not> i < 128" by blast
  then have "writeUint i w = w\<lparr>eb_str := eb_str w @ rlp_str (be_bytes (unat i))\<rparr>"
  proof cases
    case 1
    then show ?thesis by (simp add: writeUint_def encbuf_Write_def rlp_str_def rlp_head_def)
  next
    case 2
    then have "0 < unat i" "unat i < 128" by (simp_all add: unat_gt_0 word_less_nat_alt)
    moreover from this have "be_bytes (unat i) = [ucast i]" by (simp add: be_bytes_step [of "unat i"])
    moreover have "unat (ucast i :: byte) = unat i"
      unfolding unsigned_ucast_eq using \<open>unat i < 128\<close> by (simp add: take_bit_eq_mod)
    ultimately show ?thesis using 2
      by (simp add: writeUint_def encbuf_Write_def rlp_str_def word_less_nat_alt)
  next
    case 3
    have len: "length (be_bytes (unat i)) \<le> 8" using unat_u64 by (rule be_bytes_length)
    have "128 \<le> be_nat (be_bytes (unat i))" using 3(2) by (simp add: word_less_nat_alt)
    then have "\<not> (length (be_bytes (unat i)) = 1 \<and> be_bytes (unat i) ! 0 \<le> 0x7F)"
      by (cases "be_bytes (unat i)") (auto simp: word_le_nat_alt)
    then show ?thesis using 3 len rlp_str_headed [of "be_bytes (unat i)"]
      by (simp add: writeUint_def encbuf_Write_def putint_be_bytes Let_def rlp_head_def)
  qed
  then show ?thesis by (simp add: appends_str)
qed

lemma rlp_str_Nil [simp]: "rlp_str [] = [0x80]"
  by (simp add: rlp_str_def rlp_head_def)

lemma writeBigInt_appends:
  assumes "0 \<le> i" "length (be_bytes (nat i)) < 2 ^ 64"
  shows "\<exists>w'. writeBigInt i w = Inr w' \<and> appends w w' (rlp_str (be_bytes (nat i)))"
proof (cases "i = 0")
  case True
  then show ?thesis by (simp add: writeBigInt_def appends_Write)
next
  case False
  then show ?thesis using assms appends_encodeString [of "be_bytes (nat i)" w] by (simp add: writeBigInt_def)
qed

lemma length_rlp_str: "length b \<le> length (rlp_str b)"
  by (simp add: rlp_str_def)

lemma length_rlp_list: "length c \<le> length (rlp_list c)"
  by (simp add: rlp_list_def)

lemma write_val_appends:
  "writable v \<Longrightarrow> length (rlp_val v) < 2 ^ 64 \<Longrightarrow> \<exists>w'. write_val v w = Inr w' \<and> appends w w' (rlp_val v)"
  "list_all writable vs \<Longrightarrow> length (concat (map rlp_val vs)) < 2 ^ 64 \<Longrightarrow>
     \<exists>w'. write_all vs w = Inr w' \<and> appends w w' (concat (map rlp_val vs))"
proof (induction v w and vs w rule: write_val_write_all.induct)
  case (1 i w)
  then show ?case by (simp add: writeUint_appends)
next
  case (2 b w)
  then show ?case using appends_Write [of w] by (simp add: writeBool_def rlp_str_def rlp_head_def)
next
  case (3 i w)
  show ?case
  proof (cases i)
    case None
    then show ?thesis by (simp add: appends_Write)
  next
    case (Some n)
    then have "length (be_bytes (nat n)) < 2 ^ 64"
      using 3 length_rlp_str [of "be_bytes (nat n)"] by simp
    then show ?thesis using 3 Some writeBigInt_appends [of n w] by simp
  qed
next
  case (4 i w)
  then have "length (be_bytes (nat i)) < 2 ^ 64"
    using length_rlp_str [of "be_bytes (nat i)"] by simp
  then show ?case using 4 writeBigInt_appends [of i w] by simp
next
  case (5 b w)
  then show ?case using length_rlp_str [of b] appends_encodeString [of b w] by simp
next
  case (6 b w)
  then show ?case using length_rlp_str [of b] appends_encodeString [of b w] by simp
next
  case (7 b w)
  then show ?case using length_rlp_str [of b] appends_encodeString [of b w] by (simp add: writeString_eq)
next
  case (8 b w)
  then show ?case by (simp add: appends_Write)
next
  case (9 vs w)
  obtain lh w1 where l: "encbuf_list w = (lh, w1)" by fastforce
  have len: "length (concat (map rlp_val vs)) < 2 ^ 64"
    using 9(3) length_rlp_list [of "concat (map rlp_val vs)"] by simp
  then obtain w2 where "write_all vs w1 = Inr w2" "appends w1 w2 (concat (map rlp_val vs))"
    using 9(1) [OF l [symmetric]] 9(2) l by auto
  then show ?case using appends_list [OF l _ len] l by simp
next
  case (10 vs w)
  then show ?case by simp
next
  case (11 vs w)
  obtain lh w1 where l: "encbuf_list w = (lh, w1)" by fastforce
  have len: "length (concat (map rlp_val vs)) < 2 ^ 64"
    using 11(3) length_rlp_list [of "concat (map rlp_val vs)"] by simp
  then obtain w2 where "write_all vs w1 = Inr w2" "appends w1 w2 (concat (map rlp_val vs))"
    using 11(1) [OF l [symmetric]] 11(2) l by auto
  then show ?case using appends_list [OF l _ len] l by simp
next
  case (13 k w)
  obtain lh w1 where l: "encbuf_list w = (lh, w1)" by fastforce
  have "appends w (encbuf_listEnd lh w1) (rlp_list [])" using appends_list [OF l appends_refl] by simp
  then show ?case using l by (simp add: appends_Write)
next
  case (15 w)
  then show ?case using appends_Write [of w "[0xC0]"] by (simp add: rlp_list_def rlp_head_def)
next
  case (17 v vs w)
  then obtain w1 where w1: "write_val v w = Inr w1" "appends w w1 (rlp_val v)" by auto
  then obtain w2 where w2: "write_all vs w1 = Inr w2" "appends w1 w2 (concat (map rlp_val vs))"
    using 17(2) [OF w1(1)] 17(3,4) by auto
  show ?case using w1(1) w2(1) appends_trans [OF w1(2) w2(2)] by simp
qed (simp_all add: appends_refl)

lemma encbuf_size_frag:
  assumes "appends encbuf_reset w out"
  shows "heads_in 0 (length (eb_str w)) (eb_lheads w)" "frag 0 (eb_str w) (eb_lheads w) = out"
    "encbuf_size w = int (length out)"
proof -
  show h: "heads_in 0 (length (eb_str w)) (eb_lheads w)" and f: "frag 0 (eb_str w) (eb_lheads w) = out"
    using assms by (auto simp: appends_def encbuf_reset_def)
  have "eb_lhsize w = int (head_bytes (eb_lheads w))" using assms by (auto simp: appends_def encbuf_reset_def)
  then show "encbuf_size w = int (length out)"
    using frag_length [of 0 "eb_str w" "eb_lheads w"] h f by (simp add: encbuf_size_def head_bytes_def)
qed

lemma encode_eq:
  assumes "writable v" "length (rlp_val v) < 2 ^ 64"
  shows "EncodeToBytes v = Inr (Some (rlp_val v))" "map_sum id concat (Encode v) = Inr (rlp_val v)"
proof -
  obtain w where w: "write_val v encbuf_reset = Inr w" "appends encbuf_reset w (rlp_val v)"
    using write_val_appends(1) [of v encbuf_reset] assms by auto
  note wf = encbuf_size_frag [OF w(2)]
  show "EncodeToBytes v = Inr (Some (rlp_val v))" using w(1) toBytes_frag [of w] wf by (simp add: EncodeToBytes_def)
  show "map_sum id concat (Encode v) = Inr (rlp_val v)" using w(1) toWriter_frag [of w] wf by (simp add: Encode_def)
qed

text \<open>
  Claim C5. For every value without negative big integers whose encoding is shorter than \<open>2 ^ 63\<close> bytes,
  both output routines of the encoder produce exactly the recursive RLP encoding: \<open>EncodeToBytes\<close> fills
  its preallocated result without running out of range, and the pieces that \<open>Encode\<close> writes concatenate to it.
\<close>

theorem encoder_correct:
  assumes "writable v" "length (rlp_val v) < 2 ^ 63"
  shows "EncodeToBytes v = Inr (Some (rlp_val v)) \<and> map_sum id concat (Encode v) = Inr (rlp_val v)"
  using encode_eq [of v] assms by simp

theorem encoder_correct_witness:
  "EncodeToBytes (VSlice [VUint 1024, VBytes [0x7F], VSlice [], VBigPtr None])
     = Inr (Some [0xC6, 0x82, 0x04, 0x00, 0x7F, 0xC0, 0x80])"
proof -
  let ?v = "VSlice [VUint 1024, VBytes [0x7F], VSlice [], VBigPtr None]"
  have "be_bytes 1024 = [4, 0]" by (simp add: be_bytes_step)
  then have v: "rlp_val ?v = [0xC6, 0x82, 0x04, 0x00, 0x7F, 0xC0, 0x80]"
    by (simp add: rlp_list_def rlp_head_def rlp_str_def)
  have "writable ?v" by simp
  moreover have "length (rlp_val ?v) < 2 ^ 63" unfolding v by simp
  ultimately show ?thesis using encoder_correct [of ?v] v by simp
qed

lemma write_val_error:
  "isl (write_val v w) \<longleftrightarrow> \<not> writable v"
  "isl (write_all vs w) \<longleftrightarrow> \<not> list_all writable vs"
proof (induction v w and vs w rule: write_val_write_all.induct)
  case (9 vs w)
  then show ?case by (cases "write_all vs (snd (encbuf_list w))") (auto split: prod.splits)
next
  case (11 vs w)
  then show ?case by (cases "write_all vs (snd (encbuf_list w))") (auto split: prod.splits)
next
  case (17 v vs w)
  then show ?case by (cases "write_val v w") auto
qed (auto simp: writeBigInt_def split: option.splits prod.splits)


lemma headsize_head:
  assumes "n < 2 ^ 64"
  shows "headsize (of_nat n) = length (rlp_head x y n)"
proof -
  have u: "unat (of_nat n :: u64) = n" using assms by (simp add: unat_of_nat)
  have "\<not> n < 56 \<Longrightarrow> (of_nat n :: u64) \<noteq> 0" using u by auto
  then show ?thesis using u by (simp add: headsize_def rlp_head_def word_less_nat_alt intsize_length)
qed

lemma headsize_bounds: "1 \<le> headsize n \<and> headsize n \<le> 9"
  using be_bytes_length [OF unat_u64 [of n]] intsize_length [of n] by (cases "n = 0") (simp_all add: headsize_def)

text \<open>
  Claim C30. \<open>ListSize\<close> is the size of the encoded list with the given content size, up to contents within nine bytes of
  the range of \<open>uint64\<close>; there the sum wraps around to a value smaller than the content.
\<close>

theorem ListSize_bounds:
  "(unat n + headsize n < 2 ^ 64 \<longrightarrow> unat (ListSize n) = unat n + headsize n) \<and>
   (2 ^ 64 \<le> unat n + headsize n \<longrightarrow> unat (ListSize n) = unat n + headsize n - 2 ^ 64) \<and>
   (length c + 9 < 2 ^ 64 \<longrightarrow> ListSize (of_nat (length c)) = of_nat (length (rlp_list c)))"
proof (intro conjI impI)
  have h: "unat (of_nat (headsize n) :: u64) = headsize n"
    using headsize_bounds [of n] by (simp add: unat_of_nat)
  have m: "unat (ListSize n) = (headsize n + unat n) mod 2 ^ 64"
    by (simp add: ListSize_def unat_word_ariths h)
  show "unat (ListSize n) = unat n + headsize n" if "unat n + headsize n < 2 ^ 64"
    using m that by (simp add: add.commute)
  show "unat (ListSize n) = unat n + headsize n - 2 ^ 64" if "2 ^ 64 \<le> unat n + headsize n"
  proof -
    have "headsize n \<le> 9" "unat n < 2 ^ 64" using headsize_bounds [of n] unat_u64 [of n] by simp_all
    then have "headsize n + unat n < 2 ^ 64 + 2 ^ 64" by simp
    then have "headsize n + unat n - 2 ^ 64 < 2 ^ 64" using that by linarith
    then show ?thesis using m that by (simp add: le_mod_geq add.commute)
  qed
  show "ListSize (of_nat (length c)) = of_nat (length (rlp_list c))" if "length c + 9 < 2 ^ 64"
    using that headsize_head [of "length c" "0xC0" "0xF7"] by (simp add: ListSize_def rlp_list_def)
qed

theorem ListSize_bounds_witness:
  "unat (ListSize 0xFFFFFFFFFFFFFFFF) = 8 \<and> ListSize (of_nat (length [0, 0, 0 :: u8])) = 4"
proof -
  let ?m = "0xFFFFFFFFFFFFFFFF :: u64"
  have u: "unat ?m = 2 ^ 64 - 1" by simp
  have "be_bytes (unat ?m) = be_fix 8 (unat ?m)" by (rule be_bytes_fix1) (simp_all add: u)
  then have "intsize ?m = 8" by (simp add: intsize_length be_fix_def del: unsigned_numeral)
  then have "headsize ?m = 9" by (simp add: headsize_def)
  then have "unat (ListSize ?m) = 8" using ListSize_bounds [of ?m "[]"] by simp
  moreover have "ListSize (of_nat (length [0, 0, 0 :: u8])) = 4"
    using ListSize_bounds [of 0 "[0, 0, 0]"] by (simp add: rlp_list_def rlp_head_def)
  ultimately show ?thesis by simp
qed

end
