(* ===== verification/RlpReader.thy ===== *)
theory RlpReader
  imports RlpEncode
begin

text \<open>
  The reader that \<open>EncodeToReader\<close> returns (\<open>rlp/encode.go\<close>). It hands out the encoding in pieces, string
  data or a list header, into buffers whose sizes the caller chooses. The state of the reader stands
  for the bytes that are still to be read, and every read delivers the next bytes of them.
\<close>

section \<open>The reader\<close>

record encReader =
  er_buf :: "encbuf option"
  er_lhpos :: nat
  er_strpos :: nat
  er_piece :: "bytes option"

text \<open>\<open>next\<close>: the next piece, if there is one, and the advanced reader.\<close>

definition encReader_next :: "encReader \<Rightarrow> bytes option \<times> encReader" where
  "encReader_next r =
     (case er_buf r of
        None \<Rightarrow> (None, r)
      | Some w \<Rightarrow>
          (case er_piece r of
             Some p \<Rightarrow> (Some p, r)
           | None \<Rightarrow>
               if er_lhpos r < length (eb_lheads w)
               then (let head = eb_lheads w ! er_lhpos r;
                         sizebefore = lh_offset head - int (er_strpos r)
                     in if 0 < sizebefore
                        then (Some (slice (eb_str w) (er_strpos r) (nat (lh_offset head))),
                              r\<lparr>er_strpos := nat (int (er_strpos r) + sizebefore)\<rparr>)
                        else (Some (listhead_encode head), r\<lparr>er_lhpos := er_lhpos r + 1\<rparr>))
               else if er_strpos r < length (eb_str w)
               then (Some (drop (er_strpos r) (eb_str w)), r\<lparr>er_strpos := length (eb_str w)\<rparr>)
               else (None, r)))"

text \<open>
  \<open>Read\<close> with a buffer of \<open>cap\<close> bytes: the bytes that were read, whether the error is \<open>io.EOF\<close>, and the
  reader. The loop ends only at the end of the data or when a piece does not fit.
\<close>

partial_function (option) Read_loop :: "nat \<Rightarrow> encReader \<Rightarrow> bytes \<Rightarrow> (bytes \<times> bool \<times> encReader) option" where
  "Read_loop cap r acc =
     (case encReader_next r of
        (None, r1) \<Rightarrow> Some (acc, True, r1\<lparr>er_piece := None, er_buf := None\<rparr>)
      | (Some p, r1) \<Rightarrow>
          (let nn = min (cap - length acc) (length p);
               acc1 = acc @ take nn p
           in if nn < length p then Some (acc1, False, r1\<lparr>er_piece := Some (drop nn p)\<rparr>)
              else Read_loop cap (r1\<lparr>er_piece := None\<rparr>) acc1))"

definition encReader_Read :: "nat \<Rightarrow> encReader \<Rightarrow> (bytes \<times> bool \<times> encReader) option" where
  "encReader_Read cap r = Read_loop cap r []"

definition EncodeToReader :: "gval \<Rightarrow> enc_error + int \<times> encReader" where
  "EncodeToReader v =
     (case write_val v encbuf_reset of
        Inl e \<Rightarrow> Inl e
      | Inr w \<Rightarrow> Inr (encbuf_size w, \<lparr>er_buf = Some w, er_lhpos = 0, er_strpos = 0, er_piece = None\<rparr>))"

text \<open>Successive reads into buffers of the given sizes.\<close>

fun reads :: "nat list \<Rightarrow> encReader \<Rightarrow> ((bytes \<times> bool) list) option" where
  "reads [] r = Some []"
| "reads (n # ns) r =
     (case encReader_Read n r of
        None \<Rightarrow> None
      | Some (b, eof, r1) \<Rightarrow> map_option (\<lambda>out. (b, eof) # out) (reads ns r1))"

section \<open>What is still to be read\<close>

definition pending :: "encReader \<Rightarrow> bytes" where
  "pending r =
     (case er_buf r of
        None \<Rightarrow> []
      | Some w \<Rightarrow> (case er_piece r of None \<Rightarrow> [] | Some p \<Rightarrow> p) @
          frag (er_strpos r) (drop (er_strpos r) (eb_str w)) (drop (er_lhpos r) (eb_lheads w)))"

definition reader_inv :: "encReader \<Rightarrow> bool" where
  "reader_inv r \<longleftrightarrow> er_piece r \<noteq> Some [] \<and>
     (case er_buf r of
        None \<Rightarrow> True
      | Some w \<Rightarrow> heads_in (er_strpos r) (length (eb_str w)) (drop (er_lhpos r) (eb_lheads w)))"

lemma listhead_encode_ne: "listhead_encode h \<noteq> []"
  by (simp add: listhead_encode_def puthead_def Let_def)

lemma next_None:
  assumes "encReader_next r = (None, r1)" "reader_inv r"
  shows "pending r = []" "r1 = r"
  using assms by (auto simp: encReader_next_def pending_def reader_inv_def Let_def
      split: option.splits if_splits)

lemma drop_nth_Cons: "i < length xs \<Longrightarrow> drop i xs = xs ! i # drop (i + 1) xs"
  by (simp add: Cons_nth_drop_Suc)

lemma next_Some:
  assumes nxt: "encReader_next r = (Some p, r1)" and inv: "reader_inv r"
  shows "p \<noteq> [] \<and> reader_inv (r1\<lparr>er_piece := None\<rparr>) \<and> er_buf r1 \<noteq> None
     \<and> pending r = p @ pending (r1\<lparr>er_piece := None\<rparr>)"
proof -
  obtain w where w: "er_buf r = Some w" using nxt by (auto simp: encReader_next_def split: option.splits)
  show ?thesis
  proof (cases "er_piece r")
    case (Some q)
    then show ?thesis using nxt inv w by (auto simp: encReader_next_def reader_inv_def pending_def)
  next
    case None
    show ?thesis
    proof (cases "er_lhpos r < length (eb_lheads w)")
      case True
      define h where "h = eb_lheads w ! er_lhpos r"
      have d: "drop (er_lhpos r) (eb_lheads w) = h # drop (er_lhpos r + 1) (eb_lheads w)"
        using True by (simp only: h_def drop_nth_Cons)
      have h: "0 \<le> lh_offset h" "er_strpos r \<le> lh_off h"
        "heads_in (lh_off h) (length (eb_str w)) (drop (er_lhpos r + 1) (eb_lheads w))"
        using inv w d by (auto simp: reader_inv_def)
      have len: "lh_off h \<le> length (eb_str w)" using h(3) by (rule heads_in_le)
      show ?thesis
      proof (cases "int (er_strpos r) < lh_offset h")
        case True
        then have "p = slice (eb_str w) (er_strpos r) (lh_off h)" "r1 = r\<lparr>er_strpos := lh_off h\<rparr>"
          using nxt w None \<open>er_lhpos r < _\<close> by (auto simp: encReader_next_def h_def Let_def)
        moreover from this have "length p = lh_off h - er_strpos r" using h len by simp
        moreover have "er_strpos r < lh_off h" using True by simp
        ultimately show ?thesis using w d h None len True
          by (auto simp: reader_inv_def pending_def slice_def take_drop)
      next
        case False
        then have "lh_off h = er_strpos r" using h by simp
        moreover have "p = listhead_encode h" "r1 = r\<lparr>er_lhpos := er_lhpos r + 1\<rparr>"
          using False nxt w None \<open>er_lhpos r < _\<close> by (auto simp: encReader_next_def h_def Let_def)
        ultimately show ?thesis using w d h None listhead_encode_ne
          by (auto simp: reader_inv_def pending_def)
      qed
    next
      case False
      then have "p = drop (er_strpos r) (eb_str w)" "er_strpos r < length (eb_str w)"
        "r1 = r\<lparr>er_strpos := length (eb_str w)\<rparr>"
        using nxt w None by (auto simp: encReader_next_def split: if_splits)
      then show ?thesis using w None False by (auto simp: reader_inv_def pending_def)
    qed
  qed
qed

section \<open>Reads deliver the pending bytes\<close>

lemma Read_loop_delivers:
  assumes "reader_inv r" "length acc \<le> cap"
  shows "\<exists>r'. Read_loop cap r acc
       = Some (acc @ take (cap - length acc) (pending r), length (pending r) \<le> cap - length acc, r')
     \<and> reader_inv r' \<and> pending r' = drop (cap - length acc) (pending r)"
  using assms
proof (induction "length (pending r)" arbitrary: r acc rule: less_induct)
  case less
  show ?case
  proof (cases "fst (encReader_next r)")
    case None
    then obtain r1 where n: "encReader_next r = (None, r1)" by (cases "encReader_next r") auto
    then show ?thesis using next_None [OF n less.prems(1)] less.prems
      by (subst Read_loop.simps) (auto simp: reader_inv_def pending_def)
  next
    case (Some p)
    then obtain r1 where n: "encReader_next r = (Some p, r1)" by (cases "encReader_next r") auto
    define r2 where "r2 = r1\<lparr>er_piece := None\<rparr>"
    have p: "p \<noteq> []" "reader_inv r2" "pending r = p @ pending r2" "er_buf r1 \<noteq> None"
      using next_Some [OF n less.prems(1)] by (auto simp: r2_def)
    show ?thesis
    proof (cases "cap - length acc < length p")
      case True
      define r3 where "r3 = r1\<lparr>er_piece := Some (drop (cap - length acc) p)\<rparr>"
      have "reader_inv r3" using p(2) True by (auto simp: reader_inv_def r3_def r2_def split: option.splits)
      moreover have "pending r3 = drop (cap - length acc) (pending r)"
        using p(3,4) True by (auto simp: pending_def r3_def r2_def)
      moreover have "Read_loop cap r acc
          = Some (acc @ take (cap - length acc) (pending r), length (pending r) \<le> cap - length acc, r3)"
        using n p(3) True by (subst Read_loop.simps) (simp add: r3_def Let_def min_absorb1)
      ultimately show ?thesis by blast
    next
      case False
      have "length (pending r2) < length (pending r)" "length (acc @ p) \<le> cap"
        using p False less.prems(2) by auto
      then obtain r' where r': "Read_loop cap r2 (acc @ p)
          = Some ((acc @ p) @ take (cap - length (acc @ p)) (pending r2),
                  length (pending r2) \<le> cap - length (acc @ p), r')"
        "reader_inv r'" "pending r' = drop (cap - length (acc @ p)) (pending r2)"
        using less.hyps [of r2 "acc @ p"] p(2) by blast
      have "Read_loop cap r acc = Read_loop cap r2 (acc @ p)"
        using n False by (subst Read_loop.simps) (simp add: Let_def min_absorb2 r2_def)
      moreover have "length (pending r) \<le> cap - length acc \<longleftrightarrow> length (pending r2) \<le> cap - length (acc @ p)"
        using p(3) False by auto
      ultimately show ?thesis using r' p(3) False by (intro exI [of _ r']) simp
    qed
  qed
qed

lemma Read_delivers:
  assumes "reader_inv r"
  obtains r' where "encReader_Read cap r = Some (take cap (pending r), length (pending r) \<le> cap, r')"
    "reader_inv r'" "pending r' = drop cap (pending r)"
  using Read_loop_delivers [OF assms, of "[]" cap] by (auto simp: encReader_Read_def)

lemma reads_deliver:
  assumes "reader_inv r"
  shows "\<exists>out. reads ns r = Some out \<and> concat (map fst out) = take (sum_list ns) (pending r)
     \<and> map snd out = map (\<lambda>i. length (pending r) \<le> sum_list (take (Suc i) ns)) [0..<length ns]"
  using assms
proof (induction ns arbitrary: r)
  case (Cons n ns)
  obtain r' where r': "encReader_Read n r = Some (take n (pending r), length (pending r) \<le> n, r')"
    "reader_inv r'" "pending r' = drop n (pending r)"
    using Read_delivers [OF Cons.prems] .
  obtain out where out: "reads ns r' = Some out" "concat (map fst out) = take (sum_list ns) (pending r')"
    "map snd out = map (\<lambda>i. length (pending r') \<le> sum_list (take (Suc i) ns)) [0..<length ns]"
    using Cons.IH [OF r'(2)] by blast
  have "take (n + sum_list ns) (pending r) = take n (pending r) @ take (sum_list ns) (drop n (pending r))"
    by (simp add: take_add)
  moreover have "map (\<lambda>i. length (pending r) \<le> sum_list (take (Suc i) (n # ns))) [0..<length (n # ns)]
      = (length (pending r) \<le> n) # map (\<lambda>i. length (pending r') \<le> sum_list (take (Suc i) ns)) [0..<length ns]"
    by (simp add: r'(3) upt_conv_Cons le_diff_conv add.commute flip: map_Suc_upt del: upt_Suc)
  ultimately show ?case using r' out by (intro exI [of _ "(take n (pending r), length (pending r) \<le> n) # out"]) simp
qed simp

text \<open>
  Claim C26. Reading the reader of \<open>EncodeToReader\<close> always returns: for any sequence of buffer sizes, each call
  ends, the chunks are the encoding of the value cut at those sizes, the announced size is the length
  of the encoding, and \<open>io.EOF\<close> is reported by exactly the calls that reach or follow its end.
\<close>

theorem reader_delivers:
  assumes "writable v" "length (rlp_val v) < 2 ^ 63"
  shows "\<exists>r out. EncodeToReader v = Inr (int (length (rlp_val v)), r) \<and> reads ns r = Some out
     \<and> concat (map fst out) = take (sum_list ns) (rlp_val v)
     \<and> map snd out = map (\<lambda>i. length (rlp_val v) \<le> sum_list (take (Suc i) ns)) [0..<length ns]"
proof -
  obtain w where w: "write_val v encbuf_reset = Inr w" "appends encbuf_reset w (rlp_val v)"
    using write_val_appends(1) [of v encbuf_reset] assms by auto
  note wf = encbuf_size_frag [OF w(2)]
  define r where "r = \<lparr>er_buf = Some w, er_lhpos = 0, er_strpos = 0, er_piece = None\<rparr>"
  have r: "reader_inv r" "pending r = rlp_val v" using wf by (auto simp: r_def reader_inv_def pending_def)
  moreover have "EncodeToReader v = Inr (int (length (rlp_val v)), r)"
    using w(1) wf(3) by (simp add: EncodeToReader_def r_def)
  ultimately show ?thesis using reads_deliver [OF r(1), of ns] by auto
qed

theorem reader_delivers_witness:
  "\<exists>r out. EncodeToReader (VSlice [VBytes [1, 200]]) = Inr (4, r) \<and> reads [3, 3, 3] r = Some out
     \<and> concat (map fst out) = [0xC3, 0x82, 1, 200] \<and> map snd out = [False, True, True]"
proof -
  let ?v = "VSlice [VBytes [1, 200]]"
  have v: "rlp_val ?v = [0xC3, 0x82, 1, 200]" by (simp add: rlp_list_def rlp_head_def rlp_str_def)
  have "writable ?v" by simp
  moreover have "length (rlp_val ?v) < 2 ^ 63" unfolding v by simp
  ultimately have "\<exists>r out. EncodeToReader ?v = Inr (int (length (rlp_val ?v)), r) \<and> reads [3, 3, 3] r = Some out
     \<and> concat (map fst out) = take (sum_list [3, 3, 3]) (rlp_val ?v)
     \<and> map snd out = map (\<lambda>i. length (rlp_val ?v) \<le> sum_list (take (Suc i) [3, 3, 3])) [0..<length [3, 3, 3::nat]]"
    by (rule reader_delivers)
  then show ?thesis unfolding v by (simp add: upt_conv_Cons)
qed

end
