(* ===== verification/RlpRaw.thy ===== *)
theory RlpRaw
  imports RlpEncode
begin

text \<open>
  Splitting RLP without decoding it (\<open>rlp/raw.go\<close>, \<open>rlp/iterator.go\<close>): the header of the value at the front of a
  byte string, its content and the rest, the number of values, and the iterator over a list. Splitting is the
  exact inverse of the encoding: it succeeds on the canonical encodings only, and returns their content.
\<close>

unbundle bit_operations_syntax

section \<open>Errors\<close>

datatype rlp_error =
    EOL
  | ErrExpectedString
  | ErrExpectedList
  | ErrCanonInt
  | ErrCanonSize
  | ErrElemTooLarge
  | ErrValueTooLarge
  | ErrMoreThanOneValue
  | errNotInList
  | errNotAtEOL
  | errUintOverflow
  | ErrUnexpectedEOF
  | IoEOF
  | InvalidBoolean u64
  | TooFewElements
  | InputStringTooLong
  | InputStringTooShort
  | WrongEmptyKind kind
  | DecodeError rlp_error

section \<open>Splitting\<close>

text \<open>The switch on the number of size bytes.\<close>

definition readSize_switch :: "(nat \<Rightarrow> u64) \<Rightarrow> u8 \<Rightarrow> u64" where
  "readSize_switch u slen =
     (if slen = 1 then u 0
      else if slen = 2 then push_bit 8 (u 0) OR u 1
      else if slen = 3 then push_bit 16 (u 0) OR push_bit 8 (u 1) OR u 2
      else if slen = 4 then push_bit 24 (u 0) OR push_bit 16 (u 1) OR push_bit 8 (u 2) OR u 3
      else if slen = 5 then push_bit 32 (u 0) OR push_bit 24 (u 1) OR push_bit 16 (u 2)
        OR push_bit 8 (u 3) OR u 4
      else if slen = 6 then push_bit 40 (u 0) OR push_bit 32 (u 1) OR push_bit 24 (u 2)
        OR push_bit 16 (u 3) OR push_bit 8 (u 4) OR u 5
      else if slen = 7 then push_bit 48 (u 0) OR push_bit 40 (u 1) OR push_bit 32 (u 2)
        OR push_bit 24 (u 3) OR push_bit 16 (u 4) OR push_bit 8 (u 5) OR u 6
      else if slen = 8 then push_bit 56 (u 0) OR push_bit 48 (u 1) OR push_bit 40 (u 2)
        OR push_bit 32 (u 3) OR push_bit 24 (u 4) OR push_bit 16 (u 5) OR push_bit 8 (u 6) OR u 7
      else 0)"

definition readSize :: "bytes \<Rightarrow> u8 \<Rightarrow> rlp_error + u64" where
  "readSize b slen =
     (if length b < unat slen then Inl ErrUnexpectedEOF
      else
        let s = readSize_switch (\<lambda>i. ucast (b ! i)) slen
        in if s < 56 \<or> b ! 0 = 0 then Inl ErrCanonSize else Inr s)"

definition readKind_raw :: "bytes \<Rightarrow> rlp_error + kind \<times> u64 \<times> u64" where
  "readKind_raw buf =
     (if buf = [] then Inl ErrUnexpectedEOF
      else
        let b = buf ! 0;
            res = (if b < 0x80 then Inr (Byte, 0, 1)
                   else if b < 0xB8 then
                     (let contentsize = (ucast (b - 0x80) :: u64)
                      in if contentsize = 1 \<and> 1 < length buf \<and> buf ! 1 < 128 then Inl ErrCanonSize
                         else Inr (String, 1, contentsize))
                   else if b < 0xC0 then
                     map_sum id (\<lambda>sz. (String, ucast (b - 0xB7) + 1, sz)) (readSize (tl buf) (b - 0xB7))
                   else if b < 0xF8 then Inr (List, 1, ucast (b - 0xC0))
                   else map_sum id (\<lambda>sz. (List, ucast (b - 0xF7) + 1, sz)) (readSize (tl buf) (b - 0xF7)))
        in case res of
             Inl e \<Rightarrow> Inl e
           | Inr (k, tagsize, contentsize) \<Rightarrow>
               if of_nat (length buf) - tagsize < contentsize then Inl ErrValueTooLarge
               else Inr (k, tagsize, contentsize))"

definition Split :: "bytes \<Rightarrow> rlp_error + kind \<times> bytes \<times> bytes" where
  "Split b =
     (case readKind_raw b of
        Inl e \<Rightarrow> Inl e
      | Inr (k, ts, cs) \<Rightarrow> Inr (k, slice b (unat ts) (unat (ts + cs)), drop (unat (ts + cs)) b))"

definition SplitString :: "bytes \<Rightarrow> rlp_error + bytes \<times> bytes" where
  "SplitString b =
     (case Split b of
        Inl e \<Rightarrow> Inl e
      | Inr (k, content, rest) \<Rightarrow> if k = List then Inl ErrExpectedString else Inr (content, rest))"

definition SplitList :: "bytes \<Rightarrow> rlp_error + bytes \<times> bytes" where
  "SplitList b =
     (case Split b of
        Inl e \<Rightarrow> Inl e
      | Inr (k, content, rest) \<Rightarrow> if k \<noteq> List then Inl ErrExpectedList else Inr (content, rest))"

partial_function (option) CountValues_loop :: "bytes \<Rightarrow> nat \<Rightarrow> (rlp_error + nat) option" where
  "CountValues_loop b i =
     (if b = [] then Some (Inr i)
      else (case readKind_raw b of
              Inl e \<Rightarrow> Some (Inl e)
            | Inr (k, tagsize, sz) \<Rightarrow> CountValues_loop (drop (unat (tagsize + sz)) b) (i + 1)))"

definition CountValues :: "bytes \<Rightarrow> (rlp_error + nat) option" where
  "CountValues b = CountValues_loop b 0"

section \<open>The list iterator\<close>

record listIterator =
  it_data :: bytes
  it_next :: bytes
  it_err :: "rlp_error option"

definition NewListIterator :: "bytes \<Rightarrow> rlp_error + listIterator" where
  "NewListIterator data =
     (case readKind_raw data of
        Inl e \<Rightarrow> Inl e
      | Inr (k, t, c) \<Rightarrow>
          if k \<noteq> List then Inl ErrExpectedList
          else Inr \<lparr>it_data = slice data (unat t) (unat (t + c)), it_next = [], it_err = None\<rparr>)"

definition it_Next :: "listIterator \<Rightarrow> bool \<times> listIterator" where
  "it_Next it =
     (if it_data it = [] then (False, it)
      else (case readKind_raw (it_data it) of
              Inl e \<Rightarrow> (True, it\<lparr>it_next := take 0 (it_data it), it_data := drop 0 (it_data it), it_err := Some e\<rparr>)
            | Inr (_, t, c) \<Rightarrow>
                (True, it\<lparr>it_next := take (unat (t + c)) (it_data it),
                         it_data := drop (unat (t + c)) (it_data it), it_err := None\<rparr>)))"

section \<open>Sizes\<close>

fun be_or :: "bytes \<Rightarrow> u64" where
  "be_or [] = 0"
| "be_or (b # bs) = push_bit (8 * length bs) (ucast b) OR be_or bs"

lemma unat_byte: "unat (b :: u8) < 256"
  using unsigned_less [of b] by simp

lemma unat_ucast_byte: "unat (ucast (b :: u8) :: u64) = unat b"
  unfolding unsigned_ucast_eq
  by (rule take_bit_nat_eq_self, rule less_trans [OF unat_byte]) simp

lemma or_shift_byte:
  fixes x :: u64 and b :: u8
  assumes "unat x < 2 ^ k" "k \<le> 56"
  shows "unat (push_bit k (ucast b) OR x) = unat b * 2 ^ k + unat x"
proof -
  have small: "unat b * 2 ^ k < 2 ^ 64"
  proof -
    have "unat b * 2 ^ k < 2 ^ 8 * 2 ^ k" using unsigned_less [of b] by simp
    also have "\<dots> \<le> 2 ^ 8 * 2 ^ 56" using assms(2) by (intro mult_left_mono power_increasing) auto
    finally show ?thesis by simp
  qed
  have p: "unat (push_bit k (ucast b :: u64)) = unat b * 2 ^ k"
    unfolding unsigned_push_bit_eq unat_ucast_byte using small
    by (simp add: push_bit_eq_mult take_bit_nat_eq_self)
  have "unat (push_bit k (ucast b) OR x) = unat (push_bit k (ucast b :: u64)) OR unat x"
    by (simp add: unsigned_or_eq)
  also have "\<dots> = push_bit k (unat b) OR take_bit k (unat x)"
    unfolding p using assms(1) by (simp add: push_bit_eq_mult take_bit_nat_eq_self)
  also have "\<dots> = push_bit k (unat b) + take_bit k (unat x)"
    by (rule disjunctive_add [symmetric]) (auto simp: bit_push_bit_iff bit_take_bit_iff)
  finally show ?thesis using assms(1) by (simp add: push_bit_eq_mult take_bit_nat_eq_self)
qed

lemma unat_be_or: "length bs \<le> 8 \<Longrightarrow> unat (be_or bs) = be_nat bs"
proof (induction bs)
  case (Cons b bs)
  have "be_nat bs < 2 ^ (8 * length bs)" using be_nat_bound [of bs] by (simp add: power_mult)
  then show ?case using Cons or_shift_byte [of "be_or bs" "8 * length bs" b] by (simp add: power_mult)
qed simp

lemma upt_numerals:
  "[0..<2] = [0, 1]" "[0..<3] = [0, 1, 2]" "[0..<4] = [0, 1, 2, 3]" "[0..<5] = [0, 1, 2, 3, 4]"
  "[0..<6] = [0, 1, 2, 3, 4, 5]" "[0..<7] = [0, 1, 2, 3, 4, 5, 6]" "[0..<8] = [0, 1, 2, 3, 4, 5, 6, 7]"
  by (simp_all add: upt_conv_Cons eval_nat_numeral)

lemma readSize_switch_be:
  assumes "unat slen \<le> length b" "1 \<le> unat slen" "unat slen \<le> 8"
  shows "readSize_switch (\<lambda>i. ucast (b ! i)) slen = be_or (take (unat slen) b)"
proof -
  define n where "n = unat slen"
  have sl: "slen = of_nat n" by (simp add: n_def)
  have tk: "take n b = map ((!) b) [0..<n]"
    using assms(1) by (simp add: n_def take_map [symmetric] map_nth list_eq_iff_nth_eq)
  have "n = 1 \<or> n = 2 \<or> n = 3 \<or> n = 4 \<or> n = 5 \<or> n = 6 \<or> n = 7 \<or> n = 8"
    using assms by (simp add: n_def) linarith
  then show ?thesis unfolding n_def [symmetric] tk
    by (elim disjE) (simp_all add: sl readSize_switch_def upt_numerals or.assoc)
qed

text \<open>A size is read as the big-endian number of its bytes, and is refused unless it is minimal.\<close>

lemma readSize_be:
  assumes "unat slen \<le> length b" "1 \<le> unat slen" "unat slen \<le> 8"
  shows "readSize b slen = (if be_nat (take (unat slen) b) < 56 \<or> b ! 0 = 0 then Inl ErrCanonSize
     else Inr (of_nat (be_nat (take (unat slen) b))))"
proof -
  have u: "unat (be_or (take (unat slen) b)) = be_nat (take (unat slen) b)"
    using unat_be_or [of "take (unat slen) b"] assms by simp
  then have "be_or (take (unat slen) b) = of_nat (be_nat (take (unat slen) b))"
    by (metis of_nat_unat ucast_id)
  then show ?thesis
    using u assms(1) by (simp add: readSize_def readSize_switch_be [OF assms] word_less_nat_alt Let_def)
qed

section \<open>Splitting inverts the encoding\<close>

text \<open>The encoding of an item by kind, and the content that each kind may have.\<close>

fun enc_item :: "kind \<Rightarrow> bytes \<Rightarrow> bytes" where
  "enc_item Byte c = c"
| "enc_item String c = rlp_head 0x80 0xB7 (length c) @ c"
| "enc_item List c = rlp_head 0xC0 0xF7 (length c) @ c"

fun item_ok :: "kind \<Rightarrow> bytes \<Rightarrow> bool" where
  "item_ok Byte c = (length c = 1 \<and> c ! 0 < 0x80)"
| "item_ok String c = (\<not> (length c = 1 \<and> c ! 0 < 0x80))"
| "item_ok List c = True"

definition tag_size :: "kind \<Rightarrow> nat \<Rightarrow> nat" where
  "tag_size k n = (if k = Byte then 0 else if n < 56 then 1 else 1 + length (be_bytes n))"

lemma length_enc_item: "length (enc_item k c) = tag_size k (length c) + length c"
  by (cases k) (auto simp: tag_size_def rlp_head_def)

lemma drop_enc_item: "drop (tag_size k (length c)) (enc_item k c @ rest) = c @ rest"
  by (cases k) (auto simp: tag_size_def rlp_head_def)

lemma byte_of_nat: "n < 256 \<Longrightarrow> unat (of_nat n :: u8) = n"
  by (simp add: unat_of_nat)

lemma unat_byte_diff: "c \<le> b \<Longrightarrow> unat ((b :: u8) - c) = unat b - unat c"
  by (simp add: unat_sub_if_size word_le_nat_alt)

lemma tag_bytes:
  assumes "n < 56"
  shows "unat (0x80 + of_nat n :: u8) = 128 + n" "unat (0xC0 + of_nat n :: u8) = 192 + n"
  using assms by (simp_all add: unat_word_ariths unat_of_nat)

lemma large_tag_bytes:
  assumes "n \<le> 8"
  shows "unat (0xB7 + of_nat n :: u8) = 183 + n" "unat (0xF7 + of_nat n :: u8) = 247 + n"
  using assms by (simp_all add: unat_word_ariths unat_of_nat)

lemma unat_u64_of_nat: "n < 2 ^ 64 \<Longrightarrow> unat (of_nat n :: u64) = n"
  by (simp add: unat_of_nat)

lemma u64_room:
  assumes "t \<le> L" "L < 2 ^ 64" "n < 2 ^ 64"
  shows "(of_nat L - of_nat t :: u64) < of_nat n \<longleftrightarrow> L - t < n"
proof -
  have "(of_nat L - of_nat t :: u64) = of_nat (L - t)" using assms(1) by (simp add: of_nat_diff)
  then show ?thesis using assms unat_u64_of_nat [of "L - t"] unat_u64_of_nat [of n] by (simp add: word_less_nat_alt)
qed

lemma ucast_tag:
  assumes "unat (b :: u8) = unat (c :: u8) + n"
  shows "(ucast (b - c) :: u64) = of_nat n" "unat (b - c) = n"
proof -
  show n: "unat (b - c) = n" using assms by (simp add: unat_byte_diff word_le_nat_alt)
  show "(ucast (b - c) :: u64) = of_nat n"
    using unat_ucast_byte [of "b - c"] n by (metis of_nat_unat ucast_id)
qed

lemma length_size_bytes:
  assumes "56 \<le> n" "n < 2 ^ 64"
  shows "1 \<le> length (be_bytes n)" "length (be_bytes n) \<le> 8"
proof -
  show "1 \<le> length (be_bytes n)" using assms(1) be_bytes_ne [of n] by (simp add: Suc_le_eq)
  show "length (be_bytes n) \<le> 8" using assms(2) by (intro be_bytes_length) simp
qed

lemma readSize_be_bytes:
  assumes "56 \<le> n" "n < 2 ^ 64" "unat slen = length (be_bytes n)"
  shows "readSize (be_bytes n @ rest) slen = Inr (of_nat n)"
proof -
  have "be_bytes n ! 0 \<noteq> 0" "be_bytes n \<noteq> []" using assms(1) be_bytes_hd [of n] be_bytes_ne [of n] by auto
  then show ?thesis
    using readSize_be [of slen "be_bytes n @ rest"] length_size_bytes [OF assms(1,2)] assms
    by (simp add: nth_append)
qed

lemma readKind_string:
  assumes "\<not> (length c = 1 \<and> c ! 0 < 0x80)" "length (enc_item String c @ rest) < 2 ^ 64"
  shows "readKind_raw (enc_item String c @ rest) = Inr (String, of_nat (tag_size String (length c)), of_nat (length c))"
proof (cases "length c < 56")
  case True
  define b where "b = (0x80 + of_nat (length c) :: u8)"
  have b: "unat b = unat (0x80 :: u8) + length c" using tag_bytes(1) [OF True] by (simp add: b_def)
  have buf: "enc_item String c @ rest = b # c @ rest" using True by (simp add: rlp_head_def b_def)
  have "of_nat (length c) = (1 :: u64) \<longleftrightarrow> length c = 1"
    using True by (simp add: word_unat_eq_iff unat_of_nat)
  then have "\<not> (ucast (b - 0x80) = (1 :: u64) \<and> 1 < length (b # c @ rest) \<and> (b # c @ rest) ! 1 < 128)"
    using assms(1) ucast_tag(1) [OF b] by (auto simp: nth_append)
  moreover have "\<not> b < 0x80" "b < 0xB8" using b True by (simp_all add: word_less_nat_alt)
  moreover have "\<not> (of_nat (length (b # c @ rest)) - of_nat 1 :: u64) < of_nat (length c)"
    using assms(2) unfolding buf by (subst u64_room) auto
  ultimately show ?thesis unfolding buf readKind_raw_def
    using ucast_tag(1) [OF b] True by (simp add: tag_size_def Let_def)
next
  case False
  then have n: "56 \<le> length c" "length c < 2 ^ 64" using assms(2) by auto
  define L where "L = length (be_bytes (length c))"
  have L: "1 \<le> L" "L \<le> 8" using length_size_bytes [OF n] by (simp_all add: L_def)
  define b where "b = (0xB7 + of_nat L :: u8)"
  have b: "unat b = unat (0xB7 :: u8) + L" using large_tag_bytes(1) [OF L(2)] by (simp add: b_def)
  have buf: "enc_item String c @ rest = b # be_bytes (length c) @ c @ rest"
    using False by (simp add: rlp_head_def b_def L_def)
  have "readSize (be_bytes (length c) @ c @ rest) (b - 0xB7) = Inr (of_nat (length c))"
    using n ucast_tag(2) [OF b] by (intro readSize_be_bytes) (simp_all add: L_def)
  moreover have "\<not> b < 0x80" "\<not> b < 0xB8" "b < 0xC0" using b L by (simp_all add: word_less_nat_alt)
  moreover have "\<not> (of_nat (length (b # be_bytes (length c) @ c @ rest)) - of_nat (L + 1) :: u64) < of_nat (length c)"
    using assms(2) n unfolding buf by (subst u64_room) (auto simp: L_def)
  moreover have "(ucast (b - 0xB7) + 1 :: u64) = of_nat (L + 1)" using ucast_tag(1) [OF b] by simp
  ultimately show ?thesis unfolding buf readKind_raw_def
    using False by (simp add: tag_size_def Let_def L_def [symmetric])
qed

lemma readKind_list:
  assumes "length (enc_item List c @ rest) < 2 ^ 64"
  shows "readKind_raw (enc_item List c @ rest) = Inr (List, of_nat (tag_size List (length c)), of_nat (length c))"
proof (cases "length c < 56")
  case True
  define b where "b = (0xC0 + of_nat (length c) :: u8)"
  have b: "unat b = unat (0xC0 :: u8) + length c" using tag_bytes(2) [OF True] by (simp add: b_def)
  have buf: "enc_item List c @ rest = b # c @ rest" using True by (simp add: rlp_head_def b_def)
  have "\<not> b < 0x80" "\<not> b < 0xB8" "\<not> b < 0xC0" "b < 0xF8" using b True by (simp_all add: word_less_nat_alt)
  moreover have "\<not> (of_nat (length (b # c @ rest)) - of_nat 1 :: u64) < of_nat (length c)"
    using assms unfolding buf by (subst u64_room) auto
  ultimately show ?thesis unfolding buf readKind_raw_def
    using ucast_tag(1) [OF b] True by (simp add: tag_size_def Let_def)
next
  case False
  then have n: "56 \<le> length c" "length c < 2 ^ 64" using assms by auto
  define L where "L = length (be_bytes (length c))"
  have L: "1 \<le> L" "L \<le> 8" using length_size_bytes [OF n] by (simp_all add: L_def)
  define b where "b = (0xF7 + of_nat L :: u8)"
  have b: "unat b = unat (0xF7 :: u8) + L" using large_tag_bytes(2) [OF L(2)] by (simp add: b_def)
  have buf: "enc_item List c @ rest = b # be_bytes (length c) @ c @ rest"
    using False by (simp add: rlp_head_def b_def L_def)
  have "readSize (be_bytes (length c) @ c @ rest) (b - 0xF7) = Inr (of_nat (length c))"
    using n ucast_tag(2) [OF b] by (intro readSize_be_bytes) (simp_all add: L_def)
  moreover have "\<not> b < 0x80" "\<not> b < 0xB8" "\<not> b < 0xC0" "\<not> b < 0xF8" using b L by (simp_all add: word_less_nat_alt)
  moreover have "\<not> (of_nat (length (b # be_bytes (length c) @ c @ rest)) - of_nat (L + 1) :: u64) < of_nat (length c)"
    using assms n unfolding buf by (subst u64_room) (auto simp: L_def)
  moreover have "(ucast (b - 0xF7) + 1 :: u64) = of_nat (L + 1)" using ucast_tag(1) [OF b] by simp
  ultimately show ?thesis unfolding buf readKind_raw_def
    using False by (simp add: tag_size_def Let_def L_def [symmetric])
qed

lemma readKind_complete:
  assumes "item_ok k c" "length (enc_item k c @ rest) < 2 ^ 64"
  shows "readKind_raw (enc_item k c @ rest) = Inr (k, of_nat (tag_size k (length c)), of_nat (length c))"
proof (cases k)
  case Byte
  then obtain x where c: "c = [x]" "x < 0x80" using assms(1) by (cases c) auto
  have "\<not> (of_nat (length (x # rest)) - of_nat 0 :: u64) < of_nat 1"
    using assms(2) Byte c by (subst u64_room) auto
  then show ?thesis using Byte c by (simp add: readKind_raw_def tag_size_def)
next
  case String
  then show ?thesis using assms readKind_string by simp
next
  case List
  then show ?thesis using assms readKind_list by simp
qed

text \<open>Conversely, a header that is accepted is the canonical header of a content that is there.\<close>

lemma take_be_bytes:
  assumes "n \<le> length b" "b ! 0 \<noteq> 0"
  shows "be_bytes (be_nat (take n b)) = take n b"
  using assms by (intro be_bytes_unique) (auto simp: nth_take gr0_conv_Suc)

lemma readSize_sound:
  assumes "readSize b slen = Inr s" "1 \<le> unat slen" "unat slen \<le> 8"
  shows "56 \<le> unat s \<and> take (unat slen) b = be_bytes (unat s) \<and> unat slen = length (be_bytes (unat s))"
proof -
  have len: "unat slen \<le> length b" using assms(1) by (auto simp: readSize_def not_less split: if_splits)
  define n where "n = be_nat (take (unat slen) b)"
  have n: "56 \<le> n" "b ! 0 \<noteq> 0" "s = of_nat n"
    using assms(1) readSize_be [OF len assms(2,3)] by (auto simp: n_def not_less split: if_splits)
  have be: "be_bytes n = take (unat slen) b" using take_be_bytes [OF len n(2)] by (simp add: n_def)
  have "n < 256 ^ length (take (unat slen) b)" unfolding n_def by (rule be_nat_bound)
  also have "\<dots> \<le> 256 ^ 8" using assms(3) by (intro power_increasing) auto
  finally have "unat s = n" using n(3) by (simp add: unat_of_nat)
  then show ?thesis using be n len by simp
qed

lemma map_sum_Inr: "map_sum id g x = Inr y \<longleftrightarrow> (\<exists>z. x = Inr z \<and> y = g z)"
  by (cases x) auto

lemma item_at:
  assumes "\<not> (of_nat (length buf) - ts :: u64) < cs" "unat ts \<le> length buf" "length buf < 2 ^ 64"
  obtains c rest where "buf = take (unat ts) buf @ c @ rest" "length c = unat cs"
proof -
  have "(of_nat (length buf) - ts :: u64) = of_nat (length buf) - of_nat (unat ts)" by simp
  then have "\<not> length buf - unat ts < unat cs"
    using assms u64_room [of "unat ts" "length buf" "unat cs"] unsigned_less [of cs] by simp
  then have "length (take (unat cs) (drop (unat ts) buf)) = unat cs" by simp
  moreover have "buf = take (unat ts) buf @ take (unat cs) (drop (unat ts) buf) @ drop (unat cs) (drop (unat ts) buf)"
    by (simp del: drop_drop)
  ultimately show thesis by (rule that [rotated])
qed

lemma large_sound:
  assumes "readSize (tl buf) (b - c0) = Inr cs" "unat b = unat (c0 :: u8) + L" "1 \<le> L" "L \<le> 8"
    and "buf = b # tl buf" "\<not> (of_nat (length buf) - (ucast (b - c0) + 1) :: u64) < cs" "length buf < 2 ^ 64"
  obtains c rest where "buf = b # be_bytes (length c) @ c @ rest" "length c = unat cs" "56 \<le> length c"
    "L = length (be_bytes (length c))" "unat (ucast (b - c0) + 1 :: u64) = L + 1"
proof -
  have L: "unat (b - c0) = L" using ucast_tag(2) [OF assms(2)] .
  have sz: "56 \<le> unat cs" "take L (tl buf) = be_bytes (unat cs)" "L = length (be_bytes (unat cs))"
    using readSize_sound [OF assms(1)] assms(3,4) L by auto
  have "length (take L (tl buf)) = L" using sz by simp
  then have len: "L + 1 \<le> length buf" using assms(5) by (metis Suc_eq_plus1 Suc_le_mono length_Cons length_take min.cobounded1)
  have ts: "unat (ucast (b - c0) + 1 :: u64) = L + 1"
    using ucast_tag(1) [OF assms(2)] assms(4) by (simp add: unat_word_ariths unat_of_nat)
  obtain c rest where c: "buf = take (L + 1) buf @ c @ rest" "length c = unat cs"
    using item_at [OF assms(6) _ assms(7)] ts len by auto
  have "take (L + 1) buf = b # be_bytes (length c)" using assms(5) sz(2) c(2) by (metis Suc_eq_plus1 take_Suc_Cons)
  then show thesis using that c sz ts by simp
qed

lemma readKind_sound:
  assumes rk: "readKind_raw buf = Inr (k, ts, cs)" and len: "length buf < 2 ^ 64"
  shows "\<exists>c rest. buf = enc_item k c @ rest \<and> item_ok k c \<and> length c = unat cs \<and> tag_size k (length c) = unat ts"
proof -
  obtain b t where buf: "buf = b # t" using rk by (cases buf) (auto simp: readKind_raw_def)
  consider "b < 0x80" | "\<not> b < 0x80" "b < 0xB8" | "\<not> b < 0xB8" "b < 0xC0" | "\<not> b < 0xC0" "b < 0xF8" | "\<not> b < 0xF8"
    by blast
  then show ?thesis
  proof cases
    case 1
    then have "k = Byte" "ts = 0" "cs = 1" using rk buf by (auto simp: readKind_raw_def split: if_splits)
    then show ?thesis using 1 buf by (intro exI [of _ "[b]"] exI [of _ t]) (simp add: tag_size_def)
  next
    case 2
    define n where "n = unat b - 128"
    have b: "unat b = unat (0x80 :: u8) + n" "n < 56" using 2 by (simp_all add: word_less_nat_alt n_def)
    have k: "k = String" "ts = 1" "cs = of_nat n" "\<not> (of_nat (length buf) - ts :: u64) < cs"
      and canon: "\<not> (n = 1 \<and> 1 < length buf \<and> buf ! 1 < 128)"
      using rk 2 buf ucast_tag(1) [OF b(1)] by (auto simp: readKind_raw_def Let_def split: if_splits)
    have cs: "unat cs = n" using k(3) b(2) by (simp add: unat_of_nat)
    obtain c rest where c: "buf = take (unat ts) buf @ c @ rest" "length c = unat cs"
      using item_at [OF k(4) _ len] k(2) buf by auto
    have tag: "b = 0x80 + of_nat n"
      using b tag_bytes(1) [of n] by (simp add: word_unat_eq_iff)
    have "buf = b # c @ rest" using c(1) k(2) buf by simp
    then show ?thesis using k cs c(2) canon b(2) tag
      by (intro exI [of _ c] exI [of _ rest]) (auto simp: rlp_head_def tag_size_def nth_append)
  next
    case 3
    define L where "L = unat b - 183"
    have b: "unat b = unat (0xB7 :: u8) + L" "1 \<le> L" "L \<le> 8" using 3 by (simp_all add: word_less_nat_alt L_def)
    have "\<not> b < 0x80" using 3 by (simp add: word_less_nat_alt)
    then have k: "k = String" "ts = ucast (b - 0xB7) + 1" "readSize (tl buf) (b - 0xB7) = Inr cs"
      "\<not> (of_nat (length buf) - (ucast (b - 0xB7) + 1) :: u64) < cs"
      using rk 3 buf by (auto simp: readKind_raw_def Let_def map_sum_Inr split: if_splits sum.splits)
    have tag: "b = 0xB7 + of_nat L" using b large_tag_bytes(1) [of L] by (simp add: word_unat_eq_iff)
    obtain c rest where "buf = b # be_bytes (length c) @ c @ rest" "length c = unat cs" "56 \<le> length c"
      "L = length (be_bytes (length c))" "unat ts = L + 1"
      using large_sound [OF k(3) b _ k(4) len] buf k(2) by auto
    then show ?thesis using k(1) tag
      by (intro exI [of _ c] exI [of _ rest]) (auto simp: rlp_head_def tag_size_def)
  next
    case 4
    define n where "n = unat b - 192"
    have b: "unat b = unat (0xC0 :: u8) + n" "n < 56" using 4 by (simp_all add: word_less_nat_alt n_def)
    have "\<not> b < 0x80" "\<not> b < 0xB8" using 4 by (simp_all add: word_less_nat_alt)
    then have k: "k = List" "ts = 1" "cs = of_nat n" "\<not> (of_nat (length buf) - ts :: u64) < cs"
      using rk 4 buf ucast_tag(1) [OF b(1)] by (auto simp: readKind_raw_def Let_def split: if_splits)
    have cs: "unat cs = n" using k(3) b(2) by (simp add: unat_of_nat)
    obtain c rest where c: "buf = take (unat ts) buf @ c @ rest" "length c = unat cs"
      using item_at [OF k(4) _ len] k(2) buf by auto
    have tag: "b = 0xC0 + of_nat n" using b tag_bytes(2) [of n] by (simp add: word_unat_eq_iff)
    have "buf = b # c @ rest" using c(1) k(2) buf by simp
    then show ?thesis using k cs c(2) b(2) tag
      by (intro exI [of _ c] exI [of _ rest]) (auto simp: rlp_head_def tag_size_def)
  next
    case 5
    define L where "L = unat b - 247"
    have ub: "247 < unat b" "unat b < 256" using 5 unat_byte [of b] by (simp_all add: word_less_nat_alt)
    then have b: "unat b = unat (0xF7 :: u8) + L" "1 \<le> L" by (simp_all add: L_def)
    have L8: "L \<le> 8" using ub unfolding L_def by linarith
    have "\<not> b < 0x80" "\<not> b < 0xB8" "\<not> b < 0xC0" using 5 by (simp_all add: word_less_nat_alt)
    then have k: "k = List" "ts = ucast (b - 0xF7) + 1" "readSize (tl buf) (b - 0xF7) = Inr cs"
      "\<not> (of_nat (length buf) - (ucast (b - 0xF7) + 1) :: u64) < cs"
      using rk 5 buf by (auto simp: readKind_raw_def Let_def map_sum_Inr split: if_splits sum.splits)
    have tag: "b = 0xF7 + of_nat L" using b L8 large_tag_bytes(2) [of L] by (simp add: word_unat_eq_iff)
    obtain c rest where "buf = b # be_bytes (length c) @ c @ rest" "length c = unat cs" "56 \<le> length c"
      "L = length (be_bytes (length c))" "unat ts = L + 1"
      using large_sound [OF k(3) b L8 _ k(4) len] buf k(2) by auto
    then show ?thesis using k(1) tag
      by (intro exI [of _ c] exI [of _ rest]) (auto simp: rlp_head_def tag_size_def)
  qed
qed

section \<open>What splitting computes\<close>

lemma Split_complete:
  assumes "item_ok k c" "length (enc_item k c @ rest) < 2 ^ 64"
  shows "Split (enc_item k c @ rest) = Inr (k, c, rest)"
proof -
  have len: "tag_size k (length c) + length c < 2 ^ 64" using assms(2) by (simp add: length_enc_item)
  have "(of_nat (tag_size k (length c)) + of_nat (length c) :: u64) = of_nat (tag_size k (length c) + length c)"
    by simp
  then have u: "unat (of_nat (tag_size k (length c)) + of_nat (length c) :: u64) = tag_size k (length c) + length c"
    "unat (of_nat (tag_size k (length c)) :: u64) = tag_size k (length c)"
    using len unat_u64_of_nat by (simp_all only:)
  have "slice (enc_item k c @ rest) (tag_size k (length c)) (tag_size k (length c) + length c)
      = take (length c) (drop (tag_size k (length c)) (enc_item k c @ rest))"
    by (simp add: slice_def take_drop add.commute)
  moreover have "drop (tag_size k (length c) + length c) (enc_item k c @ rest) = rest"
    by (metis append_eq_conv_conj length_enc_item)
  ultimately show ?thesis
    unfolding Split_def readKind_complete [OF assms] by (simp only: sum.case prod.case u drop_enc_item) simp
qed

lemma Split_sound:
  assumes "Split b = Inr (k, c, rest)" "length b < 2 ^ 64"
  shows "b = enc_item k c @ rest \<and> item_ok k c"
proof -
  obtain k' ts cs where rk: "readKind_raw b = Inr (k', ts, cs)"
    using assms(1) by (auto simp: Split_def split: sum.splits)
  then obtain c' rest' where c: "b = enc_item k' c' @ rest'" "item_ok k' c'"
    using readKind_sound [OF rk] assms(2) by auto
  then have "Split b = Inr (k', c', rest')" using Split_complete [OF c(2)] assms(2) by simp
  then show ?thesis using assms(1) c by simp
qed

text \<open>
  Claim C27. \<open>Split\<close> is the exact inverse of the encoding: it returns kind, content and rest precisely when the
  input is the canonical encoding of an item of that kind with that content, followed by the rest.
\<close>

theorem Split_iff:
  assumes "length b < 2 ^ 63"
  shows "Split b = Inr (k, c, rest) \<longleftrightarrow> b = enc_item k c @ rest \<and> item_ok k c"
  using Split_sound [of b k c rest] Split_complete [of k c rest] assms by auto

theorem Split_iff_witness:
  "Split [0xC2, 0x01, 0x02, 0x80] = Inr (List, [0x01, 0x02], [0x80])"
  using Split_iff [of "[0xC2, 0x01, 0x02, 0x80]" List "[0x01, 0x02]" "[0x80]"] by (simp add: rlp_head_def)

text \<open>A sequence of items, and counting it.\<close>

definition enc_items :: "(kind \<times> bytes) list \<Rightarrow> bytes" where
  "enc_items is = concat (map (\<lambda>(k, c). enc_item k c) is)"

definition items_ok :: "(kind \<times> bytes) list \<Rightarrow> bool" where
  "items_ok is \<longleftrightarrow> list_all (\<lambda>(k, c). item_ok k c) is"

lemma enc_item_ne: "item_ok k c \<Longrightarrow> enc_item k c \<noteq> []"
  by (cases k) (auto simp: rlp_head_def)

lemma readKind_rest:
  assumes rk: "readKind_raw b = Inr (k, ts, cs)" and len: "length b < 2 ^ 64"
  obtains c where "b = enc_item k c @ drop (unat (ts + cs)) b" "item_ok k c"
proof -
  obtain c rest where c: "b = enc_item k c @ rest" "item_ok k c" using readKind_sound [OF rk len] by auto
  have "Split b = Inr (k, c, rest)" using Split_complete [OF c(2), of rest] c(1) len by simp
  then have "rest = drop (unat (ts + cs)) b" using rk by (simp add: Split_def)
  then show thesis using that c by simp
qed

lemma CountValues_loop_total:
  assumes "length b < 2 ^ 64"
  shows "(\<exists>is. CountValues_loop b i = Some (Inr (i + length is)) \<and> items_ok is \<and> b = enc_items is)
     \<or> (\<exists>e is rest. CountValues_loop b i = Some (Inl e) \<and> items_ok is \<and> b = enc_items is @ rest
          \<and> readKind_raw rest = Inl e)"
  using assms
proof (induction "length b" arbitrary: b i rule: less_induct)
  case less
  show ?case
  proof (cases "b = []")
    case True
    then show ?thesis
      by (intro disjI1 exI [of _ "[]"]) (simp add: CountValues_loop.simps items_ok_def enc_items_def)
  next
    case False
    show ?thesis
    proof (cases "readKind_raw b")
      case (Inl e)
      then show ?thesis using False
        by (intro disjI2 exI [of _ e] exI [of _ "[]"] exI [of _ b])
          (simp add: CountValues_loop.simps [of b] items_ok_def enc_items_def)
    next
      case (Inr y)
      obtain k ts cs where y: "y = (k, ts, cs)" by (rule prod_cases3)
      define rest where "rest = drop (unat (ts + cs)) b"
      obtain c where c: "b = enc_item k c @ rest" "item_ok k c"
        using readKind_rest Inr y less.prems unfolding rest_def by blast
      have loop: "CountValues_loop b i = CountValues_loop rest (i + 1)"
        using False Inr y by (simp add: CountValues_loop.simps [of b] rest_def)
      have short: "length rest < length b" "length rest < 2 ^ 64"
        using c enc_item_ne [OF c(2)] less.prems by auto
      show ?thesis
        using less.hyps [OF short(1) short(2), of "i + 1"]
      proof (elim disjE exE conjE)
        fix "is" assume "CountValues_loop rest (i + 1) = Some (Inr (i + 1 + length is))" "items_ok is" "rest = enc_items is"
        then show ?thesis unfolding loop using c
          by (intro disjI1 exI [of _ "(k, c) # is"]) (simp add: items_ok_def enc_items_def)
      next
        fix e "is" r assume "CountValues_loop rest (i + 1) = Some (Inl e)" "items_ok is" "rest = enc_items is @ r"
          "readKind_raw r = Inl e"
        then show ?thesis unfolding loop using c
          by (intro disjI2 exI [of _ e] exI [of _ "(k, c) # is"] exI [of _ r]) (simp add: items_ok_def enc_items_def)
      qed
    qed
  qed
qed



section \<open>Iterating over a list\<close>

text \<open>The values of the first calls of \<open>Next\<close> that return true.\<close>

fun it_collect :: "nat \<Rightarrow> listIterator \<Rightarrow> bytes list \<times> listIterator" where
  "it_collect 0 it = ([], it)"
| "it_collect (Suc n) it =
     (case it_Next it of
        (False, it1) \<Rightarrow> ([], it1)
      | (True, it1) \<Rightarrow> (case it_collect n it1 of (vs, it2) \<Rightarrow> (it_next it1 # vs, it2)))"

lemma it_Next_item:
  assumes "it_data it = enc_item k c @ rest" "item_ok k c" "length (it_data it) < 2 ^ 64"
  shows "it_Next it = (True, it\<lparr>it_next := enc_item k c, it_data := rest, it_err := None\<rparr>)"
proof -
  have rk: "readKind_raw (it_data it) = Inr (k, of_nat (tag_size k (length c)), of_nat (length c))"
    using readKind_complete assms by simp
  have "unat (of_nat (tag_size k (length c)) + of_nat (length c) :: u64) = tag_size k (length c) + length c"
    using unat_u64_of_nat [of "tag_size k (length c) + length c"] assms(1,3) by (simp add: length_enc_item)
  then have u: "unat (of_nat (tag_size k (length c)) + of_nat (length c) :: u64) = length (enc_item k c)"
    by (simp add: length_enc_item)
  have "it_data it \<noteq> []" using assms enc_item_ne by simp
  then show ?thesis unfolding it_Next_def rk by (simp only: if_False sum.case prod.case u assms(1)) simp
qed

lemma it_collect_items:
  assumes "items_ok is" "it_data it = enc_items is" "length (it_data it) < 2 ^ 64" "it_err it = None"
  shows "\<exists>it'. it_collect (length is + m) it = (map (\<lambda>(k, c). enc_item k c) is, it') \<and> it_data it' = [] \<and> it_err it' = None"
  using assms
proof (induction "is" arbitrary: it)
  case Nil
  then show ?case by (cases m) (auto simp: enc_items_def it_Next_def)
next
  case (Cons i "is")
  obtain k c where i: "i = (k, c)" by fastforce
  define it1 where "it1 = it\<lparr>it_next := enc_item k c, it_data := enc_items is, it_err := None\<rparr>"
  have "it_Next it = (True, it1)"
    using it_Next_item [of it k c "enc_items is"] Cons.prems i by (simp add: items_ok_def enc_items_def it1_def)
  moreover obtain it' where "it_collect (length is + m) it1 = (map (\<lambda>(k, c). enc_item k c) is, it')"
    "it_data it' = []" "it_err it' = None"
    using Cons.IH [of it1] Cons.prems i by (auto simp: items_ok_def enc_items_def it1_def)
  ultimately show ?case by (simp add: i it1_def)
qed

text \<open>
  Claim C29. Iterating over an encoded list gives the encoded elements in order, and then reports the end
  without an error.
\<close>

theorem iterator_elements:
  assumes "items_ok is" "length (enc_item List (enc_items is) @ junk) < 2 ^ 63"
  shows "\<exists>it it'. NewListIterator (enc_item List (enc_items is) @ junk) = Inr it
     \<and> it_collect (length is) it = (map (\<lambda>(k, c). enc_item k c) is, it')
     \<and> it_Next it' = (False, it') \<and> it_err it' = None"
proof -
  define b where "b = enc_item List (enc_items is) @ junk"
  have sp: "Split b = Inr (List, enc_items is, junk)"
    unfolding b_def using assms(2) by (intro Split_complete) simp_all
  then obtain ts cs where rk: "readKind_raw b = Inr (List, ts, cs)"
    "slice b (unat ts) (unat (ts + cs)) = enc_items is"
    by (auto simp: Split_def split: sum.splits)
  define it where "it = \<lparr>it_data = enc_items is, it_next = [], it_err = None\<rparr>"
  have "NewListIterator b = Inr it" using rk by (simp add: NewListIterator_def it_def)
  moreover obtain it' where it': "it_collect (length is + 0) it = (map (\<lambda>(k, c). enc_item k c) is, it')"
    "it_data it' = []" "it_err it' = None"
    using it_collect_items [of "is" it 0] assms by (auto simp: it_def)
  moreover have "it_Next it' = (False, it')" using it'(2) by (simp add: it_Next_def)
  ultimately show ?thesis unfolding b_def by auto
qed

theorem iterator_elements_witness:
  "\<exists>it it'. NewListIterator [0xC4, 0x01, 0x82, 0xC8, 0xC9] = Inr it
     \<and> it_collect (Suc (Suc 0)) it = ([[0x01], [0x82, 0xC8, 0xC9]], it') \<and> it_Next it' = (False, it') \<and> it_err it' = None"
  using iterator_elements [of "[(Byte, [0x01]), (String, [0xC8, 0xC9])]" "[]"]
  by (simp add: items_ok_def enc_items_def rlp_head_def word_less_nat_alt)

end
