(* ===== verification/RlpStream.thy ===== *)
theory RlpStream
  imports RlpRaw
begin

text \<open>
  The decoding stream (\<open>rlp/decode.go\<close>) over a \<open>bytes.Reader\<close>: the input that is left, the limit, the cached kind
  of the next value, and the stack of open lists with the position in each. The lemmas say, for every
  operation, which encoding it consumes when it succeeds, and that it succeeds on such an encoding.
\<close>

section \<open>The stream\<close>

record listpos =
  lp_pos :: u64
  lp_size :: u64

text \<open>
  The unread input stands for the reader. The innermost list is the first of the stack. A cached kind
  below zero is \<open>None\<close>.
\<close>

record rstream =
  st_in :: bytes
  st_remaining :: u64
  st_limited :: bool
  st_kind :: "kind option"
  st_size :: u64
  st_byteval :: u8
  st_kinderr :: "rlp_error option"
  st_stack :: "listpos list"

text \<open>\<open>Reset\<close> on a \<open>bytes.Reader\<close>: a limit of zero is replaced by the length of the data.\<close>

definition Stream_Reset :: "bytes \<Rightarrow> u64 \<Rightarrow> rstream" where
  "Stream_Reset r inputLimit =
     \<lparr>st_in = r, st_remaining = (if 0 < inputLimit then inputLimit else of_nat (length r)), st_limited = True,
      st_kind = None, st_size = 0, st_byteval = 0, st_kinderr = None, st_stack = []\<rparr>"

definition NewListStream :: "bytes \<Rightarrow> u64 \<Rightarrow> rstream" where
  "NewListStream r len = (Stream_Reset r len)\<lparr>st_kind := Some List, st_size := len\<rparr>"

text \<open>The result of an operation and the next state; the second operation runs only after success.\<close>

definition st_bind ::
  "(rlp_error + 'a) \<times> rstream \<Rightarrow> ('a \<Rightarrow> rstream \<Rightarrow> (rlp_error + 'b) \<times> rstream) \<Rightarrow> (rlp_error + 'b) \<times> rstream" where
  "st_bind r f = (case r of (Inl e, s) \<Rightarrow> (Inl e, s) | (Inr x, s) \<Rightarrow> f x s)"

definition willRead :: "u64 \<Rightarrow> rstream \<Rightarrow> (rlp_error + unit) \<times> rstream" where
  "willRead n s =
     (let s1 = s\<lparr>st_kind := None\<rparr>;
          limit = (\<lambda>s. if st_limited s
                       then if st_remaining s < n then (Inl ErrValueTooLarge, s)
                            else (Inr (), s\<lparr>st_remaining := st_remaining s - n\<rparr>)
                       else (Inr (), s))
      in case st_stack s1 of
           [] \<Rightarrow> limit s1
         | tos # below \<Rightarrow>
             if lp_size tos - lp_pos tos < n then (Inl ErrElemTooLarge, s1)
             else limit (s1\<lparr>st_stack := tos\<lparr>lp_pos := lp_pos tos + n\<rparr> # below\<rparr>))"

definition readByte :: "rstream \<Rightarrow> (rlp_error + u8) \<times> rstream" where
  "readByte s =
     st_bind (willRead 1 s) (\<lambda>_ s.
       case st_in s of [] \<Rightarrow> (Inl ErrUnexpectedEOF, s) | b # bs \<Rightarrow> (Inr b, s\<lparr>st_in := bs\<rparr>))"

text \<open>The loop of \<open>readFull\<close>: \<open>n\<close> bytes are missing, the reader gives what it has, or \<open>io.EOF\<close>.\<close>

function readFull_loop :: "nat \<Rightarrow> bytes \<Rightarrow> bytes \<Rightarrow> (rlp_error + bytes) \<times> bytes" where
  "readFull_loop n inp acc =
     (if n = 0 then (Inr acc, inp)
      else if inp = [] then (Inl ErrUnexpectedEOF, [])
      else readFull_loop (n - length (take n inp)) (drop n inp) (acc @ take n inp))"
  by pat_completeness auto
termination by (relation "measure (\<lambda>(n, inp, acc). n)") auto

declare readFull_loop.simps [simp del]

definition readFull :: "u64 \<Rightarrow> rstream \<Rightarrow> (rlp_error + bytes) \<times> rstream" where
  "readFull n s =
     st_bind (willRead n s) (\<lambda>_ s.
       case readFull_loop (unat n) (st_in s) [] of (r, inp) \<Rightarrow> (r, s\<lparr>st_in := inp\<rparr>))"

text \<open>\<open>readUint\<close> of at most eight bytes, in a buffer of eight bytes that starts with zeros.\<close>

definition readUint :: "u8 \<Rightarrow> rstream \<Rightarrow> (rlp_error + u64) \<times> rstream" where
  "readUint sz s =
     (if sz = 0 then (Inr 0, s\<lparr>st_kind := None\<rparr>)
      else if sz = 1 then st_bind (readByte s) (\<lambda>b s. (Inr (ucast b), s))
      else
        let start = unat (8 - sz)
        in st_bind (readFull (of_nat (8 - start)) s) (\<lambda>b s.
             if b ! 0 = 0 then (Inl ErrCanonSize, s)
             else (Inr (of_nat (be_nat (replicate start 0 @ b))), s)))"

text \<open>\<open>readKind\<close> returns a kind and a size also with an error; they are cached.\<close>

definition sized_kind :: "kind \<Rightarrow> (rlp_error + u64) \<times> rstream \<Rightarrow> (kind \<times> u64 \<times> rlp_error option) \<times> rstream" where
  "sized_kind k r =
     (case r of
        (Inl e, s) \<Rightarrow> ((k, 0, Some e), s)
      | (Inr sz, s) \<Rightarrow> ((k, sz, if sz < 56 then Some ErrCanonSize else None), s))"

definition Stream_readKind :: "rstream \<Rightarrow> (kind \<times> u64 \<times> rlp_error option) \<times> rstream" where
  "Stream_readKind s =
     (case readByte s of
        (Inl e, s1) \<Rightarrow>
          ((Byte, 0, Some (if st_stack s1 = [] \<and> (e = ErrUnexpectedEOF \<or> e = ErrValueTooLarge) then IoEOF else e)), s1)
      | (Inr b, s1) \<Rightarrow>
          (let s2 = s1\<lparr>st_byteval := 0\<rparr>
           in if b < 0x80 then ((Byte, 0, None), s2\<lparr>st_byteval := b\<rparr>)
              else if b < 0xB8 then ((String, ucast (b - 0x80), None), s2)
              else if b < 0xC0 then sized_kind String (readUint (b - 0xB7) s2)
              else if b < 0xF8 then ((List, ucast (b - 0xC0), None), s2)
              else sized_kind List (readUint (b - 0xF7) s2)))"

definition kind_check :: "rstream \<Rightarrow> u64 \<Rightarrow> rlp_error option" where
  "kind_check s sz =
     (case st_stack s of
        [] \<Rightarrow> if st_limited s \<and> st_remaining s < sz then Some ErrValueTooLarge else None
      | tos # _ \<Rightarrow> if lp_size tos - lp_pos tos < sz then Some ErrElemTooLarge else None)"

definition at_eol :: "rstream \<Rightarrow> bool" where
  "at_eol s = (case st_stack s of [] \<Rightarrow> False | tos # _ \<Rightarrow> lp_pos tos = lp_size tos)"

definition Stream_Kind :: "rstream \<Rightarrow> (rlp_error + kind \<times> u64) \<times> rstream" where
  "Stream_Kind s =
     (case st_kind s of
        None \<Rightarrow>
          (let s0 = s\<lparr>st_kinderr := None\<rparr>
           in if at_eol s0 then (Inl EOL, s0)
              else (case Stream_readKind s0 of
                      ((k, sz, err), s1) \<Rightarrow>
                        (let err1 = (if err = None then kind_check s1 sz else err);
                             s2 = s1\<lparr>st_kind := Some k, st_size := sz, st_kinderr := err1\<rparr>
                         in (case err1 of None \<Rightarrow> (Inr (k, sz), s2) | Some e \<Rightarrow> (Inl e, s2)))))
      | Some k \<Rightarrow> (case st_kinderr s of None \<Rightarrow> (Inr (k, st_size s), s) | Some e \<Rightarrow> (Inl e, s)))"

section \<open>Reading values\<close>

definition Stream_Bytes :: "rstream \<Rightarrow> (rlp_error + bytes) \<times> rstream" where
  "Stream_Bytes s =
     st_bind (Stream_Kind s) (\<lambda>(k, sz) s.
       case k of
         Byte \<Rightarrow> (Inr [st_byteval s], s\<lparr>st_kind := None\<rparr>)
       | String \<Rightarrow> st_bind (readFull sz s) (\<lambda>b s.
           if sz = 1 \<and> b ! 0 < 128 then (Inl ErrCanonSize, s) else (Inr b, s))
       | List \<Rightarrow> (Inl ErrExpectedString, s))"

definition Stream_Raw :: "rstream \<Rightarrow> (rlp_error + bytes) \<times> rstream" where
  "Stream_Raw s =
     st_bind (Stream_Kind s) (\<lambda>(k, sz) s.
       if k = Byte then (Inr [st_byteval s], s\<lparr>st_kind := None\<rparr>)
       else st_bind (readFull sz s) (\<lambda>b s.
         (Inr ((if k = String then puthead 0x80 0xB7 sz else puthead 0xC0 0xF7 sz) @ b), s)))"

definition Stream_uint :: "nat \<Rightarrow> rstream \<Rightarrow> (rlp_error + u64) \<times> rstream" where
  "Stream_uint maxbits s =
     st_bind (Stream_Kind s) (\<lambda>(k, sz) s.
       case k of
         Byte \<Rightarrow> if st_byteval s = 0 then (Inl ErrCanonInt, s)
                 else (Inr (ucast (st_byteval s)), s\<lparr>st_kind := None\<rparr>)
       | String \<Rightarrow>
           if of_nat (maxbits div 8) < sz then (Inl errUintOverflow, s)
           else (case readUint (ucast sz) s of
                   (Inl e, s1) \<Rightarrow> (Inl (if e = ErrCanonSize then ErrCanonInt else e), s1)
                 | (Inr v, s1) \<Rightarrow> if 0 < sz \<and> v < 128 then (Inl ErrCanonSize, s1) else (Inr v, s1))
       | List \<Rightarrow> (Inl ErrExpectedString, s))"

definition Stream_Uint :: "rstream \<Rightarrow> (rlp_error + u64) \<times> rstream" where
  "Stream_Uint s = Stream_uint 64 s"

definition Stream_Bool :: "rstream \<Rightarrow> (rlp_error + bool) \<times> rstream" where
  "Stream_Bool s =
     st_bind (Stream_uint 8 s) (\<lambda>num s.
       if num = 0 then (Inr False, s) else if num = 1 then (Inr True, s) else (Inl (InvalidBoolean num), s))"

definition Stream_List :: "rstream \<Rightarrow> (rlp_error + u64) \<times> rstream" where
  "Stream_List s =
     st_bind (Stream_Kind s) (\<lambda>(k, sz) s.
       if k \<noteq> List then (Inl ErrExpectedList, s)
       else (Inr sz, s\<lparr>st_stack := \<lparr>lp_pos = 0, lp_size = sz\<rparr> # st_stack s, st_kind := None, st_size := 0\<rparr>))"

definition Stream_ListEnd :: "rstream \<Rightarrow> (rlp_error + unit) \<times> rstream" where
  "Stream_ListEnd s =
     (case st_stack s of
        [] \<Rightarrow> (Inl errNotInList, s)
      | tos # below \<Rightarrow>
          if lp_pos tos \<noteq> lp_size tos then (Inl errNotAtEOL, s)
          else (Inr (), s\<lparr>st_stack := (case below of [] \<Rightarrow> [] | p # rest \<Rightarrow> p\<lparr>lp_pos := lp_pos p + lp_size tos\<rparr> # rest),
                         st_kind := None, st_size := 0\<rparr>))"

section \<open>Streams in good order\<close>

text \<open>
  The limit counts the unread input and the position in every open list is within it. \<open>room\<close> is the number
  of bytes that may still be read in the innermost list.
\<close>

definition core :: "rstream \<Rightarrow> bool" where
  "core s \<longleftrightarrow> st_limited s \<and> unat (st_remaining s) = length (st_in s) \<and>
     list_all (\<lambda>lp. lp_pos lp \<le> lp_size lp) (st_stack s)"

definition ready :: "rstream \<Rightarrow> bool" where
  "ready s \<longleftrightarrow> core s \<and> st_kind s = None"

definition room :: "rstream \<Rightarrow> nat" where
  "room s = (case st_stack s of [] \<Rightarrow> length (st_in s) | tos # _ \<Rightarrow> unat (lp_size tos) - unat (lp_pos tos))"

fun bump :: "nat \<Rightarrow> listpos list \<Rightarrow> listpos list" where
  "bump n [] = []"
| "bump n (tos # below) = tos\<lparr>lp_pos := lp_pos tos + of_nat n\<rparr> # below"

text \<open>\<open>took s s' e\<close>: the bytes \<open>e\<close> were read, inside the innermost list.\<close>

definition took :: "rstream \<Rightarrow> rstream \<Rightarrow> bytes \<Rightarrow> bool" where
  "took s s' e \<longleftrightarrow> core s' \<and> st_in s = e @ st_in s' \<and> length e \<le> room s \<and>
     st_stack s' = bump (length e) (st_stack s)"

definition consumes :: "rstream \<Rightarrow> rstream \<Rightarrow> bytes \<Rightarrow> bool" where
  "consumes s s' e \<longleftrightarrow> took s s' e \<and> st_kind s' = None"

lemma listpos_eqI: "lp_pos a = lp_pos b \<Longrightarrow> lp_size a = lp_size b \<Longrightarrow> a = (b :: listpos)"
  by (cases a; cases b) simp

lemma bump_0 [simp]: "bump 0 st = st"
  by (cases st) (auto intro: listpos_eqI)

lemma bump_bump [simp]: "bump m (bump n st) = bump (n + m) st"
  by (cases st) (auto simp: algebra_simps)

lemma bump_eq_Nil [simp]: "bump n st = [] \<longleftrightarrow> st = []"
  by (cases st) auto

lemma u64_sub: "(a :: u64) \<le> b \<Longrightarrow> unat (b - a) = unat b - unat a"
  by (simp add: unat_sub_if_size word_le_nat_alt)

lemma u64_add_le:
  assumes "(a :: u64) \<le> b" "n \<le> unat b - unat a"
  shows "a + of_nat n \<le> b" "unat (a + of_nat n) = unat a + n"
proof -
  have "unat a + n \<le> unat b" using assms by (simp add: word_le_nat_alt)
  moreover have "unat b < 2 ^ 64" using unsigned_less [of b] by simp
  ultimately have n: "unat a + n < 2 ^ 64" by linarith
  then have "unat (of_nat n :: u64) = n" by (simp add: unat_of_nat)
  then show u: "unat (a + of_nat n) = unat a + n" using n by (simp add: unat_word_ariths)
  show "a + of_nat n \<le> b" using \<open>unat a + n \<le> unat b\<close> by (simp add: word_le_nat_alt u)
qed

lemma took_room: "core s \<Longrightarrow> took s s' e \<Longrightarrow> room s' = room s - length e"
  by (cases "st_stack s") (auto simp: took_def room_def core_def u64_add_le)

lemma took_core: "took s s' e \<Longrightarrow> core s'"
  by (simp add: took_def)

lemma took_refl: "core s \<Longrightarrow> took s s []"
  by (simp add: took_def)

lemma took_trans:
  assumes "core s" "took s s1 a" "took s1 s2 b"
  shows "took s s2 (a @ b)"
  using assms took_room [OF assms(1,2)] by (auto simp: took_def)

lemma took_len: "took s s' e \<Longrightarrow> length (st_in s') + length e = length (st_in s)"
  by (simp add: took_def)

lemma consumes_ready: "consumes s s' e \<Longrightarrow> ready s'"
  by (simp add: consumes_def took_def ready_def)

lemma consumes_trans: "ready s \<Longrightarrow> consumes s s1 a \<Longrightarrow> consumes s1 s2 b \<Longrightarrow> consumes s s2 (a @ b)"
  using took_trans by (auto simp: consumes_def ready_def)

lemma ready_Reset:
  assumes "length b < 2 ^ 64"
  shows "ready (Stream_Reset b (of_nat (length b)))" "room (Stream_Reset b (of_nat (length b))) = length b"
    "st_in (Stream_Reset b (of_nat (length b))) = b"
  using assms unat_u64_of_nat [OF assms]
  by (simp_all add: ready_def core_def Stream_Reset_def room_def)

section \<open>Reading bytes\<close>

lemma willRead_cases:
  assumes "core s"
  shows "if unat n \<le> room s \<and> unat n \<le> length (st_in s)
    then \<exists>s'. willRead n s = (Inr (), s') \<and> st_in s' = st_in s \<and> st_stack s' = bump (unat n) (st_stack s)
      \<and> st_kind s' = None \<and> st_limited s' \<and> unat (st_remaining s') = length (st_in s) - unat n
      \<and> st_byteval s' = st_byteval s
    else \<exists>e s'. willRead n s = (Inl e, s')"
proof -
  have r: "st_limited s" "st_remaining s < n \<longleftrightarrow> length (st_in s) < unat n"
    using assms by (simp_all add: core_def word_less_nat_alt)
  have rem: "unat n \<le> length (st_in s) \<Longrightarrow> unat (st_remaining s - n) = length (st_in s) - unat n"
    using assms u64_sub [of n "st_remaining s"] by (simp add: core_def word_le_nat_alt)
  show ?thesis
  proof (cases "st_stack s")
    case Nil
    then show ?thesis using r rem by (auto simp: willRead_def room_def Let_def)
  next
    case (Cons tos below)
    have "lp_pos tos \<le> lp_size tos" using assms Cons by (simp add: core_def)
    then have "lp_size tos - lp_pos tos < n \<longleftrightarrow> room s < unat n"
      using Cons u64_sub by (simp add: room_def word_less_nat_alt)
    then show ?thesis using Cons r rem by (auto simp: willRead_def Let_def)
  qed
qed

lemma core_bump:
  assumes "core s" "n \<le> room s" "st_limited s'" "unat (st_remaining s') = length (st_in s')"
    "st_stack s' = bump n (st_stack s)"
  shows "core s'"
  using assms by (cases "st_stack s") (auto simp: core_def room_def u64_add_le)

lemma readFull_loop_enough: "n \<le> length inp \<Longrightarrow> readFull_loop n inp acc = (Inr (acc @ take n inp), drop n inp)"
proof (cases "n = 0")
  case False
  moreover assume "n \<le> length inp"
  ultimately show ?thesis
    by (subst readFull_loop.simps) (auto simp: readFull_loop.simps [of 0])
qed (simp add: readFull_loop.simps)

lemma readFull_cases:
  assumes "core s"
  shows "if unat n \<le> room s \<and> unat n \<le> length (st_in s)
    then \<exists>s'. readFull n s = (Inr (take (unat n) (st_in s)), s') \<and> consumes s s' (take (unat n) (st_in s))
      \<and> st_byteval s' = st_byteval s
    else \<exists>e s'. readFull n s = (Inl e, s')"
proof (cases "unat n \<le> room s \<and> unat n \<le> length (st_in s)")
  case True
  then obtain s1 where s1: "willRead n s = (Inr (), s1)" "st_in s1 = st_in s" "st_stack s1 = bump (unat n) (st_stack s)"
    "st_kind s1 = None" "st_limited s1" "unat (st_remaining s1) = length (st_in s) - unat n" "st_byteval s1 = st_byteval s"
    using willRead_cases [OF assms, of n] by auto
  define s' where "s' = s1\<lparr>st_in := drop (unat n) (st_in s)\<rparr>"
  have "core s'" using core_bump [OF assms, of "unat n" s'] True s1 by (simp add: s'_def)
  then have "consumes s s' (take (unat n) (st_in s))"
    using True s1 by (simp add: consumes_def took_def s'_def min_absorb2)
  moreover have "readFull n s = (Inr (take (unat n) (st_in s)), s')"
    using True s1 by (simp add: readFull_def st_bind_def readFull_loop_enough s'_def)
  ultimately show ?thesis using True s1 by (auto simp: s'_def)
next
  case False
  then obtain e s' where "willRead n s = (Inl e, s')" using willRead_cases [OF assms, of n] by auto
  then show ?thesis using False by (auto simp: readFull_def st_bind_def)
qed

lemma readByte_cases:
  assumes "core s"
  shows "if 1 \<le> room s \<and> st_in s \<noteq> []
    then \<exists>s'. readByte s = (Inr (hd (st_in s)), s') \<and> consumes s s' [hd (st_in s)] \<and> st_byteval s' = st_byteval s
    else \<exists>e s'. readByte s = (Inl e, s')"
proof (cases "1 \<le> room s \<and> st_in s \<noteq> []")
  case True
  then have "unat (1 :: u64) \<le> room s \<and> unat (1 :: u64) \<le> length (st_in s)" by (simp add: Suc_le_eq)
  then obtain s1 where s1: "willRead 1 s = (Inr (), s1)" "st_in s1 = st_in s" "st_stack s1 = bump 1 (st_stack s)"
    "st_kind s1 = None" "st_limited s1" "unat (st_remaining s1) = length (st_in s) - 1" "st_byteval s1 = st_byteval s"
    using willRead_cases [OF assms, of 1] by auto
  define s' where "s' = s1\<lparr>st_in := tl (st_in s)\<rparr>"
  have "core s'" using core_bump [OF assms, of 1 s'] True s1 by (simp add: s'_def)
  then have "consumes s s' [hd (st_in s)]" using True s1 by (simp add: consumes_def took_def s'_def)
  moreover have "readByte s = (Inr (hd (st_in s)), s')"
    using True s1 by (cases "st_in s") (simp_all add: readByte_def st_bind_def s'_def)
  ultimately show ?thesis using True s1 by (auto simp: s'_def)
next
  case False
  then have "\<not> (unat (1 :: u64) \<le> room s \<and> unat (1 :: u64) \<le> length (st_in s))" by (auto simp: Suc_le_eq)
  then obtain e s' where "willRead 1 s = (Inl e, s')" using willRead_cases [OF assms, of 1] by (auto split: if_splits)
  then show ?thesis using False by (auto simp: readByte_def st_bind_def)
qed

section \<open>The kind of the next value\<close>

lemma cache_fields [simp]:
  "core (s\<lparr>st_kinderr := e\<rparr>) = core s" "core (s\<lparr>st_kind := k\<rparr>) = core s" "core (s\<lparr>st_size := z\<rparr>) = core s"
  "core (s\<lparr>st_byteval := b\<rparr>) = core s"
  "room (s\<lparr>st_kinderr := e\<rparr>) = room s" "room (s\<lparr>st_kind := k\<rparr>) = room s" "room (s\<lparr>st_size := z\<rparr>) = room s"
  "room (s\<lparr>st_byteval := b\<rparr>) = room s"
  "took (s\<lparr>st_kinderr := e\<rparr>) s' x = took s s' x"
  "took s (s'\<lparr>st_kinderr := e\<rparr>) x = took s s' x" "took s (s'\<lparr>st_kind := k\<rparr>) x = took s s' x"
  "took s (s'\<lparr>st_size := z\<rparr>) x = took s s' x" "took s (s'\<lparr>st_byteval := b\<rparr>) x = took s s' x"
  by (simp_all add: core_def room_def took_def split: list.split)

lemma readUint_cases:
  assumes "core s" "1 \<le> unat z" "unat z \<le> 8"
  shows "if unat z \<le> room s \<and> unat z \<le> length (st_in s) \<and> (2 \<le> unat z \<longrightarrow> st_in s ! 0 \<noteq> 0)
    then \<exists>s'. readUint z s = (Inr (of_nat (be_nat (take (unat z) (st_in s)))), s')
      \<and> consumes s s' (take (unat z) (st_in s))
    else \<exists>e s'. readUint z s = (Inl e, s')"
proof (cases "unat z = 1")
  case True
  then have z: "z = 1" by (simp add: word_unat_eq_iff)
  show ?thesis
  proof (cases "1 \<le> room s \<and> st_in s \<noteq> []")
    case ok: True
    then obtain b bs where inp: "st_in s = b # bs" by (cases "st_in s") auto
    obtain s' where "readByte s = (Inr b, s')" "consumes s s' [b]"
      using readByte_cases [OF assms(1)] ok inp by auto
    then show ?thesis using z ok inp by (simp add: readUint_def st_bind_def)
  next
    case False
    then obtain e s' where "readByte s = (Inl e, s')" using readByte_cases [OF assms(1)] by (auto split: if_splits)
    moreover have "\<not> (unat z \<le> room s \<and> unat z \<le> length (st_in s))" using False z by (auto simp: Suc_le_eq)
    ultimately show ?thesis using z by (auto simp: readUint_def st_bind_def)
  qed
next
  case False
  have "z \<le> 8" using assms(3) by (simp add: word_le_nat_alt)
  then have st: "unat (8 - z) = 8 - unat z" by (simp add: unat_byte_diff)
  have n: "unat (of_nat (8 - (8 - unat z)) :: u64) = unat z" using assms(3) by (simp add: unat_ucast_byte)
  have z: "z \<noteq> 0" "z \<noteq> 1" using assms(2) False by (auto simp: word_unat_eq_iff)
  have be: "be_nat (replicate m 0 @ bs) = be_nat bs" for m bs by (rule be_nat_replicate_0)
  define rf where "rf = readFull (of_nat (8 - (8 - unat z))) s"
  have ru: "readUint z s = st_bind rf (\<lambda>b s. if b ! 0 = 0 then (Inl ErrCanonSize, s) else (Inr (of_nat (be_nat b)), s))"
    unfolding readUint_def rf_def Let_def st be using z by simp
  note rf = readFull_cases [OF assms(1), of "of_nat (8 - (8 - unat z))", unfolded n rf_def [symmetric]]
  show ?thesis
  proof (cases "unat z \<le> room s \<and> unat z \<le> length (st_in s)")
    case True
    then obtain s' where s': "rf = (Inr (take (unat z) (st_in s)), s')" "consumes s s' (take (unat z) (st_in s))"
      using rf by auto
    have "take (unat z) (st_in s) ! 0 = st_in s ! 0" using assms(2) by simp
    then show ?thesis using True False assms(2) s' ru by (auto simp: st_bind_def)
  next
    case no: False
    then obtain e s' where "rf = (Inl e, s')" using rf by auto
    then show ?thesis using no ru by (auto simp: st_bind_def)
  qed
qed

text \<open>The header of a value, and what is known once the kind has been read.\<close>

fun khead :: "kind \<Rightarrow> u64 \<Rightarrow> u8 \<Rightarrow> bytes" where
  "khead Byte sz b = [b]"
| "khead String sz b = rlp_head 0x80 0xB7 (unat sz)"
| "khead List sz b = rlp_head 0xC0 0xF7 (unat sz)"

definition kinded :: "rstream \<Rightarrow> rstream \<Rightarrow> kind \<Rightarrow> u64 \<Rightarrow> bool" where
  "kinded s s1 k sz \<longleftrightarrow> took s s1 (khead k sz (st_byteval s1)) \<and> unat sz \<le> room s1 \<and>
     st_kind s1 = Some k \<and> st_kinderr s1 = None \<and> st_size s1 = sz \<and> (k = Byte \<longrightarrow> st_byteval s1 < 0x80 \<and> sz = 0)"

text \<open>Reading the header alone.\<close>

definition headed :: "rstream \<Rightarrow> rstream \<Rightarrow> kind \<Rightarrow> u64 \<Rightarrow> bool" where
  "headed s s1 k sz \<longleftrightarrow> took s s1 (khead k sz (st_byteval s1)) \<and> (k = Byte \<longrightarrow> st_byteval s1 < 0x80 \<and> sz = 0)"

lemma sized_sound:
  assumes "core s2" "unat (b :: u8) = unat c0 + L" "1 \<le> L" "L \<le> 8"
    and "sized_kind k (readUint (b - c0) s2) = ((k', sz, None), s3)"
  shows "k' = k \<and> took s2 s3 (be_bytes (unat sz)) \<and> 56 \<le> unat sz \<and> L = length (be_bytes (unat sz))"
proof -
  have z: "unat (b - c0) = L" using ucast_tag(2) [OF assms(2)] .
  obtain v where v: "readUint (b - c0) s2 = (Inr v, s3)" "k' = k" "sz = v" "\<not> v < 56"
    using assms(5) by (auto simp: sized_kind_def split: prod.splits sum.splits if_splits)
  define bs where "bs = take L (st_in s2)"
  have ok: "L \<le> room s2" "L \<le> length (st_in s2)" "2 \<le> L \<longrightarrow> st_in s2 ! 0 \<noteq> 0"
    and s3: "v = of_nat (be_nat bs)" "consumes s2 s3 bs"
    using readUint_cases [OF assms(1), of "b - c0"] z v(1) assms(3,4) by (auto simp: bs_def split: if_splits)
  have len: "length bs = L" using ok by (simp add: bs_def)
  have "be_nat bs < 256 ^ L" using be_nat_bound [of bs] len by simp
  also have "\<dots> \<le> 256 ^ 8" using assms(4) by (intro power_increasing) auto
  finally have u: "unat v = be_nat bs" using s3(1) by (simp add: unat_of_nat)
  have big: "56 \<le> be_nat bs" using v(4) u by (simp add: word_less_nat_alt)
  have "bs ! 0 \<noteq> 0"
  proof (cases "2 \<le> L")
    case True
    then show ?thesis using ok(3) assms(3) by (simp add: bs_def)
  next
    case False
    then have "length bs = 1" using len assms(3) by simp
    then show ?thesis using big by (cases bs) auto
  qed
  then have "be_bytes (be_nat bs) = bs" by (intro be_bytes_unique) simp
  then show ?thesis using v s3(2) u big len by (simp add: consumes_def)
qed

lemma readKind_stream_sound:
  assumes "core s" "Stream_readKind s = ((k, sz, None), s1)"
  shows "headed s s1 k sz"
proof -
  obtain b s0 where b: "readByte s = (Inr b, s0)"
    using assms(2) by (auto simp: Stream_readKind_def split: prod.splits sum.splits)
  have s0: "took s s0 [b]" using readByte_cases [OF assms(1)] b by (auto simp: consumes_def split: if_splits)
  define s2 where "s2 = s0\<lparr>st_byteval := 0\<rparr>"
  have s2: "took s s2 [b]" "core s2" using s0 by (simp_all add: s2_def took_core)
  consider "b < 0x80" | "\<not> b < 0x80" "b < 0xB8" | "\<not> b < 0xB8" "b < 0xC0" | "\<not> b < 0xC0" "b < 0xF8" | "\<not> b < 0xF8"
    by blast
  then show ?thesis
  proof cases
    case 1
    then have "k = Byte" "sz = 0" "s1 = s2\<lparr>st_byteval := b\<rparr>"
      using assms(2) b by (simp_all add: Stream_readKind_def s2_def)
    then show ?thesis using 1 s2 by (simp add: headed_def)
  next
    case 2
    define n where "n = unat b - 128"
    have ub: "unat b = unat (0x80 :: u8) + n" "n < 56" using 2 by (simp_all add: word_less_nat_alt n_def)
    have k: "k = String" "sz = of_nat n" "s1 = s2"
      using assms(2) b 2 ucast_tag(1) [OF ub(1)] by (simp_all add: Stream_readKind_def s2_def)
    have "b = 0x80 + of_nat n" using ub tag_bytes(1) [of n] by (simp add: word_unat_eq_iff)
    moreover have "unat sz = n" using k ub by (simp add: unat_of_nat)
    ultimately show ?thesis using s2 k ub by (simp add: headed_def rlp_head_def)
  next
    case 3
    define L where "L = unat b - 183"
    have ub: "unat b = unat (0xB7 :: u8) + L" "1 \<le> L" "L \<le> 8" using 3 by (simp_all add: word_less_nat_alt L_def)
    have "\<not> b < 0x80" using 3 by (simp add: word_less_nat_alt)
    then have "sized_kind String (readUint (b - 0xB7) s2) = ((k, sz, None), s1)"
      using assms(2) b 3 by (simp add: Stream_readKind_def s2_def Let_def)
    from sized_sound [OF s2(2) ub this] have r: "k = String" "took s2 s1 (be_bytes (unat sz))" "56 \<le> unat sz"
      "L = length (be_bytes (unat sz))" by auto
    have "b = 0xB7 + of_nat L" using ub large_tag_bytes(1) [of L] by (simp add: word_unat_eq_iff)
    then show ?thesis using r took_trans [OF assms(1) s2(1) r(2)] by (simp add: headed_def rlp_head_def)
  next
    case 4
    define n where "n = unat b - 192"
    have ub: "unat b = unat (0xC0 :: u8) + n" "n < 56" using 4 by (simp_all add: word_less_nat_alt n_def)
    have "\<not> b < 0x80" "\<not> b < 0xB8" using 4 by (simp_all add: word_less_nat_alt)
    then have k: "k = List" "sz = of_nat n" "s1 = s2"
      using assms(2) b 4 ucast_tag(1) [OF ub(1)] by (simp_all add: Stream_readKind_def s2_def)
    have "b = 0xC0 + of_nat n" using ub tag_bytes(2) [of n] by (simp add: word_unat_eq_iff)
    moreover have "unat sz = n" using k ub by (simp add: unat_of_nat)
    ultimately show ?thesis using s2 k ub by (simp add: headed_def rlp_head_def)
  next
    case 5
    define L where "L = unat b - 247"
    have lb: "247 < unat b" "unat b < 256" using 5 unat_byte [of b] by (simp_all add: word_less_nat_alt)
    then have ub: "unat b = unat (0xF7 :: u8) + L" "1 \<le> L" by (simp_all add: L_def)
    have L8: "L \<le> 8" using lb unfolding L_def by linarith
    have "\<not> b < 0x80" "\<not> b < 0xB8" "\<not> b < 0xC0" using 5 by (simp_all add: word_less_nat_alt)
    then have "sized_kind List (readUint (b - 0xF7) s2) = ((k, sz, None), s1)"
      using assms(2) b 5 by (simp add: Stream_readKind_def s2_def Let_def)
    from sized_sound [OF s2(2) ub L8 this] have r: "k = List" "took s2 s1 (be_bytes (unat sz))" "56 \<le> unat sz"
      "L = length (be_bytes (unat sz))" by auto
    have "b = 0xF7 + of_nat L" using ub L8 large_tag_bytes(2) [of L] by (simp add: word_unat_eq_iff)
    then show ?thesis using r took_trans [OF assms(1) s2(1) r(2)] by (simp add: headed_def rlp_head_def)
  qed
qed

lemma kind_check_room:
  assumes "core s"
  shows "kind_check s sz = None \<longleftrightarrow> unat sz \<le> room s"
proof (cases "st_stack s")
  case Nil
  then show ?thesis using assms by (auto simp: kind_check_def room_def core_def word_less_nat_alt)
next
  case (Cons tos below)
  then have "lp_pos tos \<le> lp_size tos" using assms by (simp add: core_def)
  then show ?thesis using Cons u64_sub by (auto simp: kind_check_def room_def word_less_nat_alt)
qed

lemma Kind_sound:
  assumes "ready s" "Stream_Kind s = (Inr (k, sz), s1)"
  shows "kinded s s1 k sz"
proof -
  define s0 where "s0 = s\<lparr>st_kinderr := None\<rparr>"
  have c: "core s0" "st_kind s = None" using assms(1) by (simp_all add: ready_def s0_def)
  obtain r s2 where rk: "Stream_readKind s0 = (r, s2)" by fastforce
  obtain k' sz' err where r: "r = (k', sz', err)" by (rule prod_cases3)
  have k: "err = None" "kind_check s2 sz' = None" "k' = k" "sz' = sz"
    "s1 = s2\<lparr>st_kind := Some k, st_size := sz, st_kinderr := None\<rparr>"
    using assms(2) c(2) rk r by (auto simp: Stream_Kind_def s0_def [symmetric] Let_def split: if_splits option.splits)
  then have h: "headed s0 s2 k sz" using readKind_stream_sound [OF c(1)] rk r by simp
  then have "core s2" using took_core unfolding headed_def by blast
  then have "unat sz \<le> room s2" using kind_check_room k by simp
  then show ?thesis using h k by (simp add: kinded_def headed_def s0_def)
qed

text \<open>Conversely, every header that fits is read.\<close>

lemma readByte_ok:
  assumes "core s" "st_in s = b # bs" "1 \<le> room s"
  obtains s0 where "readByte s = (Inr b, s0)" "took s s0 [b]" "core s0" "st_in s0 = bs" "room s0 = room s - 1"
proof -
  obtain s0 where s0: "readByte s = (Inr b, s0)" "took s s0 [b]"
    using readByte_cases [OF assms(1)] assms(2,3) by (auto simp: consumes_def)
  have "core s0" "room s0 = room s - 1" "st_in s0 = bs"
    using took_core [OF s0(2)] took_room [OF assms(1) s0(2)] s0(2) assms(2) by (simp_all add: took_def)
  then show thesis using that s0 by blast
qed

lemma sized_complete:
  assumes "core s2" "unat (b :: u8) = unat c0 + length (be_bytes (unat sz))" "56 \<le> unat sz"
    and "st_in s2 = be_bytes (unat sz) @ rest" "length (be_bytes (unat sz)) \<le> room s2"
  shows "\<exists>s3. sized_kind k (readUint (b - c0) s2) = ((k, sz, None), s3)"
proof -
  have z: "unat (b - c0) = length (be_bytes (unat sz))" using ucast_tag(2) [OF assms(2)] .
  have "unat sz < 2 ^ 64" using unsigned_less [of sz] by simp
  then have L: "1 \<le> length (be_bytes (unat sz))" "length (be_bytes (unat sz)) \<le> 8"
    using length_size_bytes [OF assms(3)] by auto
  have "st_in s2 ! 0 \<noteq> 0"
    using assms(3,4) be_bytes_hd [of "unat sz"] be_bytes_ne [of "unat sz"] by (simp add: nth_append)
  moreover have "take (unat (b - c0)) (st_in s2) = be_bytes (unat sz)" unfolding z assms(4) by simp
  moreover have "unat (b - c0) \<le> room s2" "unat (b - c0) \<le> length (st_in s2)" unfolding z using assms(4,5) by simp_all
  ultimately obtain s3 where "readUint (b - c0) s2 = (Inr (of_nat (be_nat (be_bytes (unat sz)))), s3)"
    using readUint_cases [OF assms(1), of "b - c0"] L unfolding z by (simp only: simp_thms if_True) blast
  then have "readUint (b - c0) s2 = (Inr sz, s3)" by simp
  then show ?thesis using assms(3) by (simp add: sized_kind_def word_less_nat_alt)
qed

lemma headed_small:
  assumes "core s" "st_in s = c # rest" "1 \<le> room s" "n < 56"
    and "k = String \<and> unat c = 128 + n \<or> k = List \<and> unat c = 192 + n"
  shows "\<exists>s1. Stream_readKind s = ((k, of_nat n, None), s1)"
proof -
  obtain s0 where s0: "readByte s = (Inr c, s0)" using readByte_ok [OF assms(1-3)] by auto
  from assms(5) show ?thesis
  proof (elim disjE conjE)
    assume k: "k = String" and c: "unat c = 128 + n"
    have "(ucast (c - 0x80) :: u64) = of_nat n" by (rule ucast_tag(1)) (use c in simp)
    moreover have "\<not> c < 0x80" "c < 0xB8" using c assms(4) by (simp_all add: word_less_nat_alt)
    ultimately show ?thesis using s0 k by (simp add: Stream_readKind_def Let_def)
  next
    assume k: "k = List" and c: "unat c = 192 + n"
    have "(ucast (c - 0xC0) :: u64) = of_nat n" by (rule ucast_tag(1)) (use c in simp)
    moreover have "\<not> c < 0x80" "\<not> c < 0xB8" "\<not> c < 0xC0" "c < 0xF8" using c assms(4) by (simp_all add: word_less_nat_alt)
    ultimately show ?thesis using s0 k by (simp add: Stream_readKind_def Let_def)
  qed
qed

lemma headed_large:
  assumes "core s" "st_in s = c # be_bytes n @ rest" "1 + length (be_bytes n) \<le> room s" "56 \<le> n" "n < 2 ^ 64"
    and "k = String \<and> unat c = 183 + length (be_bytes n) \<or> k = List \<and> unat c = 247 + length (be_bytes n)"
  shows "\<exists>s1. Stream_readKind s = ((k, of_nat n, None), s1)"
proof -
  obtain s0 where s0: "readByte s = (Inr c, s0)" "core s0" "st_in s0 = be_bytes n @ rest" "room s0 = room s - 1"
    using readByte_ok [OF assms(1,2)] assms(3) by auto
  have u: "unat (of_nat n :: u64) = n" using assms(5) by (rule unat_u64_of_nat)
  have sk: "\<exists>s3. sized_kind k (readUint (c - c0) (s0\<lparr>st_byteval := 0\<rparr>)) = ((k, of_nat n, None), s3)"
    if "unat c = unat c0 + length (be_bytes n)" for c0
    by (rule sized_complete [where sz = "of_nat n" and rest = rest, unfolded u, OF _ that])
      (use s0 assms(3,4) in simp_all)
  have L: "1 \<le> length (be_bytes n)" "length (be_bytes n) \<le> 8" using length_size_bytes [OF assms(4,5)] .
  have ne: "be_bytes n \<noteq> []" using assms(4) by (intro be_bytes_ne) simp
  from assms(6) show ?thesis
  proof (elim disjE conjE)
    assume k: "k = String" and c: "unat c = 183 + length (be_bytes n)"
    have "\<not> c < 0x80" "\<not> c < 0xB8" "c < 0xC0" using c L ne by (simp_all add: word_less_nat_alt)
    then show ?thesis using s0(1) sk [of "0xB7"] c k by (simp add: Stream_readKind_def Let_def)
  next
    assume k: "k = List" and c: "unat c = 247 + length (be_bytes n)"
    have "\<not> c < 0x80" "\<not> c < 0xB8" "\<not> c < 0xC0" "\<not> c < 0xF8" using c L ne by (simp_all add: word_less_nat_alt)
    then show ?thesis using s0(1) sk [of "0xF7"] c k by (simp add: Stream_readKind_def Let_def)
  qed
qed

lemma rlp_head_read:
  assumes "core s" "st_in s = rlp_head small large n @ rest" "length (rlp_head small large n) \<le> room s" "n < 2 ^ 64"
    and "k = String \<and> small = 0x80 \<and> large = 0xB7 \<or> k = List \<and> small = 0xC0 \<and> large = 0xF7"
  shows "\<exists>s1. Stream_readKind s = ((k, of_nat n, None), s1)"
proof (cases "n < 56")
  case True
  have "st_in s = (small + of_nat n) # rest" "1 \<le> room s" using assms(2,3) True by (simp_all add: rlp_head_def)
  then show ?thesis by (rule headed_small [OF assms(1) _ _ True]) (use assms(5) tag_bytes [OF True] in auto)
next
  case False
  have L: "length (be_bytes n) \<le> 8" using length_size_bytes [of n] False assms(4) by simp
  have "st_in s = (large + of_nat (length (be_bytes n))) # be_bytes n @ rest" "1 + length (be_bytes n) \<le> room s"
    using assms(2,3) False by (simp_all add: rlp_head_def)
  then show ?thesis
    by (rule headed_large [OF assms(1) _ _ _ assms(4)]) (use False assms(5) large_tag_bytes [OF L] in auto)
qed

lemma readKind_stream_complete:
  assumes "core s" "st_in s = khead k sz b @ rest" "k = Byte \<longrightarrow> b < 0x80 \<and> sz = 0" "length (khead k sz b) \<le> room s"
  shows "\<exists>s1. Stream_readKind s = ((k, sz, None), s1)"
proof -
  have usz: "unat sz < 2 ^ 64" and sz: "of_nat (unat sz) = sz" using unsigned_less [of sz] by simp_all
  show ?thesis
  proof (cases k)
    case Byte
    then obtain s0 where "readByte s = (Inr b, s0)" using readByte_ok [OF assms(1), of b rest] assms by auto
    then show ?thesis using Byte assms(3) by (simp add: Stream_readKind_def Let_def)
  next
    case String
    show ?thesis unfolding String
      by (rule rlp_head_read [OF assms(1), of "0x80" "0xB7" "unat sz" rest String, unfolded sz])
        (use assms(2,4) String usz in simp_all)
  next
    case List
    show ?thesis unfolding List
      by (rule rlp_head_read [OF assms(1), of "0xC0" "0xF7" "unat sz" rest List, unfolded sz])
        (use assms(2,4) List usz in simp_all)
  qed
qed

lemma at_eol_room: "core s \<Longrightarrow> 0 < room s \<Longrightarrow> \<not> at_eol s"
  by (auto simp: at_eol_def room_def split: list.splits)

lemma Kind_complete:
  assumes "ready s" "st_in s = khead k sz b @ rest" "k = Byte \<longrightarrow> b < 0x80 \<and> sz = 0"
    and "length (khead k sz b) + unat sz \<le> room s"
  obtains s1 where "Stream_Kind s = (Inr (k, sz), s1)" "kinded s s1 k sz" "st_in s1 = rest" "k = Byte \<longrightarrow> st_byteval s1 = b"
proof -
  define s0 where "s0 = s\<lparr>st_kinderr := None\<rparr>"
  have c: "core s0" "st_kind s = None" using assms(1) by (simp_all add: ready_def s0_def)
  obtain s2 where rk: "Stream_readKind s0 = ((k, sz, None), s2)"
    using readKind_stream_complete [OF c(1), of k sz b rest] assms(2-4) by (auto simp: s0_def)
  have h: "headed s0 s2 k sz" using readKind_stream_sound [OF c(1) rk] .
  have t: "took s0 s2 (khead k sz (st_byteval s2))" "core s2" using h took_core unfolding headed_def by blast+
  have len: "length (khead k sz (st_byteval s2)) = length (khead k sz b)" by (cases k) auto
  have "room s2 = room s0 - length (khead k sz b)" using took_room [OF c(1) t(1)] len by simp
  then have "unat sz \<le> room s2" using assms(4) by (simp add: s0_def)
  then have chk: "kind_check s2 sz = None" using kind_check_room t(2) by simp
  have "0 < length (khead k sz b)" by (cases k) (auto simp: rlp_head_def)
  then have "0 < room s" using assms(4) by linarith
  then have "0 < room s0" by (simp add: s0_def)
  then have "\<not> at_eol s0" by (rule at_eol_room [OF c(1)])
  then obtain s1 where s1: "Stream_Kind s = (Inr (k, sz), s1)" "st_in s1 = st_in s2" "st_byteval s1 = st_byteval s2"
    using rk chk c(2) by (auto simp: Stream_Kind_def s0_def [symmetric] Let_def)
  have "st_in s0 = khead k sz (st_byteval s2) @ st_in s2" using t(1) by (simp add: took_def)
  then have "khead k sz (st_byteval s2) = khead k sz b" "st_in s2 = rest"
    using assms(2) len by (auto simp: s0_def)
  then show thesis using that [OF s1(1) Kind_sound [OF assms(1) s1(1)]] s1 by (cases k) auto
qed

lemma Kind_cached: "kinded s s1 k sz \<Longrightarrow> Stream_Kind s1 = (Inr (k, sz), s1)"
  by (simp add: kinded_def Stream_Kind_def)

lemma kinded_core: "kinded s s1 k sz \<Longrightarrow> core s1"
  unfolding kinded_def using took_core by blast

lemma kinded_room: "kinded s s1 k sz \<Longrightarrow> unat sz \<le> room s1"
  by (simp add: kinded_def)

lemma Kind_eol:
  assumes "ready s" "at_eol s"
  shows "Stream_Kind s = (Inl EOL, s\<lparr>st_kinderr := None\<rparr>)"
  using assms by (simp add: Stream_Kind_def ready_def at_eol_def)

lemma core_length: "core s \<Longrightarrow> length (st_in s) < 2 ^ 64"
  using unat_u64 [of "st_remaining s"] by (simp add: core_def)

section \<open>Strings and integers\<close>

lemma readFull_sound:
  assumes "core s" "readFull n s = (Inr b, s')"
  shows "consumes s s' b" "length b = unat n"
  using readFull_cases [OF assms(1), of n] assms(2) by (auto split: if_splits)

lemma readFull_complete:
  assumes "core s" "st_in s = b @ rest" "length b = unat n" "unat n \<le> room s"
  shows "\<exists>s'. readFull n s = (Inr b, s')"
  using readFull_cases [OF assms(1), of n] assms by auto

lemma Bytes_sound:
  assumes "ready s" "Stream_Bytes s = (Inr b, s')"
  shows "consumes s s' (rlp_str b)"
proof -
  obtain k sz s1 where k: "Stream_Kind s = (Inr (k, sz), s1)"
    using assms(2) by (auto simp: Stream_Bytes_def st_bind_def split: prod.splits sum.splits)
  have ki: "kinded s s1 k sz" using Kind_sound [OF assms(1) k] .
  show ?thesis
  proof (cases k)
    case Byte
    then have "b = [st_byteval s1]" "s' = s1\<lparr>st_kind := None\<rparr>"
      using assms(2) k by (simp_all add: Stream_Bytes_def st_bind_def)
    then show ?thesis using ki Byte by (simp add: kinded_def consumes_def rlp_str_def)
  next
    case String
    then have rf: "readFull sz s1 = (Inr b, s')" and canon: "\<not> (sz = 1 \<and> b ! 0 < 128)"
      using assms(2) k by (auto simp: Stream_Bytes_def st_bind_def split: prod.splits sum.splits if_splits)
    have c: "consumes s1 s' b" "length b = unat sz" using readFull_sound [OF kinded_core [OF ki] rf] .
    have "length b = 1 \<longleftrightarrow> sz = 1" using c(2) by (simp add: word_unat_eq_iff)
    then have "rlp_str b = khead String sz (st_byteval s1) @ b" using canon c(2) by (auto simp: rlp_str_def)
    moreover have "took s s1 (khead String sz (st_byteval s1))" using ki String by (simp add: kinded_def)
    ultimately show ?thesis
      using took_trans [of s s1 "khead String sz (st_byteval s1)" s' b] c(1) assms(1) by (simp add: consumes_def ready_def)
  next
    case List
    then show ?thesis using assms(2) k by (simp add: Stream_Bytes_def st_bind_def)
  qed
qed

lemma Bytes_complete:
  assumes "ready s" "st_in s = rlp_str b @ rest" "length (rlp_str b) \<le> room s"
  obtains s' where "Stream_Bytes s = (Inr b, s')" "consumes s s' (rlp_str b)"
proof -
  have "\<exists>s'. Stream_Bytes s = (Inr b, s')"
  proof (cases "length b = 1 \<and> b ! 0 < 0x80")
    case True
    then obtain x where b: "b = [x]" "x < 0x80" by (cases b) auto
    then have "rlp_str b = khead Byte 0 x" by (simp add: rlp_str_def)
    then obtain s1 where "Stream_Kind s = (Inr (Byte, 0), s1)" "st_byteval s1 = x"
      using Kind_complete [OF assms(1), of Byte 0 x rest] assms(2,3) b by auto
    then show ?thesis using b by (simp add: Stream_Bytes_def st_bind_def)
  next
    case False
    have len: "length b < 2 ^ 64"
      using core_length [of s] assms(1,2) length_rlp_str [of b] by (simp add: ready_def)
    define sz where "sz = (of_nat (length b) :: u64)"
    have u: "unat sz = length b" using unat_u64_of_nat [OF len] by (simp add: sz_def)
    have e: "rlp_str b = khead String sz 0 @ b" using False u by (auto simp: rlp_str_def)
    then obtain s1 where s1: "Stream_Kind s = (Inr (String, sz), s1)" "kinded s s1 String sz" "st_in s1 = b @ rest"
      using Kind_complete [OF assms(1), of String sz 0 "b @ rest"] assms(2,3) u by auto
    then obtain s' where "readFull sz s1 = (Inr b, s')"
      using readFull_complete [OF kinded_core [OF s1(2)] s1(3) u [symmetric] kinded_room [OF s1(2)]] by blast
    moreover have "\<not> (sz = 1 \<and> b ! 0 < 128)" using False u by (auto simp: word_unat_eq_iff)
    ultimately show ?thesis using s1(1) by (auto simp: Stream_Bytes_def st_bind_def)
  qed
  then show thesis using that Bytes_sound [OF assms(1)] by blast
qed

lemma Raw_sound:
  assumes "ready s" "Stream_Raw s = (Inr b, s')"
  shows "consumes s s' b"
    and "\<exists>k c. b = enc_item k c \<and> (k = Byte \<longrightarrow> item_ok k c)"
proof -
  obtain k sz s1 where k: "Stream_Kind s = (Inr (k, sz), s1)"
    using assms(2) by (auto simp: Stream_Raw_def st_bind_def split: prod.splits sum.splits)
  have ki: "kinded s s1 k sz" using Kind_sound [OF assms(1) k] .
  have ph: "puthead x y sz = rlp_head x y (unat sz)" for x y
    using puthead_eq [of "unat sz" x y] unsigned_less [of sz] by simp
  have "consumes s s' b \<and> (\<exists>k c. b = enc_item k c \<and> (k = Byte \<longrightarrow> item_ok k c))"
  proof (cases "k = Byte")
    case True
    then have "b = [st_byteval s1]" "s' = s1\<lparr>st_kind := None\<rparr>"
      using assms(2) k by (simp_all add: Stream_Raw_def st_bind_def)
    then show ?thesis using ki True
      by (intro conjI exI [of _ Byte] exI [of _ b]) (simp_all add: kinded_def consumes_def)
  next
    case False
    then obtain c where rf: "readFull sz s1 = (Inr c, s')" and b: "b = khead k sz (st_byteval s1) @ c"
      using assms(2) k ph
      by (cases k) (auto simp: Stream_Raw_def st_bind_def split: prod.splits sum.splits)
    have c: "consumes s1 s' c" "length c = unat sz" using readFull_sound [OF kinded_core [OF ki] rf] .
    have "took s s1 (khead k sz (st_byteval s1))" using ki by (simp add: kinded_def)
    then have "consumes s s' b" unfolding b
      using took_trans [of s s1 "khead k sz (st_byteval s1)" s' c] c(1) assms(1) by (simp add: consumes_def ready_def)
    moreover have "b = enc_item k c" using b False c(2) by (cases k) auto
    ultimately show ?thesis using False by blast
  qed
  then show "consumes s s' b" "\<exists>k c. b = enc_item k c \<and> (k = Byte \<longrightarrow> item_ok k c)" by auto
qed

lemma Raw_complete:
  assumes "ready s" "b = enc_item k c" "k = Byte \<longrightarrow> item_ok k c" "st_in s = b @ rest" "length b \<le> room s"
  obtains s' where "Stream_Raw s = (Inr b, s')" "consumes s s' b"
proof -
  have "\<exists>s'. Stream_Raw s = (Inr b, s')"
  proof (cases "k = Byte")
    case True
    then obtain x where b: "b = [x]" "x < 0x80" using assms(2,3) by (cases b) auto
    then obtain s1 where "Stream_Kind s = (Inr (Byte, 0), s1)" "st_byteval s1 = x"
      using Kind_complete [OF assms(1), of Byte 0 x rest] assms(4,5) by auto
    then show ?thesis using b by (simp add: Stream_Raw_def st_bind_def)
  next
    case False
    have len: "length c < 2 ^ 64"
      using core_length [of s] assms(1,2,4) length_enc_item [of k c] by (simp add: ready_def)
    define sz where "sz = (of_nat (length c) :: u64)"
    have u: "unat sz = length c" using unat_u64_of_nat [OF len] by (simp add: sz_def)
    have e: "b = khead k sz 0 @ c" using False assms(2) u by (cases k) auto
    then obtain s1 where s1: "Stream_Kind s = (Inr (k, sz), s1)" "kinded s s1 k sz" "st_in s1 = c @ rest"
      using Kind_complete [OF assms(1), of k sz 0 "c @ rest"] assms(4,5) u False by auto
    then obtain s' where "readFull sz s1 = (Inr c, s')"
      using readFull_complete [OF kinded_core [OF s1(2)] s1(3) u [symmetric] kinded_room [OF s1(2)]] by blast
    moreover have "puthead x y sz = rlp_head x y (unat sz)" for x y
      using puthead_eq [of "length c" x y] len u by (simp add: sz_def)
    ultimately show ?thesis using s1(1) False e
      by (cases k) (auto simp: Stream_Raw_def st_bind_def)
  qed
  then show thesis using that Raw_sound(1) [OF assms(1)] by blast
qed

lemma readUint_zero: "core s \<Longrightarrow> readUint 0 s = (Inr 0, s\<lparr>st_kind := None\<rparr>)"
  by (simp add: readUint_def)

lemma uint_string_sound:
  assumes "core s1" "sz \<noteq> 0" "unat sz \<le> 8" "readUint (ucast sz) s1 = (Inr v, s')" "\<not> v < 128"
  shows "consumes s1 s' (be_bytes (unat v))" "length (be_bytes (unat v)) = unat sz"
proof -
  have z: "unat (ucast sz :: u8) = unat sz"
    unfolding unsigned_ucast_eq using assms(3) by (simp add: take_bit_eq_mod)
  have z1: "1 \<le> unat sz" using assms(2) by (simp add: Suc_le_eq unat_gt_0)
  define bs where "bs = take (unat sz) (st_in s1)"
  have ok: "unat sz \<le> length (st_in s1)" "2 \<le> unat sz \<longrightarrow> st_in s1 ! 0 \<noteq> 0"
    and v: "v = of_nat (be_nat bs)" "consumes s1 s' bs"
    using readUint_cases [OF assms(1), of "ucast sz"] assms(3,4) z1 by (auto simp: bs_def z split: if_splits)
  have len: "length bs = unat sz" using ok by (simp add: bs_def)
  have "be_nat bs < 256 ^ unat sz" using be_nat_bound [of bs] len by simp
  also have "\<dots> \<le> 256 ^ 8" using assms(3) by (intro power_increasing) auto
  finally have u: "unat v = be_nat bs" using v(1) by (simp add: unat_of_nat)
  have big: "128 \<le> be_nat bs" using assms(5) u by (simp add: word_less_nat_alt)
  have "bs ! 0 \<noteq> 0"
  proof (cases "2 \<le> unat sz")
    case True
    then show ?thesis using ok(2) by (simp add: bs_def)
  next
    case False
    then have "length bs = 1" using len z1 by simp
    then show ?thesis using big by (cases bs) auto
  qed
  then have "be_bytes (unat v) = bs" unfolding u by (intro be_bytes_unique) simp
  then show "consumes s1 s' (be_bytes (unat v))" "length (be_bytes (unat v)) = unat sz" using v(2) len by simp_all
qed

lemma single_be_bytes:
  assumes "0 < n" "n < 128"
  shows "be_bytes n = [of_nat n]" "rlp_str (be_bytes n) = [of_nat n]"
proof -
  show b: "be_bytes n = [of_nat n]" using assms by (simp add: be_bytes_step)
  show "rlp_str (be_bytes n) = [of_nat n]" unfolding b
    using assms by (simp add: rlp_str_def word_less_nat_alt unat_of_nat)
qed

lemma big_be_bytes:
  assumes "128 \<le> n \<or> n = 0"
  shows "rlp_str (be_bytes n) = rlp_head 0x80 0xB7 (length (be_bytes n)) @ be_bytes n"
proof (cases "n = 0")
  case False
  then have "128 \<le> be_nat (be_bytes n)" using assms by simp
  then have "\<not> (length (be_bytes n) = 1 \<and> be_bytes n ! 0 \<le> 0x7F)"
    by (cases "be_bytes n") (auto simp: word_le_nat_alt)
  then show ?thesis by (rule rlp_str_headed)
qed (simp add: rlp_head_def)

lemma uint_sound:
  assumes "ready s" "Stream_uint m s = (Inr v, s')" "8 \<le> m" "m \<le> 64"
  shows "consumes s s' (rlp_str (be_bytes (unat v))) \<and> length (be_bytes (unat v)) \<le> m div 8"
proof -
  obtain k sz s1 where k: "Stream_Kind s = (Inr (k, sz), s1)"
    using assms(2) by (auto simp: Stream_uint_def st_bind_def split: prod.splits sum.splits)
  have ki: "kinded s s1 k sz" and c1: "core s1" using Kind_sound [OF assms(1) k] kinded_core by auto
  have cs: "core s" using assms(1) by (simp add: ready_def)
  have m: "unat (of_nat (m div 8) :: u64) = m div 8" "m div 8 \<le> 8" "1 \<le> m div 8"
    using assms(3,4) by (simp_all add: unat_of_nat)
  show ?thesis
  proof (cases k)
    case Byte
    define x where "x = st_byteval s1"
    have x: "x \<noteq> 0" "x < 0x80" "v = ucast x" "s' = s1\<lparr>st_kind := None\<rparr>" "took s s1 [x]"
      using assms(2) k ki Byte by (auto simp: Stream_uint_def st_bind_def x_def kinded_def split: if_splits)
    have "unat v = unat x" using x(3) unat_ucast_byte by simp
    moreover have "0 < unat x" "unat x < 128" using x(1,2) by (simp_all add: unat_gt_0 word_less_nat_alt)
    ultimately have "rlp_str (be_bytes (unat v)) = [x]" "be_bytes (unat v) = [x]"
      using single_be_bytes [of "unat x"] by simp_all
    then show ?thesis using x m by (simp add: consumes_def)
  next
    case String
    have ov: "unat sz \<le> m div 8" using assms(2) k String m(1)
      by (auto simp: Stream_uint_def st_bind_def word_less_nat_alt split: if_splits)
    have ru: "readUint (ucast sz) s1 = (Inr v, s')" "\<not> (0 < sz \<and> v < 128)"
      using assms(2) k String by (auto simp: Stream_uint_def st_bind_def split: if_splits prod.splits sum.splits)
    have t: "took s s1 (rlp_head 0x80 0xB7 (unat sz))" using ki String by (simp add: kinded_def)
    show ?thesis
    proof (cases "sz = 0")
      case True
      then have "v = 0" "s' = s1\<lparr>st_kind := None\<rparr>" using ru(1) c1 by (simp_all add: readUint_zero)
      then show ?thesis using t True by (simp add: consumes_def rlp_head_def)
    next
      case False
      then have nv: "\<not> v < 128" using ru(2) by (simp add: word_neq_0_conv)
      then have c: "consumes s1 s' (be_bytes (unat v))" "length (be_bytes (unat v)) = unat sz"
        using uint_string_sound [OF c1 False _ ru(1)] ov m by auto
      have "rlp_str (be_bytes (unat v)) = rlp_head 0x80 0xB7 (unat sz) @ be_bytes (unat v)"
        using big_be_bytes [of "unat v"] nv c(2) by (simp add: word_less_nat_alt)
      then show ?thesis using took_trans [OF cs t] c ov by (simp add: consumes_def)
    qed
  next
    case List
    then show ?thesis using assms(2) k by (simp add: Stream_uint_def st_bind_def)
  qed
qed

lemma uint_complete:
  assumes "ready s" "st_in s = rlp_str (be_bytes (unat v)) @ rest" "length (rlp_str (be_bytes (unat v))) \<le> room s"
    and "length (be_bytes (unat v)) \<le> m div 8" "m \<le> 64" "8 \<le> m"
  obtains s' where "Stream_uint m s = (Inr v, s')" "consumes s s' (rlp_str (be_bytes (unat v)))"
proof -
  define n where "n = unat v"
  have vn: "v = of_nat n" by (simp add: n_def)
  have "\<exists>s'. Stream_uint m s = (Inr v, s')"
  proof (cases "0 < n \<and> n < 128")
    case True
    define x where "x = (of_nat n :: u8)"
    have ux: "unat x = n" using True by (simp add: x_def unat_of_nat)
    have "rlp_str (be_bytes n) = khead Byte 0 x" using single_be_bytes [of n] True by (simp add: x_def)
    then obtain s1 where "Stream_Kind s = (Inr (Byte, 0), s1)" "st_byteval s1 = x"
      using Kind_complete [OF assms(1), of Byte 0 x rest] assms(2,3) True ux unfolding n_def [symmetric]
      by (auto simp: word_less_nat_alt)
    moreover have "ucast x = v" using unat_ucast_byte [of x] ux n_def by (simp add: word_unat_eq_iff)
    moreover have "x \<noteq> 0" using ux True by auto
    ultimately show ?thesis by (simp add: Stream_uint_def st_bind_def)
  next
    case False
    define bs where "bs = be_bytes n"
    define sz where "sz = (of_nat (length bs) :: u64)"
    have len: "length bs \<le> m div 8" "length bs \<le> 8" using assms(4,5) by (simp_all add: bs_def n_def)
    have u: "unat sz = length bs" using len by (simp add: sz_def unat_of_nat)
    have e: "rlp_str bs = khead String sz 0 @ bs" using big_be_bytes [of n] False u by (auto simp: bs_def)
    then obtain s1 where s1: "Stream_Kind s = (Inr (String, sz), s1)" "kinded s s1 String sz" "st_in s1 = bs @ rest"
      using Kind_complete [OF assms(1), of String sz 0 "bs @ rest"] assms(2,3) u
      unfolding n_def [symmetric] bs_def [symmetric] by auto
    have c1: "core s1" and rm: "length bs \<le> room s1" using kinded_core [OF s1(2)] kinded_room [OF s1(2)] u by simp_all
    have m: "\<not> of_nat (m div 8) < sz" using len u assms(5) by (simp add: word_less_nat_alt unat_of_nat)
    show ?thesis
    proof (cases "n = 0")
      case True
      then have "sz = 0" "v = 0" by (simp_all add: sz_def bs_def vn)
      then show ?thesis using s1(1) m c1 by (simp add: Stream_uint_def st_bind_def readUint_zero)
    next
      case nz: False
      have ne: "bs \<noteq> []" "bs ! 0 \<noteq> 0" using nz be_bytes_ne be_bytes_hd by (simp_all add: bs_def)
      have z: "unat (ucast sz :: u8) = length bs"
        unfolding unsigned_ucast_eq u using len(2) by (simp add: take_bit_eq_mod)
      have "\<exists>s'. readUint (ucast sz) s1 = (Inr (of_nat (be_nat (take (length bs) (st_in s1)))), s')"
        using readUint_cases [OF c1, of "ucast sz", unfolded z] rm len(2) ne s1(3)
        by (auto simp: nth_append Suc_le_eq)
      then obtain s' where "readUint (ucast sz) s1 = (Inr v, s')" using s1(3) by (auto simp: bs_def vn)
      moreover have "\<not> v < 128" using False nz by (simp add: word_less_nat_alt n_def)
      ultimately show ?thesis using s1(1) m by (simp add: Stream_uint_def st_bind_def)
    qed
  qed
  then show thesis using that uint_sound [OF assms(1)] assms(5,6) by blast
qed

lemma Bool_sound:
  assumes "ready s" "Stream_Bool s = (Inr b, s')"
  shows "consumes s s' (rlp_str (if b then [1] else []))"
proof -
  obtain v where v: "Stream_uint 8 s = (Inr v, s')" "v = (if b then 1 else 0)"
    using assms(2) by (auto simp: Stream_Bool_def st_bind_def split: prod.splits sum.splits if_splits)
  have "be_bytes (unat v) = (if b then [1] else [])" using v(2) by (simp add: be_bytes_step)
  then show ?thesis using uint_sound [OF assms(1) v(1)] by simp
qed

lemma Bool_complete:
  assumes "ready s" "st_in s = rlp_str (if b then [1] else []) @ rest" "length (rlp_str (if b then [1] else [])) \<le> room s"
  obtains s' where "Stream_Bool s = (Inr b, s')" "consumes s s' (rlp_str (if b then [1] else []))"
proof -
  define v where "v = (if b then 1 else 0 :: u64)"
  have be: "be_bytes (unat v) = (if b then [1] else [])" by (simp add: v_def be_bytes_step)
  obtain s' where s': "Stream_uint 8 s = (Inr v, s')" "consumes s s' (rlp_str (be_bytes (unat v)))"
    by (rule uint_complete [OF assms(1), of v rest 8]) (use assms(2,3) be in simp_all)
  then show thesis using that be by (simp add: Stream_Bool_def st_bind_def v_def)
qed

section \<open>Lists\<close>

text \<open>After \<open>List\<close> the stream is inside the list, whose size fits into the enclosing one.\<close>

definition opened :: "rstream \<Rightarrow> rstream \<Rightarrow> u64 \<Rightarrow> bool" where
  "opened s s1 sz \<longleftrightarrow> ready s1 \<and> st_in s = rlp_head 0xC0 0xF7 (unat sz) @ st_in s1 \<and>
     st_stack s1 = \<lparr>lp_pos = 0, lp_size = sz\<rparr> # bump (length (rlp_head 0xC0 0xF7 (unat sz))) (st_stack s) \<and>
     length (rlp_head 0xC0 0xF7 (unat sz)) + unat sz \<le> room s"

lemma opened_room: "opened s s1 sz \<Longrightarrow> room s1 = unat sz"
  by (simp add: opened_def room_def)

lemma List_of_kinded:
  assumes "ready s" "kinded s s1 List sz"
  shows "opened s (s1\<lparr>st_stack := \<lparr>lp_pos = 0, lp_size = sz\<rparr> # st_stack s1, st_kind := None, st_size := 0\<rparr>) sz"
proof -
  have t: "took s s1 (rlp_head 0xC0 0xF7 (unat sz))" "unat sz \<le> room s1" using assms(2) by (auto simp: kinded_def)
  have "room s1 = room s - length (rlp_head 0xC0 0xF7 (unat sz))"
    using took_room [OF _ t(1)] assms(1) by (simp add: ready_def)
  moreover have "length (rlp_head 0xC0 0xF7 (unat sz)) \<le> room s" using t(1) by (simp add: took_def)
  ultimately have "length (rlp_head 0xC0 0xF7 (unat sz)) + unat sz \<le> room s" using t(2) by linarith
  moreover have "st_stack s1 = bump (length (rlp_head 0xC0 0xF7 (unat sz))) (st_stack s)" "core s1"
    using t(1) by (simp_all add: took_def)
  ultimately show ?thesis using t(1) by (auto simp: opened_def ready_def took_def core_def)
qed

lemma List_sound:
  assumes "ready s" "Stream_List s = (Inr sz, s1)"
  shows "opened s s1 sz"
proof -
  obtain s0 where k: "Stream_Kind s = (Inr (List, sz), s0)"
    and s1: "s1 = s0\<lparr>st_stack := \<lparr>lp_pos = 0, lp_size = sz\<rparr> # st_stack s0, st_kind := None, st_size := 0\<rparr>"
    using assms(2) by (auto simp: Stream_List_def st_bind_def split: prod.splits sum.splits if_splits)
  show ?thesis unfolding s1 by (rule List_of_kinded [OF assms(1) Kind_sound [OF assms(1) k]])
qed

lemma List_complete:
  assumes "ready s" "st_in s = rlp_list c @ rest" "length (rlp_list c) \<le> room s"
  obtains s1 sz where "Stream_List s = (Inr sz, s1)" "opened s s1 sz" "unat sz = length c" "st_in s1 = c @ rest"
proof -
  have len: "length c < 2 ^ 64"
    using core_length [of s] assms(1,2) length_rlp_list [of c] by (simp add: ready_def)
  define sz where "sz = (of_nat (length c) :: u64)"
  have u: "unat sz = length c" using unat_u64_of_nat [OF len] by (simp add: sz_def)
  have e: "rlp_list c = khead List sz 0 @ c" using u by (simp add: rlp_list_def)
  then obtain s0 where s0: "Stream_Kind s = (Inr (List, sz), s0)" "kinded s s0 List sz" "st_in s0 = c @ rest"
    using Kind_complete [OF assms(1), of List sz 0 "c @ rest"] assms(2,3) u by auto
  let ?s1 = "s0\<lparr>st_stack := \<lparr>lp_pos = 0, lp_size = sz\<rparr> # st_stack s0, st_kind := None, st_size := 0\<rparr>"
  have "Stream_List s = (Inr sz, ?s1)" using s0(1) by (simp add: Stream_List_def st_bind_def)
  moreover have "opened s ?s1 sz" by (rule List_of_kinded [OF assms(1) s0(2)])
  ultimately show thesis using that u s0(3) by simp
qed

lemma ListEnd_iff:
  assumes "ready s" "opened s s1 sz" "consumes s1 s2 c"
  shows "if length c = unat sz then \<exists>s3. Stream_ListEnd s2 = (Inr (), s3) \<and> consumes s s3 (rlp_list c)
     else Stream_ListEnd s2 = (Inl errNotAtEOL, s2)"
proof -
  define hd where "hd = rlp_head 0xC0 0xF7 (unat sz)"
  have lc: "length c \<le> unat sz" using assms(2,3) opened_room by (simp add: consumes_def took_def)
  have st2: "st_stack s2 = \<lparr>lp_pos = of_nat (length c), lp_size = sz\<rparr> # bump (length hd) (st_stack s)"
    using assms(2,3) by (simp add: consumes_def took_def opened_def hd_def)
  have fits: "length hd + unat sz \<le> room s" using assms(2) by (simp add: opened_def hd_def)
  show ?thesis
  proof (cases "length c = unat sz")
    case True
    define s3 where "s3 = s2\<lparr>st_stack := (case bump (length hd) (st_stack s) of [] \<Rightarrow> []
        | p # rest \<Rightarrow> p\<lparr>lp_pos := lp_pos p + sz\<rparr> # rest), st_kind := None, st_size := 0\<rparr>"
    have le: "Stream_ListEnd s2 = (Inr (), s3)" using st2 True
      by (simp add: Stream_ListEnd_def s3_def split: list.split)
    have st3: "st_stack s3 = bump (length (rlp_list c)) (st_stack s)"
      using True by (cases "st_stack s") (simp_all add: s3_def hd_def rlp_list_def algebra_simps)
    have inp: "st_in s = rlp_list c @ st_in s3" "length (rlp_list c) \<le> room s"
      using assms(2,3) True fits by (simp_all add: opened_def consumes_def took_def s3_def rlp_list_def hd_def)
    have "core s2" using assms(3) took_core unfolding consumes_def by blast
    then have "st_limited s3" "unat (st_remaining s3) = length (st_in s3)" by (simp_all add: core_def s3_def)
    then have "core s3" using core_bump [OF _ inp(2) _ _ st3] assms(1) by (simp add: ready_def)
    then show ?thesis using le True st3 inp by (simp add: consumes_def took_def) (simp add: s3_def)
  next
    case False
    have "unat (of_nat (length c) :: u64) = length c"
      using lc unat_u64 [of sz] by (intro unat_u64_of_nat) simp
    then have "(of_nat (length c) :: u64) \<noteq> sz" using False by auto
    then show ?thesis using False st2 by (simp add: Stream_ListEnd_def)
  qed
qed

end
