(* ===== verification/RlpDecode.thy ===== *)
theory RlpDecode
  imports RlpStream
begin

text \<open>
  Decoding into Go values (\<open>rlp/decode.go\<close>). A type descriptor stands for the Go type after reflection, and each
  decoder of the package is a function on the stream. Loops over list elements and the recursion of
  \<open>decodeInterface\<close> run on fuel; more fuel than input bytes is always enough. The decoder accepts
  exactly the encodings of the values of the type.
\<close>

section \<open>Types\<close>

datatype gtype =
    TUint nat
  | TBool
  | TText
  | TBigInt
  | TBigIntNoPtr
  | TBytes
  | TByteArray nat
  | TSlice gtype
  | TArray nat gtype
  | TStruct "gtype list"
  | TTail gtype
  | TPtr gtype
  | TNilPtr kind gtype
  | TIface
  | TRaw

type_synonym 'a dres = "((rlp_error + 'a) \<times> rstream) option"

section \<open>Decoders\<close>

text \<open>Errors of the stream become decode errors; the type name and the path in their text are left out.\<close>

fun wrapStreamError :: "rlp_error \<Rightarrow> rlp_error" where
  "wrapStreamError ErrCanonInt = DecodeError ErrCanonInt"
| "wrapStreamError ErrCanonSize = DecodeError ErrCanonSize"
| "wrapStreamError ErrExpectedList = DecodeError ErrExpectedList"
| "wrapStreamError ErrExpectedString = DecodeError ErrExpectedString"
| "wrapStreamError errUintOverflow = DecodeError errUintOverflow"
| "wrapStreamError errNotAtEOL = DecodeError errNotAtEOL"
| "wrapStreamError e = e"

definition wrapped :: "('a \<Rightarrow> gval) \<Rightarrow> (rlp_error + 'a) \<times> rstream \<Rightarrow> (rlp_error + gval) \<times> rstream" where
  "wrapped f r = (case r of (Inl e, s) \<Rightarrow> (Inl (wrapStreamError e), s) | (Inr x, s) \<Rightarrow> (Inr (f x), s))"

definition decodeRawValue :: "rstream \<Rightarrow> (rlp_error + gval) \<times> rstream" where
  "decodeRawValue s = st_bind (Stream_Raw s) (\<lambda>b s. (Inr (VRaw b), s))"

definition decodeUint :: "nat \<Rightarrow> rstream \<Rightarrow> (rlp_error + gval) \<times> rstream" where
  "decodeUint bits s = wrapped VUint (Stream_uint bits s)"

definition decodeBool :: "rstream \<Rightarrow> (rlp_error + gval) \<times> rstream" where
  "decodeBool s = wrapped VBool (Stream_Bool s)"

definition decodeString :: "rstream \<Rightarrow> (rlp_error + gval) \<times> rstream" where
  "decodeString s = wrapped VText (Stream_Bytes s)"

definition decodeByteSlice :: "rstream \<Rightarrow> (rlp_error + gval) \<times> rstream" where
  "decodeByteSlice s = wrapped VBytes (Stream_Bytes s)"

definition decodeBigInt :: "(int \<Rightarrow> gval) \<Rightarrow> rstream \<Rightarrow> (rlp_error + gval) \<times> rstream" where
  "decodeBigInt f s =
     (case Stream_Bytes s of
        (Inl e, s1) \<Rightarrow> (Inl (wrapStreamError e), s1)
      | (Inr b, s1) \<Rightarrow>
          if 0 < length b \<and> b ! 0 = 0 then (Inl (wrapStreamError ErrCanonInt), s1)
          else (Inr (f (int (be_nat b))), s1))"

text \<open>
  A byte array of one element reads a single byte with \<open>Uint\<close> and drops its error; that call leaves the
  cached kind in place when the byte is zero.
\<close>

definition decodeByteArray :: "nat \<Rightarrow> rstream \<Rightarrow> (rlp_error + gval) \<times> rstream" where
  "decodeByteArray vlen s =
     st_bind (Stream_Kind s) (\<lambda>(k, sz) s.
       case k of
         Byte \<Rightarrow>
           if vlen = 0 then (Inl InputStringTooLong, s)
           else if 1 < vlen then (Inl InputStringTooShort, s)
           else (case Stream_Uint s of
                   (Inl e, s1) \<Rightarrow> (Inr (VByteArray [0]), s1)
                 | (Inr bv, s1) \<Rightarrow> (Inr (VByteArray [ucast bv]), s1))
       | String \<Rightarrow>
           if of_nat vlen < sz then (Inl InputStringTooLong, s)
           else if sz < of_nat vlen then (Inl InputStringTooShort, s)
           else st_bind (readFull (of_nat vlen) s) (\<lambda>b s.
             if sz = 1 \<and> b ! 0 < 128 then (Inl (wrapStreamError ErrCanonSize), s) else (Inr (VByteArray b), s))
       | List \<Rightarrow> (Inl (wrapStreamError ErrExpectedString), s))"

text \<open>\<open>decodeSliceElems\<close>: elements until the end of the list.\<close>

fun decodeSliceElems :: "nat \<Rightarrow> (rstream \<Rightarrow> gval dres) \<Rightarrow> rstream \<Rightarrow> gval list \<Rightarrow> gval list dres" where
  "decodeSliceElems 0 elemdec s acc = None"
| "decodeSliceElems (Suc n) elemdec s acc =
     (case elemdec s of
        None \<Rightarrow> None
      | Some (Inl e, s1) \<Rightarrow> if e = EOL then Some (Inr acc, s1) else Some (Inl e, s1)
      | Some (Inr v, s1) \<Rightarrow> decodeSliceElems n elemdec s1 (acc @ [v]))"

definition decodeListSlice :: "nat \<Rightarrow> (rstream \<Rightarrow> gval dres) \<Rightarrow> rstream \<Rightarrow> gval list dres" where
  "decodeListSlice n elemdec s =
     (case Stream_List s of
        (Inl e, s1) \<Rightarrow> Some (Inl (wrapStreamError e), s1)
      | (Inr sz, s1) \<Rightarrow>
          if sz = 0 then Some (st_bind (Stream_ListEnd s1) (\<lambda>_ s2. (Inr [], s2)))
          else map_option (\<lambda>r. st_bind r (\<lambda>vs s2. st_bind (Stream_ListEnd s2) (\<lambda>_ s3. (Inr vs, s3))))
                 (decodeSliceElems n elemdec s1 []))"

fun array_elems :: "nat \<Rightarrow> (rstream \<Rightarrow> gval dres) \<Rightarrow> rstream \<Rightarrow> gval list dres" where
  "array_elems 0 elemdec s = Some (Inr [], s)"
| "array_elems (Suc m) elemdec s =
     (case elemdec s of
        None \<Rightarrow> None
      | Some (Inl e, s1) \<Rightarrow> Some (Inl (if e = EOL then TooFewElements else e), s1)
      | Some (Inr v, s1) \<Rightarrow> map_option (\<lambda>r. st_bind r (\<lambda>vs s2. (Inr (v # vs), s2))) (array_elems m elemdec s1))"

text \<open>The end of a list with a fixed number of elements.\<close>

definition list_end :: "(gval list \<Rightarrow> gval) \<Rightarrow> (rlp_error + gval list) \<times> rstream \<Rightarrow> (rlp_error + gval) \<times> rstream" where
  "list_end f r = st_bind r (\<lambda>vs s. wrapped (\<lambda>_. f vs) (Stream_ListEnd s))"

definition decodeListArray :: "nat \<Rightarrow> (rstream \<Rightarrow> gval dres) \<Rightarrow> rstream \<Rightarrow> gval dres" where
  "decodeListArray vlen elemdec s =
     (case Stream_List s of
        (Inl e, s1) \<Rightarrow> Some (Inl (wrapStreamError e), s1)
      | (Inr _, s1) \<Rightarrow> map_option (list_end VSlice) (array_elems vlen elemdec s1))"

fun decodeInterface :: "nat \<Rightarrow> rstream \<Rightarrow> gval dres" where
  "decodeInterface 0 s = None"
| "decodeInterface (Suc n) s =
     (case Stream_Kind s of
        (Inl e, s1) \<Rightarrow> Some (Inl e, s1)
      | (Inr (k, _), s1) \<Rightarrow>
          if k = List
          then map_option (\<lambda>r. st_bind r (\<lambda>vs s2. (Inr (VIface (VSlice vs)), s2)))
                 (decodeListSlice (Suc n) (\<lambda>s. decodeInterface n s) s1)
          else Some (st_bind (Stream_Bytes s1) (\<lambda>b s2. (Inr (VIface (VBytes b)), s2))))"

definition nil_ptr :: "kind \<Rightarrow> (rstream \<Rightarrow> gval dres) \<Rightarrow> rstream \<Rightarrow> gval dres" where
  "nil_ptr nilKind dec s =
     (case Stream_Kind s of
        (Inl e, s1) \<Rightarrow> Some (Inl (wrapStreamError e), s1)
      | (Inr (k, sz), s1) \<Rightarrow>
          if k \<noteq> Byte \<and> sz = 0
          then if k \<noteq> nilKind then Some (Inl (WrongEmptyKind k), s1)
               else Some (Inr (VNilPtr nilKind), s1\<lparr>st_kind := None\<rparr>)
          else map_option (\<lambda>r. st_bind r (\<lambda>v s2. (Inr (VPtr v), s2))) (dec s1))"

fun decode :: "nat \<Rightarrow> gtype \<Rightarrow> rstream \<Rightarrow> gval dres"
  and decode_fields :: "nat \<Rightarrow> gtype list \<Rightarrow> rstream \<Rightarrow> gval list dres" where
  "decode n (TUint bits) s = Some (decodeUint bits s)"
| "decode n TBool s = Some (decodeBool s)"
| "decode n TText s = Some (decodeString s)"
| "decode n TBigInt s = Some (decodeBigInt (\<lambda>i. VBigPtr (Some i)) s)"
| "decode n TBigIntNoPtr s = Some (decodeBigInt VBig s)"
| "decode n TBytes s = Some (decodeByteSlice s)"
| "decode n (TByteArray vlen) s = Some (decodeByteArray vlen s)"
| "decode n (TSlice t) s =
     map_option (\<lambda>r. st_bind r (\<lambda>vs s1. (Inr (VSlice vs), s1))) (decodeListSlice n (\<lambda>s. decode n t s) s)"
| "decode n (TArray vlen t) s = decodeListArray vlen (\<lambda>s. decode n t s) s"
| "decode n (TStruct ts) s =
     (case Stream_List s of
        (Inl e, s1) \<Rightarrow> Some (Inl (wrapStreamError e), s1)
      | (Inr _, s1) \<Rightarrow> map_option (list_end VStruct) (decode_fields n ts s1))"
| "decode n (TTail t) s =
     map_option (\<lambda>r. st_bind r (\<lambda>vs s1. (Inr (VTail vs), s1))) (decodeSliceElems n (\<lambda>s. decode n t s) s [])"
| "decode n (TPtr t) s = map_option (\<lambda>r. st_bind r (\<lambda>v s1. (Inr (VPtr v), s1))) (decode n t s)"
| "decode n (TNilPtr nilKind t) s = nil_ptr nilKind (\<lambda>s. decode n t s) s"
| "decode n TIface s = decodeInterface n s"
| "decode n TRaw s = Some (decodeRawValue s)"
| "decode_fields n [] s = Some (Inr [], s)"
| "decode_fields n (t # ts) s =
     (case decode n t s of
        None \<Rightarrow> None
      | Some (Inl e, s1) \<Rightarrow> Some (Inl (if e = EOL then TooFewElements else e), s1)
      | Some (Inr v, s1) \<Rightarrow> map_option (\<lambda>r. st_bind r (\<lambda>vs s2. (Inr (v # vs), s2))) (decode_fields n ts s1))"

definition DecodeBytes_fuel :: "nat \<Rightarrow> bytes \<Rightarrow> gtype \<Rightarrow> (rlp_error + gval) option" where
  "DecodeBytes_fuel n b t =
     map_option (\<lambda>(r, s). case r of
         Inl e \<Rightarrow> Inl e
       | Inr v \<Rightarrow> if 0 < length (st_in s) then Inl ErrMoreThanOneValue else Inr v)
       (decode n t (Stream_Reset b (of_nat (length b))))"

definition DecodeBytes :: "bytes \<Rightarrow> gtype \<Rightarrow> (rlp_error + gval) option" where
  "DecodeBytes b t = DecodeBytes_fuel (length b + 1) b t"

section \<open>Well-formed types and their values\<close>

text \<open>
  Integers have a width of whole bytes; a tail occurs only as the last field of a struct. Byte arrays
  of length one are left out: see the last section.
\<close>

fun wf_ty :: "gtype \<Rightarrow> bool" and wf_tail :: "gtype \<Rightarrow> bool" and wf_fields :: "gtype list \<Rightarrow> bool" where
  "wf_ty (TUint bits) = (8 \<le> bits \<and> bits \<le> 64)"
| "wf_ty (TByteArray m) = (m \<noteq> 1 \<and> m < 2 ^ 63)"
| "wf_ty (TSlice t) = wf_ty t"
| "wf_ty (TArray m t) = wf_ty t"
| "wf_ty (TStruct ts) = wf_fields ts"
| "wf_ty (TTail t) = False"
| "wf_ty (TPtr t) = wf_ty t"
| "wf_ty (TNilPtr k t) = wf_ty t"
| "wf_ty _ = True"
| "wf_tail (TTail t) = wf_ty t"
| "wf_tail _ = False"
| "wf_fields [] = True"
| "wf_fields (t # ts) = ((wf_ty t \<or> ts = [] \<and> wf_tail t) \<and> wf_fields ts)"

fun iface_val :: "gval \<Rightarrow> bool" where
  "iface_val (VIface (VBytes b)) = True"
| "iface_val (VIface (VSlice vs)) = list_all iface_val vs"
| "iface_val _ = False"

fun has_ty :: "gtype \<Rightarrow> gval \<Rightarrow> bool" and has_tys :: "gtype list \<Rightarrow> gval list \<Rightarrow> bool" where
  "has_ty (TUint bits) v = (\<exists>i. v = VUint i \<and> length (be_bytes (unat i)) \<le> bits div 8)"
| "has_ty TBool v = (\<exists>b. v = VBool b)"
| "has_ty TText v = (\<exists>b. v = VText b)"
| "has_ty TBigInt v = (\<exists>i\<ge>0. v = VBigPtr (Some i))"
| "has_ty TBigIntNoPtr v = (\<exists>i\<ge>0. v = VBig i)"
| "has_ty TBytes v = (\<exists>b. v = VBytes b)"
| "has_ty (TByteArray m) v = (\<exists>b. v = VByteArray b \<and> length b = m)"
| "has_ty (TSlice t) v = (\<exists>vs. v = VSlice vs \<and> list_all (\<lambda>v. has_ty t v) vs)"
| "has_ty (TArray m t) v = (\<exists>vs. v = VSlice vs \<and> length vs = m \<and> list_all (\<lambda>v. has_ty t v) vs)"
| "has_ty (TStruct ts) v = (\<exists>vs. v = VStruct vs \<and> has_tys ts vs)"
| "has_ty (TTail t) v = (\<exists>vs. v = VTail vs \<and> list_all (\<lambda>v. has_ty t v) vs)"
| "has_ty (TPtr t) v = (\<exists>w. v = VPtr w \<and> has_ty t w)"
| "has_ty (TNilPtr k t) v = (v = VNilPtr k \<and> k \<noteq> Byte \<or>
     (\<exists>w. v = VPtr w \<and> has_ty t w \<and> rlp_val w \<noteq> [0x80] \<and> rlp_val w \<noteq> [0xC0]))"
| "has_ty TIface v = iface_val v"
| "has_ty TRaw v = (\<exists>b k c. v = VRaw b \<and> b = enc_item k c \<and> (k = Byte \<longrightarrow> item_ok k c))"
| "has_tys [] vs = (vs = [])"
| "has_tys (t # ts) vs = (\<exists>w ws. vs = w # ws \<and> has_ty t w \<and> has_tys ts ws)"

section \<open>The end of a list\<close>

lemma willRead_no_eol: "willRead n s \<noteq> (Inl EOL, s')"
  by (auto simp: willRead_def Let_def split: list.splits if_splits)

lemma readByte_no_eol: "readByte s \<noteq> (Inl EOL, s')"
  using willRead_no_eol by (auto simp: readByte_def st_bind_def split: prod.splits sum.splits list.splits)

lemma readFull_loop_no_eol: "fst (readFull_loop n inp acc) \<noteq> Inl EOL"
  by (induction n inp acc rule: readFull_loop.induct) (subst readFull_loop.simps, auto)

lemma readFull_no_eol: "readFull n s \<noteq> (Inl EOL, s')"
proof -
  have "readFull_loop (unat n) inp [] \<noteq> (Inl EOL, inp')" for inp inp'
    using readFull_loop_no_eol [of "unat n" inp "[]"] by (metis fst_conv)
  then show ?thesis using willRead_no_eol
    by (auto simp: readFull_def st_bind_def split: prod.splits sum.splits)
qed

lemma readUint_no_eol: "readUint z s \<noteq> (Inl EOL, s')"
  using readByte_no_eol readFull_no_eol
  by (auto simp: readUint_def st_bind_def Let_def split: prod.splits sum.splits if_splits)

lemma readKind_no_eol: "Stream_readKind s \<noteq> ((k, sz, Some EOL), s')"
  using readByte_no_eol readUint_no_eol
  by (auto simp: Stream_readKind_def sized_kind_def Let_def split: prod.splits sum.splits if_splits)

definition eol_at :: "rstream \<Rightarrow> rstream \<Rightarrow> bool" where
  "eol_at s s' \<longleftrightarrow> at_eol s \<and> s' = s\<lparr>st_kinderr := None\<rparr>"

lemma Kind_eol_iff: "ready s \<Longrightarrow> Stream_Kind s = (Inl EOL, s') \<longleftrightarrow> eol_at s s'"
proof
  assume "ready s" "eol_at s s'"
  then show "Stream_Kind s = (Inl EOL, s')" using Kind_eol by (simp add: eol_at_def)
next
  assume r: "ready s" and k: "Stream_Kind s = (Inl EOL, s')"
  define s0 where "s0 = s\<lparr>st_kinderr := None\<rparr>"
  show "eol_at s s'"
  proof (cases "at_eol s0")
    case True
    then show ?thesis using r k by (auto simp: eol_at_def Stream_Kind_def s0_def ready_def at_eol_def)
  next
    case False
    obtain r s1 where "Stream_readKind s0 = (r, s1)" by fastforce
    moreover obtain k' sz err where "r = (k', sz, err)" by (rule prod_cases3)
    ultimately have rk: "Stream_readKind s0 = ((k', sz, err), s1)" by simp
    have "kind_check s1 sz \<noteq> Some EOL" by (auto simp: kind_check_def split: list.splits)
    then have "err = Some EOL"
      using r k rk False by (auto simp: Stream_Kind_def s0_def [symmetric] ready_def Let_def split: if_splits option.splits)
    then show ?thesis using readKind_no_eol rk by blast
  qed
qed

lemma eol_consumes: "ready s \<Longrightarrow> eol_at s s' \<Longrightarrow> consumes s s' []"
  by (simp add: eol_at_def consumes_def took_def ready_def)

lemma eol_Bytes: "ready s \<Longrightarrow> Stream_Bytes s = (Inl EOL, s') \<longleftrightarrow> eol_at s s'"
  using readFull_no_eol Kind_eol_iff [of s s']
  by (auto simp: Stream_Bytes_def st_bind_def split: prod.splits sum.splits kind.splits if_splits)

lemma eol_Raw: "ready s \<Longrightarrow> Stream_Raw s = (Inl EOL, s') \<longleftrightarrow> eol_at s s'"
  using readFull_no_eol Kind_eol_iff [of s s']
  by (auto simp: Stream_Raw_def st_bind_def split: prod.splits sum.splits kind.splits if_splits)

lemma eol_uint: "ready s \<Longrightarrow> Stream_uint m s = (Inl EOL, s') \<longleftrightarrow> eol_at s s'"
  using readUint_no_eol Kind_eol_iff [of s s']
  by (auto simp: Stream_uint_def st_bind_def split: prod.splits sum.splits kind.splits if_splits)

lemma eol_Bool: "ready s \<Longrightarrow> Stream_Bool s = (Inl EOL, s') \<longleftrightarrow> eol_at s s'"
  using eol_uint [of s 8 s'] by (auto simp: Stream_Bool_def st_bind_def split: prod.splits sum.splits if_splits)

lemma eol_List: "ready s \<Longrightarrow> Stream_List s = (Inl EOL, s') \<longleftrightarrow> eol_at s s'"
  using Kind_eol_iff [of s s'] by (auto simp: Stream_List_def st_bind_def split: prod.splits sum.splits if_splits)

section \<open>What element decoders promise\<close>

lemma st_bind_Inr: "st_bind r f = (Inr y, s') \<longleftrightarrow> (\<exists>x s1. r = (Inr x, s1) \<and> f x s1 = (Inr y, s'))"
  by (auto simp: st_bind_def split: prod.splits sum.splits)

lemma st_bind_Inl:
  "st_bind r f = (Inl e, s') \<longleftrightarrow> r = (Inl e, s') \<or> (\<exists>x s1. r = (Inr x, s1) \<and> f x s1 = (Inl e, s'))"
  by (auto simp: st_bind_def split: prod.splits sum.splits)

lemmas st_binds = st_bind_Inr st_bind_Inl

text \<open>
  A decoder that succeeds has consumed the encoding of the value that it returns, and it reports the
  end of the list only where the list ends.
\<close>

abbreviation rlp_vals :: "gval list \<Rightarrow> bytes" where
  "rlp_vals vs \<equiv> concat (map rlp_val vs)"

locale elem_decoder =
  fixes dec :: "rstream \<Rightarrow> gval dres" and ok :: "gval \<Rightarrow> bool"
  assumes sound: "ready s \<Longrightarrow> dec s = Some (Inr v, s') \<Longrightarrow> consumes s s' (rlp_val v) \<and> ok v"
    and eol: "ready s \<Longrightarrow> dec s = Some (Inl EOL, s') \<Longrightarrow> eol_at s s'"
begin

lemma slice_sound:
  "ready s \<Longrightarrow> decodeSliceElems m dec s acc = Some (Inr vs, s') \<Longrightarrow>
     \<exists>ws. vs = acc @ ws \<and> consumes s s' (rlp_vals ws) \<and> list_all ok ws"
proof (induction m arbitrary: s acc)
  case (Suc m)
  obtain r s1 where d: "dec s = Some (r, s1)" using Suc.prems(2) by (cases "dec s") auto
  show ?case
  proof (cases r)
    case (Inl e)
    then have "e = EOL" "vs = acc" "s' = s1" using Suc.prems(2) d by (auto split: if_splits)
    then show ?thesis using eol [OF Suc.prems(1)] d Inl eol_consumes [OF Suc.prems(1)] by (intro exI [of _ "[]"]) simp
  next
    case (Inr v)
    have c: "consumes s s1 (rlp_val v)" "ok v" using sound [OF Suc.prems(1)] d Inr by auto
    obtain ws where ws: "vs = (acc @ [v]) @ ws" "consumes s1 s' (rlp_vals ws)" "list_all ok ws"
      using Suc.IH [OF consumes_ready [OF c(1)], of "acc @ [v]"] Suc.prems(2) d Inr by auto
    then show ?thesis using c consumes_trans [OF Suc.prems(1) c(1) ws(2)] by (intro exI [of _ "v # ws"]) simp
  qed
qed simp

lemma slice_no_eol: "decodeSliceElems m dec s acc \<noteq> Some (Inl EOL, s')"
  by (induction m arbitrary: s acc) (auto split: option.splits prod.splits sum.splits)

lemma list_slice_sound:
  assumes "ready s" "decodeListSlice m dec s = Some (Inr vs, s')"
  shows "consumes s s' (rlp_list (rlp_vals vs)) \<and> list_all ok vs"
proof -
  obtain sz s1 where l: "Stream_List s = (Inr sz, s1)"
    using assms(2) by (auto simp: decodeListSlice_def split: prod.splits sum.splits)
  have o: "opened s s1 sz" and r1: "ready s1" using List_sound [OF assms(1) l] by (auto simp: opened_def)
  obtain s2 where s2: "consumes s1 s2 (rlp_vals vs)" "Stream_ListEnd s2 = (Inr (), s')" "list_all ok vs"
  proof (cases "sz = 0")
    case True
    then have "vs = []" "Stream_ListEnd s1 = (Inr (), s')"
      using assms(2) l by (auto simp: decodeListSlice_def st_binds split: prod.splits sum.splits)
    moreover have "consumes s1 s1 []" using r1 took_refl by (simp add: consumes_def ready_def)
    ultimately show thesis using that [of s1] by simp
  next
    case False
    then obtain s2 where d: "decodeSliceElems m dec s1 [] = Some (Inr vs, s2)" "Stream_ListEnd s2 = (Inr (), s')"
      using assms(2) l by (auto simp: decodeListSlice_def st_binds split: prod.splits sum.splits)
    then show thesis using that slice_sound [OF r1 d(1)] by auto
  qed
  then show ?thesis using ListEnd_iff [OF assms(1) o s2(1)] by (auto split: if_splits)
qed

lemma list_slice_eol:
  assumes "ready s" "decodeListSlice m dec s = Some (Inl EOL, s')"
  shows "eol_at s s'"
proof -
  have "Stream_ListEnd x \<noteq> (Inl EOL, y)" for x y by (auto simp: Stream_ListEnd_def split: list.splits if_splits)
  moreover have "wrapStreamError e = EOL \<Longrightarrow> e = EOL" for e by (cases e) auto
  ultimately have "Stream_List s = (Inl EOL, s')"
    using assms(2) slice_no_eol
    by (auto simp: decodeListSlice_def st_binds split: prod.splits sum.splits if_splits)
  then show ?thesis using eol_List [OF assms(1)] by simp
qed

lemma array_sound:
  "ready s \<Longrightarrow> array_elems m dec s = Some (Inr vs, s') \<Longrightarrow>
     consumes s s' (rlp_vals vs) \<and> length vs = m \<and> list_all ok vs"
proof (induction m arbitrary: s vs)
  case 0
  then show ?case using took_refl by (auto simp: consumes_def ready_def)
next
  case (Suc m)
  obtain v s1 ws where d: "dec s = Some (Inr v, s1)" "array_elems m dec s1 = Some (Inr ws, s')" "vs = v # ws"
    using Suc.prems(2) by (auto simp: st_binds split: option.splits prod.splits sum.splits)
  have c: "consumes s s1 (rlp_val v)" "ok v" using sound [OF Suc.prems(1) d(1)] by auto
  have w: "consumes s1 s' (rlp_vals ws) \<and> length ws = m \<and> list_all ok ws"
    using Suc.IH [OF consumes_ready [OF c(1)] d(2)] .
  then show ?case using c d(3) consumes_trans [OF Suc.prems(1) c(1)] by simp
qed

lemma array_no_eol: "array_elems m dec s \<noteq> Some (Inl EOL, s')"
  by (induction m arbitrary: s) (auto simp: st_binds split: option.splits prod.splits sum.splits if_splits)

end

section \<open>Decoders after the kind has been read\<close>

lemma Kind_same:
  assumes "ready s" "Stream_Kind s = (Inr (k, sz), s1)"
  shows "Stream_Kind s1 = Stream_Kind s"
  unfolding assms(2) by (rule Kind_cached [OF Kind_sound [OF assms]])

lemma List_same: "Stream_Kind s1 = Stream_Kind s \<Longrightarrow> Stream_List s1 = Stream_List s"
  by (simp add: Stream_List_def)

lemma Bytes_same: "Stream_Kind s1 = Stream_Kind s \<Longrightarrow> Stream_Bytes s1 = Stream_Bytes s"
  by (simp add: Stream_Bytes_def)

lemma decodeInterface_same: "Stream_Kind s1 = Stream_Kind s \<Longrightarrow> decodeInterface n s1 = decodeInterface n s"
  by (cases n) simp_all

lemma decode_same:
  assumes same: "Stream_Kind s1 = Stream_Kind s"
  shows "wf_ty t \<Longrightarrow> decode n t s1 = decode n t s"
proof (induction t)
  case (TNilPtr k t)
  then show ?case by (simp add: nil_ptr_def same)
qed (simp_all add: decodeUint_def decodeBool_def decodeString_def decodeByteSlice_def decodeBigInt_def decodeByteArray_def
    decodeRawValue_def Stream_uint_def Stream_Bool_def Stream_Raw_def decodeListSlice_def decodeListArray_def
    List_same [OF same] Bytes_same [OF same] decodeInterface_same [OF same] same)

section \<open>Soundness\<close>

lemma wrapped_Inr: "wrapped f r = (Inr v, s') \<longleftrightarrow> (\<exists>x. r = (Inr x, s') \<and> v = f x)"
  by (auto simp: wrapped_def split: prod.splits sum.splits)

lemma wrap_eol: "wrapStreamError e = EOL \<longleftrightarrow> e = EOL"
  by (cases e) auto

lemma wrapped_eol: "wrapped f r = (Inl EOL, s') \<longleftrightarrow> r = (Inl EOL, s')"
  by (auto simp: wrapped_def wrap_eol split: prod.splits sum.splits)

lemma ListEnd_no_eol: "Stream_ListEnd s \<noteq> (Inl EOL, s')"
  by (auto simp: Stream_ListEnd_def split: list.splits if_splits)

lemma list_end_no_eol: "r \<noteq> (Inl EOL, s') \<Longrightarrow> list_end f r \<noteq> (Inl EOL, s')"
  using ListEnd_no_eol by (auto simp: list_end_def st_binds wrapped_eol)

lemma list_end_sound:
  assumes "ready s" "Stream_List s = (Inr sz, s1)" "list_end f r = (Inr v, s')"
    and "\<And>vs s2. r = (Inr vs, s2) \<Longrightarrow> consumes s1 s2 (rlp_vals vs) \<and> P vs"
  obtains vs where "v = f vs" "P vs" "consumes s s' (rlp_list (rlp_vals vs))"
proof -
  obtain vs s2 where r: "r = (Inr vs, s2)" "v = f vs" "Stream_ListEnd s2 = (Inr (), s')"
    using assms(3) by (auto simp: list_end_def st_binds wrapped_Inr)
  have c: "consumes s1 s2 (rlp_vals vs)" "P vs" using assms(4) r(1) by auto
  show thesis using that [OF r(2) c(2)] ListEnd_iff [OF assms(1) List_sound [OF assms(1,2)] c(1)] r(3)
    by (auto split: if_splits)
qed

lemma iface_decoder: "elem_decoder (decodeInterface n) iface_val"
proof (induction n)
  case 0
  show ?case by unfold_locales simp_all
next
  case (Suc n)
  show ?case
  proof
    fix s v s' assume r: "ready s" and d: "decodeInterface (Suc n) s = Some (Inr v, s')"
    obtain k sz s1 where k: "Stream_Kind s = (Inr (k, sz), s1)"
      using d by (auto split: prod.splits sum.splits)
    note same = Kind_same [OF r k]
    show "consumes s s' (rlp_val v) \<and> iface_val v"
    proof (cases "k = List")
      case True
      then obtain vs where vs: "decodeListSlice (Suc n) (decodeInterface n) s1 = Some (Inr vs, s')" "v = VIface (VSlice vs)"
        using d k by (auto simp: st_binds)
      have "decodeListSlice (Suc n) (decodeInterface n) s = Some (Inr vs, s')"
        using vs(1) List_same [OF same] by (simp add: decodeListSlice_def)
      then show ?thesis using elem_decoder.list_slice_sound [OF Suc.IH r] vs(2) by simp
    next
      case False
      then obtain b where b: "Stream_Bytes s1 = (Inr b, s')" "v = VIface (VBytes b)" using d k by (auto simp: st_binds)
      then show ?thesis using Bytes_sound [OF r] Bytes_same [OF same] by simp
    qed
  next
    fix s s' assume r: "ready s" and d: "decodeInterface (Suc n) s = Some (Inl EOL, s')"
    show "eol_at s s'"
    proof (cases "Stream_Kind s")
      case (Pair x s1)
      show ?thesis
      proof (cases x)
        case (Inl e)
        then show ?thesis using Pair d Kind_eol_iff [OF r] by auto
      next
        case (Inr p)
        obtain k sz where p: "p = (k, sz)" by fastforce
        have k: "Stream_Kind s = (Inr (k, sz), s1)" using Pair Inr p by simp
        note same = Kind_same [OF r k]
        show ?thesis
        proof (cases "k = List")
          case True
          then have "decodeListSlice (Suc n) (decodeInterface n) s1 = Some (Inl EOL, s')"
            using d k by (auto simp: st_binds)
          then have "decodeListSlice (Suc n) (decodeInterface n) s = Some (Inl EOL, s')"
            using List_same [OF same] by (simp add: decodeListSlice_def)
          then show ?thesis using elem_decoder.list_slice_eol [OF Suc.IH r] by simp
        next
          case False
          then have "Stream_Bytes s1 = (Inl EOL, s')" using d k by (auto simp: st_binds)
          then show ?thesis using eol_Bytes [OF r] Bytes_same [OF same] by simp
        qed
      qed
    qed
  qed
qed

interpretation iface: elem_decoder "decodeInterface n" iface_val for n
  by (rule iface_decoder)

lemma bigint_bytes:
  assumes "\<not> (0 < length b \<and> b ! 0 = 0)"
  shows "be_bytes (be_nat b) = b"
  using assms by (intro be_bytes_unique) auto

lemma byte_array_sound:
  assumes "ready s" "decodeByteArray m s = (Inr v, s')" "m \<noteq> 1" "m < 2 ^ 63"
  shows "\<exists>b. v = VByteArray b \<and> length b = m \<and> consumes s s' (rlp_str b)"
proof -
  obtain k sz s1 where k: "Stream_Kind s = (Inr (k, sz), s1)"
    using assms(2) by (auto simp: decodeByteArray_def st_binds)
  have ki: "kinded s s1 k sz" using Kind_sound [OF assms(1) k] .
  have "k = String" and sz: "\<not> of_nat m < sz" "\<not> sz < of_nat m"
    using assms(2,3) k by (auto simp: decodeByteArray_def st_binds split: kind.splits if_splits)
  then have u: "sz = of_nat m" by simp
  then obtain b where rf: "readFull sz s1 = (Inr b, s')" and v: "v = VByteArray b"
    using assms(2) k \<open>k = String\<close> by (auto simp: decodeByteArray_def st_binds split: if_splits)
  have c: "consumes s1 s' b" "length b = unat sz" using readFull_sound [OF kinded_core [OF ki] rf] .
  have m: "unat sz = m" unfolding u using assms(4) by (intro unat_u64_of_nat) simp
  have "rlp_str b = khead String sz (st_byteval s1) @ b" using c(2) m assms(3) by (simp add: rlp_str_def)
  moreover have "took s s1 (khead String sz (st_byteval s1))" using ki \<open>k = String\<close> by (simp add: kinded_def)
  ultimately have "consumes s s' (rlp_str b)"
    using took_trans [of s s1 "khead String sz (st_byteval s1)" s' b] c(1) assms(1) by (simp add: consumes_def ready_def)
  then show ?thesis using v c(2) m by simp
qed

lemma byte_array_eol:
  assumes "ready s" "decodeByteArray m s = (Inl EOL, s')"
  shows "eol_at s s'"
proof (cases "Stream_Kind s")
  case (Pair x s1)
  show ?thesis
  proof (cases x)
    case (Inl e)
    then show ?thesis using Pair assms Kind_eol_iff [OF assms(1), of s'] by (simp add: decodeByteArray_def st_bind_def)
  next
    case (Inr p)
    obtain k sz where "p = (k, sz)" by fastforce
    then have "decodeByteArray m s \<noteq> (Inl EOL, s')"
      using Pair Inr readFull_no_eol [of "of_nat m" s1 s'] unfolding decodeByteArray_def
      by (cases k) (auto simp: st_binds split: prod.splits sum.splits)
    then show ?thesis using assms(2) by contradiction
  qed
qed

text \<open>An empty string or list is read as nil.\<close>

lemma nil_head:
  assumes "ready s" "Stream_Kind s = (Inr (k, sz), s1)" "\<not> (k \<noteq> Byte \<and> sz = 0)" "consumes s s' e"
  shows "e \<noteq> [0x80] \<and> e \<noteq> [0xC0]"
proof -
  have e: "st_in s = e @ st_in s'" "length e \<le> room s" using assms(4) by (auto simp: consumes_def took_def)
  have "e \<noteq> khead k' 0 0" if "k' \<noteq> Byte" for k'
  proof
    assume k': "e = khead k' 0 0"
    obtain s2 where "Stream_Kind s = (Inr (k', 0), s2)"
      by (rule Kind_complete [OF assms(1), of k' 0 0 "st_in s'"]) (use e k' that in simp_all)
    then show False using assms(2,3) that by simp
  qed
  from this [of String] this [of List] show ?thesis by (simp add: rlp_head_def)
qed

lemma nil_ptr_decoder:
  assumes "elem_decoder dec ok"
    and same: "\<And>s s1. Stream_Kind s1 = Stream_Kind s \<Longrightarrow> dec s1 = dec s"
  shows "elem_decoder (nil_ptr k dec)
     (\<lambda>v. v = VNilPtr k \<and> k \<noteq> Byte \<or> (\<exists>w. v = VPtr w \<and> ok w \<and> rlp_val w \<noteq> [0x80] \<and> rlp_val w \<noteq> [0xC0]))"
proof
  fix s v s' assume r: "ready s" and d: "nil_ptr k dec s = Some (Inr v, s')"
  obtain k' sz s1 where k: "Stream_Kind s = (Inr (k', sz), s1)"
    using d by (auto simp: nil_ptr_def split: prod.splits sum.splits)
  have ki: "kinded s s1 k' sz" using Kind_sound [OF r k] .
  show "consumes s s' (rlp_val v) \<and>
     (v = VNilPtr k \<and> k \<noteq> Byte \<or> (\<exists>w. v = VPtr w \<and> ok w \<and> rlp_val w \<noteq> [0x80] \<and> rlp_val w \<noteq> [0xC0]))"
  proof (cases "k' \<noteq> Byte \<and> sz = 0")
    case True
    then have "k' = k" "v = VNilPtr k" "s' = s1\<lparr>st_kind := None\<rparr>"
      using d k by (auto simp: nil_ptr_def split: if_splits)
    then show ?thesis using ki True
      by (cases k) (auto simp: kinded_def consumes_def rlp_head_def rlp_list_def)
  next
    case False
    then obtain w where w: "dec s1 = Some (Inr w, s')" "v = VPtr w"
      using d k by (auto simp: nil_ptr_def st_binds)
    then have "dec s = Some (Inr w, s')" using same [OF Kind_same [OF r k]] by simp
    then have c: "consumes s s' (rlp_val w)" "ok w" using elem_decoder.sound [OF assms(1) r] by auto
    then show ?thesis using w(2) nil_head [OF r k False c(1)] by simp
  qed
next
  fix s s' assume r: "ready s" and d: "nil_ptr k dec s = Some (Inl EOL, s')"
  show "eol_at s s'"
  proof (cases "Stream_Kind s")
    case (Pair x s1)
    show ?thesis
    proof (cases x)
      case (Inl e)
      then show ?thesis using Pair d Kind_eol_iff [OF r] by (auto simp: nil_ptr_def wrap_eol)
    next
      case (Inr p)
      obtain k' sz where p: "p = (k', sz)" by fastforce
      then have k: "Stream_Kind s = (Inr (k', sz), s1)" using Pair Inr by simp
      then have "dec s1 = Some (Inl EOL, s')" using d by (auto simp: nil_ptr_def st_binds split: if_splits)
      then have "dec s = Some (Inl EOL, s')" using same [OF Kind_same [OF r k]] by simp
      then show ?thesis using elem_decoder.eol [OF assms(1) r] by simp
    qed
  qed
qed

lemma fields_sound:
  assumes "\<And>t. t \<in> set ts \<Longrightarrow> elem_decoder (decode n t) (has_ty t)"
  shows "ready s \<Longrightarrow> decode_fields n ts s = Some (Inr vs, s') \<Longrightarrow> consumes s s' (rlp_vals vs) \<and> has_tys ts vs"
  using assms
proof (induction ts arbitrary: s vs)
  case Nil
  then show ?case using took_refl by (auto simp: consumes_def ready_def)
next
  case (Cons t ts)
  obtain v s1 ws where d: "decode n t s = Some (Inr v, s1)" "decode_fields n ts s1 = Some (Inr ws, s')" "vs = v # ws"
    using Cons.prems(2) by (auto simp: st_binds split: option.splits prod.splits sum.splits)
  have c: "consumes s s1 (rlp_val v)" "has_ty t v"
    using elem_decoder.sound [OF Cons.prems(3) Cons.prems(1) d(1)] by auto
  have w: "consumes s1 s' (rlp_vals ws) \<and> has_tys ts ws"
    using Cons.IH [OF consumes_ready [OF c(1)] d(2)] Cons.prems(3) by simp
  then show ?case using c d(3) consumes_trans [OF Cons.prems(1) c(1)] by simp
qed

lemma fields_no_eol: "decode_fields n ts s \<noteq> Some (Inl EOL, s')"
  by (induction ts arbitrary: s) (auto simp: st_binds split: option.splits prod.splits sum.splits if_splits)

lemma list_decoder:
  fixes g :: "rstream \<Rightarrow> gval list dres"
  assumes dec: "\<And>s. dec s = (case Stream_List s of (Inl e, s1) \<Rightarrow> Some (Inl (wrapStreamError e), s1)
       | (Inr _, s1) \<Rightarrow> map_option (list_end f) (g s1))"
    and g: "\<And>s vs s'. ready s \<Longrightarrow> g s = Some (Inr vs, s') \<Longrightarrow> consumes s s' (rlp_vals vs) \<and> P vs"
    and no_eol: "\<And>s s'. g s \<noteq> Some (Inl EOL, s')"
    and f: "\<And>vs. rlp_val (f vs) = rlp_list (rlp_vals vs)"
  shows "elem_decoder dec (\<lambda>v. \<exists>vs. v = f vs \<and> P vs)"
proof
  fix s v s' assume r: "ready s" and d: "dec s = Some (Inr v, s')"
  obtain sz s1 q where l: "Stream_List s = (Inr sz, s1)" "g s1 = Some q" "list_end f q = (Inr v, s')"
    using d unfolding dec by (auto split: prod.splits sum.splits)
  have r1: "ready s1" using List_sound [OF r l(1)] by (simp add: opened_def)
  have q: "consumes s1 s2 (rlp_vals vs) \<and> P vs" if "q = (Inr vs, s2)" for vs s2
    using g [OF r1] l(2) that by simp
  obtain vs where "v = f vs" "P vs" "consumes s s' (rlp_list (rlp_vals vs))"
    by (rule list_end_sound [OF r l(1,3) q])
  then show "consumes s s' (rlp_val v) \<and> (\<exists>vs. v = f vs \<and> P vs)" using f by auto
next
  fix s s' assume r: "ready s" and d: "dec s = Some (Inl EOL, s')"
  have "Stream_List s = (Inl EOL, s')"
  proof (cases "Stream_List s")
    case (Pair x s1)
    show ?thesis
    proof (cases x)
      case (Inl e)
      then show ?thesis using Pair d by (simp add: dec wrap_eol)
    next
      case (Inr sz)
      then obtain q where "g s1 = Some q" "list_end f q = (Inl EOL, s')" using Pair d by (auto simp: dec)
      then show ?thesis using list_end_no_eol [of q s' f] no_eol [of s1 s'] by auto
    qed
  qed
  then show "eol_at s s'" using eol_List [OF r] by simp
qed

lemma decode_decoder: "wf_ty t \<or> wf_tail t \<Longrightarrow> elem_decoder (decode n t) (has_ty t)"
proof (induction t)
  case (TUint bits)
  then show ?case using uint_sound eol_uint
    by unfold_locales (auto simp: decodeUint_def wrapped_Inr wrapped_eol)
next
  case TBool
  then show ?case using Bool_sound eol_Bool
    by unfold_locales (auto simp: decodeBool_def wrapped_Inr wrapped_eol)
next
  case TText
  then show ?case using Bytes_sound eol_Bytes
    by unfold_locales (auto simp: decodeString_def wrapped_Inr wrapped_eol)
next
  case TBigInt
  then show ?case using Bytes_sound eol_Bytes
    by unfold_locales (fastforce simp: decodeBigInt_def bigint_bytes wrap_eol split: prod.splits sum.splits if_splits)+
next
  case TBigIntNoPtr
  then show ?case using Bytes_sound eol_Bytes
    by unfold_locales (fastforce simp: decodeBigInt_def bigint_bytes wrap_eol split: prod.splits sum.splits if_splits)+
next
  case TBytes
  then show ?case using Bytes_sound eol_Bytes
    by unfold_locales (auto simp: decodeByteSlice_def wrapped_Inr wrapped_eol)
next
  case (TByteArray m)
  then show ?case using byte_array_sound [where m = m] byte_array_eol [where m = m]
    by unfold_locales fastforce+
next
  case (TSlice t)
  then have e: "elem_decoder (decode n t) (has_ty t)" by simp
  show ?case
    by unfold_locales (auto simp: st_binds dest: elem_decoder.list_slice_sound [OF e] elem_decoder.list_slice_eol [OF e])
next
  case (TArray m t)
  then have e: "elem_decoder (decode n t) (has_ty t)" by simp
  have ty: "has_ty (TArray m t) = (\<lambda>v. \<exists>vs. v = VSlice vs \<and> length vs = m \<and> list_all (has_ty t) vs)"
    by (simp add: fun_eq_iff)
  show ?case unfolding ty
    by (rule list_decoder [where g = "array_elems m (decode n t)"])
      (auto simp: decodeListArray_def elem_decoder.array_no_eol [OF e] dest: elem_decoder.array_sound [OF e])
next
  case (TStruct ts)
  then have "wf_ty t \<or> wf_tail t" if "t \<in> set ts" for t using that
  proof (induction ts)
    case (Cons u us)
    then show ?case by auto
  qed simp
  then have e: "\<And>t. t \<in> set ts \<Longrightarrow> elem_decoder (decode n t) (has_ty t)" using TStruct.IH by blast
  have ty: "has_ty (TStruct ts) = (\<lambda>v. \<exists>vs. v = VStruct vs \<and> has_tys ts vs)" by (simp add: fun_eq_iff)
  show ?case unfolding ty
    by (rule list_decoder [where g = "decode_fields n ts", OF _ fields_sound [OF e]]) (simp_all add: fields_no_eol)
next
  case (TTail t)
  then have e: "elem_decoder (decode n t) (has_ty t)" by simp
  show ?case
    by unfold_locales
      (auto simp: st_binds elem_decoder.slice_no_eol [OF e] dest: elem_decoder.slice_sound [OF e])
next
  case (TPtr t)
  then have e: "elem_decoder (decode n t) (has_ty t)" by simp
  show ?case
    by unfold_locales (auto simp: st_binds dest: elem_decoder.sound [OF e] elem_decoder.eol [OF e])
next
  case (TNilPtr k t)
  then have e: "elem_decoder (decode n t) (has_ty t)" and w: "wf_ty t" by auto
  have ty: "has_ty (TNilPtr k t) = (\<lambda>v. v = VNilPtr k \<and> k \<noteq> Byte \<or>
      (\<exists>w. v = VPtr w \<and> has_ty t w \<and> rlp_val w \<noteq> [0x80] \<and> rlp_val w \<noteq> [0xC0]))"
    "decode n (TNilPtr k t) = nil_ptr k (decode n t)"
    by (simp_all add: fun_eq_iff)
  show ?case unfolding ty using nil_ptr_decoder [OF e decode_same, of k] w by simp
next
  case TIface
  then show ?case using iface_decoder [of n] by simp
next
  case TRaw
  then show ?case using Raw_sound eol_Raw
    by unfold_locales (fastforce simp: decodeRawValue_def st_binds)+
qed

section \<open>Completeness and termination\<close>

text \<open>
  A decoder with fuel \<open>N\<close> returns when the input is shorter than \<open>N\<close>, reports the end of a list, and reads
  every encoding of a value that fits.
\<close>

locale total_decoder = elem_decoder +
  fixes N :: nat
  assumes nonempty: "ok v \<Longrightarrow> rlp_val v \<noteq> []"
    and total: "ready s \<Longrightarrow> length (st_in s) < N \<Longrightarrow> dec s \<noteq> None"
    and at_end: "ready s \<Longrightarrow> eol_at s s' \<Longrightarrow> 0 < N \<Longrightarrow> dec s = Some (Inl EOL, s')"
    and complete: "ok v \<Longrightarrow> ready s \<Longrightarrow> st_in s = rlp_val v @ rest \<Longrightarrow> length (rlp_val v) \<le> room s \<Longrightarrow>
      length (st_in s) < N \<Longrightarrow> \<exists>s'. dec s = Some (Inr v, s')"
begin

lemma progress:
  assumes "ready s" "dec s = Some (Inr v, s')"
  shows "consumes s s' (rlp_val v)" "ready s'" "length (st_in s') < length (st_in s)"
proof -
  show c: "consumes s s' (rlp_val v)" using sound [OF assms] by simp
  show "ready s'" using c by (rule consumes_ready)
  have "rlp_val v \<noteq> []" using sound [OF assms] nonempty by simp
  then show "length (st_in s') < length (st_in s)" using c by (simp add: consumes_def took_def)
qed

lemma slice_total:
  "ready s \<Longrightarrow> length (st_in s) < N \<Longrightarrow> length (st_in s) < m \<Longrightarrow> decodeSliceElems m dec s acc \<noteq> None"
proof (induction m arbitrary: s acc)
  case (Suc m)
  obtain r s1 where d: "dec s = Some (r, s1)" using total [OF Suc.prems(1,2)] by auto
  show ?case
  proof (cases r)
    case (Inl e)
    then show ?thesis using d by simp
  next
    case (Inr v)
    then have "ready s1" "length (st_in s1) < length (st_in s)" using progress [OF Suc.prems(1)] d by auto
    then show ?thesis using Suc d Inr by simp
  qed
qed simp

lemma list_slice_total:
  assumes "ready s" "length (st_in s) \<le> N" "length (st_in s) \<le> m"
  shows "decodeListSlice m dec s \<noteq> None"
proof (cases "Stream_List s")
  case (Pair x s1)
  show ?thesis
  proof (cases x)
    case (Inl e)
    then show ?thesis using Pair by (simp add: decodeListSlice_def)
  next
    case (Inr sz)
    then have o: "opened s s1 sz" using List_sound [OF assms(1)] Pair by simp
    then have "length (st_in s1) < length (st_in s)" "ready s1" by (auto simp: opened_def rlp_head_def)
    then obtain q where "decodeSliceElems m dec s1 [] = Some q" using slice_total [of s1 m "[]"] assms(2,3) by auto
    then show ?thesis using Pair Inr by (simp add: decodeListSlice_def)
  qed
qed

lemma array_total:
  "ready s \<Longrightarrow> length (st_in s) < N \<Longrightarrow> array_elems m dec s \<noteq> None"
proof (induction m arbitrary: s)
  case (Suc m)
  obtain r s1 where d: "dec s = Some (r, s1)" using total [OF Suc.prems(1,2)] by auto
  show ?case
  proof (cases r)
    case (Inl e)
    then show ?thesis using d by simp
  next
    case (Inr v)
    then have "ready s1" "length (st_in s1) < length (st_in s)" using progress [OF Suc.prems(1)] d by auto
    then show ?thesis using Suc d Inr by simp
  qed
qed simp

lemma at_eol_0: "ready s \<Longrightarrow> room s = 0 \<Longrightarrow> st_stack s \<noteq> [] \<Longrightarrow> at_eol s"
  by (auto simp: at_eol_def room_def ready_def core_def word_le_nat_alt word_unat_eq_iff split: list.splits)

lemma next_elem:
  assumes "ok v" "ready s" "st_in s = (rlp_val v @ e) @ rest" "length (rlp_val v @ e) \<le> room s" "length (st_in s) < N"
  obtains s1 where "dec s = Some (Inr v, s1)" "ready s1" "st_in s1 = e @ rest" "room s1 = room s - length (rlp_val v)"
    "length (st_in s1) < N" "st_stack s1 = [] \<longleftrightarrow> st_stack s = []"
proof -
  obtain s1 where d: "dec s = Some (Inr v, s1)"
    using complete [OF assms(1,2), of "e @ rest"] assms(3-5) by auto
  have c: "consumes s s1 (rlp_val v)" "ready s1" using progress [OF assms(2) d] by auto
  have t: "took s s1 (rlp_val v)" "core s" using c(1) assms(2) by (simp_all add: consumes_def ready_def)
  have "st_in s1 = e @ rest" using t(1) assms(3) by (simp add: took_def)
  moreover have "length (st_in s1) < N" using took_len [OF t(1)] assms(5) by linarith
  moreover have "st_stack s1 = [] \<longleftrightarrow> st_stack s = []" using t(1) by (simp add: took_def)
  ultimately show thesis using that [OF d c(2)] took_room [OF t(2,1)] by simp
qed

lemma slice_complete:
  assumes "list_all ok vs" "ready s" "st_stack s \<noteq> []" "st_in s = rlp_vals vs @ rest" "room s = length (rlp_vals vs)"
    "length (st_in s) < N" "length vs < m"
  shows "\<exists>s'. decodeSliceElems m dec s acc = Some (Inr (acc @ vs), s')"
  using assms
proof (induction vs arbitrary: s acc m)
  case Nil
  then have "at_eol s" using at_eol_0 by simp
  then have "dec s = Some (Inl EOL, s\<lparr>st_kinderr := None\<rparr>)"
    using at_end [of s "s\<lparr>st_kinderr := None\<rparr>"] Nil by (simp add: eol_at_def)
  then show ?case using Nil(7) by (cases m) auto
next
  case (Cons v vs)
  obtain m' where m: "m = Suc m'" using Cons.prems(7) by (cases m) auto
  obtain s1 where s1: "dec s = Some (Inr v, s1)" "ready s1" "st_in s1 = rlp_vals vs @ rest"
    "room s1 = room s - length (rlp_val v)" "length (st_in s1) < N" "st_stack s1 = [] \<longleftrightarrow> st_stack s = []"
    using next_elem [of v s "rlp_vals vs" rest] Cons.prems by auto
  then have "\<exists>s'. decodeSliceElems m' dec s1 (acc @ [v]) = Some (Inr ((acc @ [v]) @ vs), s')"
    using Cons.prems m by (intro Cons.IH) auto
  then show ?case using s1(1) m by simp
qed

lemma length_vals: "list_all ok vs \<Longrightarrow> length vs \<le> length (rlp_vals vs)"
proof (induction vs)
  case (Cons v vs)
  then have "1 \<le> length (rlp_val v)" using nonempty [of v] by (simp add: Suc_le_eq)
  then show ?case using Cons by simp
qed simp

lemma list_slice_complete:
  assumes "list_all ok vs" "ready s" "st_in s = rlp_list (rlp_vals vs) @ rest" "length (rlp_list (rlp_vals vs)) \<le> room s"
    "length (st_in s) \<le> N" "length (st_in s) \<le> m"
  shows "\<exists>s'. decodeListSlice m dec s = Some (Inr vs, s')"
proof -
  obtain s1 sz where l: "Stream_List s = (Inr sz, s1)" "opened s s1 sz" "unat sz = length (rlp_vals vs)"
    "st_in s1 = rlp_vals vs @ rest"
    using List_complete [OF assms(2-4)] .
  have r1: "ready s1" and st: "st_stack s1 \<noteq> []" using l(2) by (auto simp: opened_def)
  have len: "length (st_in s1) < length (st_in s)" using l(2) by (simp add: opened_def rlp_head_def)
  show ?thesis
  proof (cases "sz = 0")
    case True
    then have "length (rlp_vals vs) = 0" using l(3) by simp
    then have "length vs = 0" using length_vals [OF assms(1)] by linarith
    then have "vs = []" by simp
    moreover have "consumes s1 s1 []" using r1 took_refl by (simp add: consumes_def ready_def)
    ultimately have "\<exists>s'. Stream_ListEnd s1 = (Inr (), s')"
      using ListEnd_iff [OF assms(2) l(2), of s1 "[]"] True by auto
    then show ?thesis using True l(1) \<open>vs = []\<close> by (auto simp: decodeListSlice_def st_bind_def)
  next
    case False
    have "length vs < m" using length_vals [OF assms(1)] l(4) len assms(6) by simp
    then obtain s2 where d: "decodeSliceElems m dec s1 [] = Some (Inr vs, s2)"
      using slice_complete [OF assms(1) r1 st l(4), of m "[]"] opened_room [OF l(2)] l(3) len assms(5) by auto
    then have c: "consumes s1 s2 (rlp_vals vs)" using slice_sound [OF r1 d] by auto
    have "\<exists>s'. Stream_ListEnd s2 = (Inr (), s')" using ListEnd_iff [OF assms(2) l(2) c] l(3) by auto
    then show ?thesis using False l(1) d by (auto simp: decodeListSlice_def st_bind_def)
  qed
qed

lemma array_complete:
  assumes "list_all ok vs" "ready s" "st_in s = rlp_vals vs @ rest" "length (rlp_vals vs) \<le> room s" "length (st_in s) < N"
  shows "\<exists>s'. array_elems (length vs) dec s = Some (Inr vs, s')"
  using assms
proof (induction vs arbitrary: s)
  case (Cons v vs)
  obtain s1 where s1: "dec s = Some (Inr v, s1)" "ready s1" "st_in s1 = rlp_vals vs @ rest"
    "room s1 = room s - length (rlp_val v)" "length (st_in s1) < N"
    using next_elem [of v s "rlp_vals vs" rest] Cons.prems by auto
  then have "\<exists>s'. array_elems (length vs) dec s1 = Some (Inr vs, s')" using Cons.prems by (intro Cons.IH) auto
  then show ?case using s1(1) by (auto simp: st_bind_def)
qed simp

end

lemma rlp_str_ne: "rlp_str b \<noteq> []"
  by (auto simp: rlp_str_def rlp_head_def)

lemma rlp_list_ne: "rlp_list c \<noteq> []"
  by (simp add: rlp_list_def rlp_head_def)

lemma iface_nonempty: "iface_val v \<Longrightarrow> rlp_val v \<noteq> []"
  by (induction v rule: iface_val.induct) (simp_all add: rlp_str_ne rlp_list_ne)

text \<open>The kind that is read at the front of an encoding.\<close>

lemma Kind_of_list:
  assumes "ready s" "st_in s = rlp_list c @ rest" "length (rlp_list c) \<le> room s"
  obtains sz s1 where "Stream_Kind s = (Inr (List, sz), s1)"
  by (rule List_complete [OF assms]) (auto simp: Stream_List_def st_binds split: if_splits)

lemma Kind_of_string:
  assumes "ready s" "st_in s = rlp_str b @ rest" "length (rlp_str b) \<le> room s"
  obtains k sz s1 where "Stream_Kind s = (Inr (k, sz), s1)" "k \<noteq> List"
proof -
  obtain s' where b: "Stream_Bytes s = (Inr b, s')" using Bytes_complete [OF assms] .
  then obtain k sz s1 where k: "Stream_Kind s = (Inr (k, sz), s1)" by (auto simp: Stream_Bytes_def st_binds)
  moreover have "k \<noteq> List" using b k by (auto simp: Stream_Bytes_def st_bind_def)
  ultimately show thesis using that by blast
qed

lemma iface_total: "total_decoder (decodeInterface n) iface_val n"
proof (induction n)
  case 0
  show ?case by unfold_locales (simp_all add: iface_nonempty)
next
  case (Suc n)
  note slice = total_decoder.list_slice_total [OF Suc.IH] total_decoder.list_slice_complete [OF Suc.IH]
  show ?case
  proof (intro total_decoder.intro iface_decoder total_decoder_axioms.intro)
    fix v assume "iface_val v"
    then show "rlp_val v \<noteq> []" by (rule iface_nonempty)
  next
    fix s assume r: "ready s" and len: "length (st_in s) < Suc n"
    show "decodeInterface (Suc n) s \<noteq> None"
    proof (cases "Stream_Kind s")
      case (Pair x s1)
      show ?thesis
      proof (cases x)
        case (Inl e)
        then show ?thesis using Pair by simp
      next
        case (Inr p)
        obtain k sz where p: "p = (k, sz)" by fastforce
        have k: "Stream_Kind s = (Inr (k, sz), s1)" using Pair Inr p by simp
        have "decodeListSlice (Suc n) (decodeInterface n) s1 = decodeListSlice (Suc n) (decodeInterface n) s"
          using List_same [OF Kind_same [OF r k]] by (simp add: decodeListSlice_def)
        then show ?thesis using k slice(1) [OF r, of "Suc n"] len by (auto simp: prod.case_eq_if)
      qed
    qed
  next
    fix s s' assume "ready s" "eol_at s s'"
    then have "Stream_Kind s = (Inl EOL, s')" using Kind_eol_iff [of s s'] by simp
    then show "decodeInterface (Suc n) s = Some (Inl EOL, s')" by simp
  next
    fix v s rest assume v: "iface_val v" and r: "ready s" and inp: "st_in s = rlp_val v @ rest"
      and rm: "length (rlp_val v) \<le> room s" and len: "length (st_in s) < Suc n"
    consider b where "v = VIface (VBytes b)" | vs where "v = VIface (VSlice vs)" "list_all iface_val vs"
      using v by (cases v rule: iface_val.cases) auto
    then show "\<exists>s'. decodeInterface (Suc n) s = Some (Inr v, s')"
    proof cases
      case 1
      then have e: "st_in s = rlp_str b @ rest" "length (rlp_str b) \<le> room s" using inp rm by simp_all
      obtain k sz s1 where k: "Stream_Kind s = (Inr (k, sz), s1)" "k \<noteq> List" using Kind_of_string [OF r e] .
      obtain s' where "Stream_Bytes s = (Inr b, s')" using Bytes_complete [OF r e] .
      then show ?thesis using k Bytes_same [OF Kind_same [OF r k(1)]] 1 by (simp add: st_bind_def)
    next
      case 2
      then have e: "st_in s = rlp_list (rlp_vals vs) @ rest" "length (rlp_list (rlp_vals vs)) \<le> room s" using inp rm by simp_all
      obtain sz s1 where k: "Stream_Kind s = (Inr (List, sz), s1)" using Kind_of_list [OF r e] .
      have "decodeListSlice (Suc n) (decodeInterface n) s1 = decodeListSlice (Suc n) (decodeInterface n) s"
        using List_same [OF Kind_same [OF r k]] by (simp add: decodeListSlice_def)
      moreover obtain s' where "decodeListSlice (Suc n) (decodeInterface n) s = Some (Inr vs, s')"
        using slice(2) [OF 2(2) r e, of "Suc n"] len by auto
      ultimately show ?thesis using k 2(1) by (simp add: st_bind_def)
    qed
  qed
qed

interpretation ifacet: total_decoder "decodeInterface n" iface_val n for n
  by (rule iface_total)

lemma enc_item_raw_ne: "(k = Byte \<longrightarrow> item_ok k c) \<Longrightarrow> enc_item k c \<noteq> []"
  by (cases k) (auto simp: rlp_head_def)

lemma has_ty_nonempty: "wf_ty t \<Longrightarrow> has_ty t v \<Longrightarrow> rlp_val v \<noteq> []"
proof (induction t arbitrary: v)
  case TRaw
  then show ?case using enc_item_raw_ne by auto
next
  case (TNilPtr k t)
  then show ?case by (cases "k = String") (auto simp: rlp_list_ne)
qed (auto simp: rlp_str_ne rlp_list_ne iface_nonempty)

text \<open>The encoding of a value is one item.\<close>

definition one_item :: "bytes \<Rightarrow> bool" where
  "one_item e \<longleftrightarrow> (\<exists>k c. e = enc_item k c \<and> (k = Byte \<longrightarrow> item_ok k c))"

lemma one_item_str: "one_item (rlp_str b)"
proof (cases "length b = 1 \<and> b ! 0 < 0x80")
  case True
  then show ?thesis unfolding one_item_def by (intro exI [of _ Byte] exI [of _ b]) (auto simp: rlp_str_def)
next
  case False
  then show ?thesis unfolding one_item_def by (intro exI [of _ String] exI [of _ b]) (auto simp: rlp_str_def)
qed

lemma one_item_list: "one_item (rlp_list c)"
  unfolding one_item_def by (intro exI [of _ List] exI [of _ c]) (simp add: rlp_list_def)

lemma iface_item: "iface_val v \<Longrightarrow> one_item (rlp_val v)"
  by (induction v rule: iface_val.induct) (simp_all add: one_item_str one_item_list)

lemma has_ty_item: "wf_ty t \<Longrightarrow> has_ty t v \<Longrightarrow> one_item (rlp_val v)"
proof (induction t arbitrary: v)
  case TRaw
  then obtain b k c where "v = VRaw b" "b = enc_item k c" "k = Byte \<longrightarrow> item_ok k c" by auto
  then show ?case unfolding one_item_def by (intro exI [of _ k] exI [of _ c]) simp
next
  case (TNilPtr k t)
  then show ?case using one_item_str [of "[]"] by (cases "k = String") (auto simp: one_item_list)
qed (auto simp: one_item_str one_item_list iface_item)

lemma Kind_of_item:
  assumes "ready s" "one_item e" "st_in s = e @ rest" "length e \<le> room s"
  obtains k sz s1 where "Stream_Kind s = (Inr (k, sz), s1)" "k \<noteq> Byte \<and> sz = 0 \<Longrightarrow> e = [0x80] \<or> e = [0xC0]"
proof -
  obtain k c where e: "e = enc_item k c" "k = Byte \<longrightarrow> item_ok k c" using assms(2) by (auto simp: one_item_def)
  show thesis
  proof (cases "k = Byte")
    case True
    then obtain x where x: "e = [x]" "x < 0x80" using e by (cases e) auto
    obtain s1 where "Stream_Kind s = (Inr (Byte, 0), s1)"
      by (rule Kind_complete [OF assms(1), of Byte 0 x rest]) (use x assms(3,4) in simp_all)
    then show thesis using that by blast
  next
    case False
    have len: "length c < 2 ^ 64"
      using core_length [of s] assms(1,3) e length_enc_item [of k c] by (simp add: ready_def)
    define sz where "sz = (of_nat (length c) :: u64)"
    have u: "unat sz = length c" using unat_u64_of_nat [OF len] by (simp add: sz_def)
    have h: "e = khead k sz 0 @ c" using False e(1) u by (cases k) auto
    obtain s1 where k: "Stream_Kind s = (Inr (k, sz), s1)"
      by (rule Kind_complete [OF assms(1), of k sz 0 "c @ rest"]) (use False h assms(3,4) u in simp_all)
    moreover have "e = [0x80] \<or> e = [0xC0]" if "sz = 0"
      using h u that False by (cases k) (auto simp: rlp_head_def)
    ultimately show thesis using that by blast
  qed
qed

lemma decode_at_end:
  assumes "ready s" "eol_at s s'" "0 < n"
  shows "wf_ty t \<Longrightarrow> decode n t s = Some (Inl EOL, s')"
proof (induction t)
  case TIface
  have "Stream_Kind s = (Inl EOL, s')" using assms Kind_eol_iff by simp
  then show ?case using assms(3) by (cases n) simp_all
next
  case (TByteArray m)
  have "Stream_Kind s = (Inl EOL, s')" using assms Kind_eol_iff by simp
  then show ?case by (simp add: decodeByteArray_def st_bind_def)
next
  case (TNilPtr k t)
  have "Stream_Kind s = (Inl EOL, s')" using assms Kind_eol_iff by simp
  then show ?case by (simp add: nil_ptr_def)
qed (use assms eol_Bytes [of s s'] eol_uint [of s _ s'] eol_Bool [of s s'] eol_List [of s s'] eol_Raw [of s s'] in
    \<open>simp_all add: decodeUint_def decodeBool_def decodeString_def decodeByteSlice_def decodeBigInt_def wrapped_def
      decodeRawValue_def st_bind_def decodeListSlice_def decodeListArray_def\<close>)

lemma total_decoderI:
  assumes "wf_ty t" "\<And>s. ready s \<Longrightarrow> length (st_in s) < n \<Longrightarrow> decode n t s \<noteq> None"
    and "\<And>v s rest. has_ty t v \<Longrightarrow> ready s \<Longrightarrow> st_in s = rlp_val v @ rest \<Longrightarrow> length (rlp_val v) \<le> room s \<Longrightarrow>
      length (st_in s) < n \<Longrightarrow> \<exists>s'. decode n t s = Some (Inr v, s')"
  shows "total_decoder (decode n t) (has_ty t) n"
proof (intro total_decoder.intro total_decoder_axioms.intro)
  show "elem_decoder (decode n t) (has_ty t)" using decode_decoder assms(1) by simp
  show "rlp_val v \<noteq> []" if "has_ty t v" for v using has_ty_nonempty [OF assms(1) that] .
  show "decode n t s = Some (Inl EOL, s')" if "ready s" "eol_at s s'" "0 < n" for s s'
    using decode_at_end [OF that assms(1)] .
qed (use assms in blast)+

lemma nil_ptr_complete:
  assumes "total_decoder dec ok N" and same: "\<And>s s1. Stream_Kind s1 = Stream_Kind s \<Longrightarrow> dec s1 = dec s"
    and v: "v = VNilPtr k \<and> k \<noteq> Byte \<or> (\<exists>w. v = VPtr w \<and> ok w \<and> rlp_val w \<noteq> [0x80] \<and> rlp_val w \<noteq> [0xC0])"
    and item: "\<And>w. ok w \<Longrightarrow> one_item (rlp_val w)"
    and r: "ready s" and inp: "st_in s = rlp_val v @ rest" and rm: "length (rlp_val v) \<le> room s" and len: "length (st_in s) < N"
  shows "\<exists>s'. nil_ptr k dec s = Some (Inr v, s')"
  using v
proof (elim disjE conjE exE)
  assume n: "v = VNilPtr k" "k \<noteq> Byte"
  then have "rlp_val v = khead k 0 0" by (cases k) (auto simp: rlp_head_def rlp_list_def)
  then obtain s1 where "Stream_Kind s = (Inr (k, 0), s1)"
    using Kind_complete [OF r, of k 0 0 rest] inp rm n(2) by auto
  then show ?thesis using n by (simp add: nil_ptr_def)
next
  fix w assume w: "v = VPtr w" "ok w" "rlp_val w \<noteq> [0x80]" "rlp_val w \<noteq> [0xC0]"
  obtain s' where d: "dec s = Some (Inr w, s')"
    using total_decoder.complete [OF assms(1) w(2) r, of rest] inp rm len w(1) by auto
  obtain k' sz s1 where k: "Stream_Kind s = (Inr (k', sz), s1)" "\<not> (k' \<noteq> Byte \<and> sz = 0)"
    by (rule Kind_of_item [OF r item [OF w(2)], of rest]) (use inp rm w in auto)
  have "dec s1 = Some (Inr w, s')" using d same [OF Kind_same [OF r k(1)]] by simp
  then show ?thesis using k w(1) by (auto simp: nil_ptr_def st_bind_def)
qed

section \<open>The decoder accepts exactly the encodings\<close>

lemma fields_total:
  assumes "\<And>t. t \<in> set ts \<Longrightarrow> wf_ty t \<Longrightarrow> total_decoder (decode n t) (has_ty t) n"
    and "\<And>u. TTail u \<in> set ts \<Longrightarrow> wf_ty u \<Longrightarrow> total_decoder (decode n u) (has_ty u) n"
  shows "wf_fields ts \<Longrightarrow> ready s \<Longrightarrow> length (st_in s) < n \<Longrightarrow> decode_fields n ts s \<noteq> None"
  using assms
proof (induction ts arbitrary: s)
  case (Cons t ts)
  show ?case
  proof (cases "wf_ty t")
    case True
    have td: "total_decoder (decode n t) (has_ty t) n" using Cons.prems(4) True by simp
    obtain r s1 where d: "decode n t s = Some (r, s1)"
      using total_decoder.total [OF td Cons.prems(2,3)] by auto
    show ?thesis
    proof (cases r)
      case (Inl e)
      then show ?thesis using d by simp
    next
      case (Inr v)
      have "ready s1" "length (st_in s1) < length (st_in s)"
        using total_decoder.progress [OF td Cons.prems(2)] d Inr by auto
      then have "decode_fields n ts s1 \<noteq> None" using Cons by simp
      then show ?thesis using d Inr by auto
    qed
  next
    case False
    then obtain u where u: "t = TTail u" "wf_ty u" "ts = []" using Cons.prems(1) by (cases t) auto
    have td: "total_decoder (decode n u) (has_ty u) n" using Cons.prems(5) u by simp
    obtain q where "decodeSliceElems n (decode n u) s [] = Some q"
      using total_decoder.slice_total [OF td Cons.prems(2,3,3), of "[]"] by auto
    then show ?thesis using u by (auto simp: st_bind_def split: prod.splits sum.splits option.splits)
  qed
qed simp

lemma fields_complete:
  assumes "\<And>t. t \<in> set ts \<Longrightarrow> wf_ty t \<Longrightarrow> total_decoder (decode n t) (has_ty t) n"
    and "\<And>u. TTail u \<in> set ts \<Longrightarrow> wf_ty u \<Longrightarrow> total_decoder (decode n u) (has_ty u) n"
  shows "wf_fields ts \<Longrightarrow> has_tys ts vs \<Longrightarrow> ready s \<Longrightarrow> st_stack s \<noteq> [] \<Longrightarrow> st_in s = rlp_vals vs @ rest \<Longrightarrow>
    room s = length (rlp_vals vs) \<Longrightarrow> length (st_in s) < n \<Longrightarrow> \<exists>s'. decode_fields n ts s = Some (Inr vs, s')"
  using assms
proof (induction ts arbitrary: s vs)
  case (Cons t ts)
  obtain w ws where vs: "vs = w # ws" "has_ty t w" "has_tys ts ws" using Cons.prems(2) by auto
  show ?case
  proof (cases "wf_ty t")
    case True
    have td: "total_decoder (decode n t) (has_ty t) n" using Cons.prems(8) True by simp
    obtain s1 where s1: "decode n t s = Some (Inr w, s1)" "ready s1" "st_in s1 = rlp_vals ws @ rest"
      "room s1 = room s - length (rlp_val w)" "length (st_in s1) < n" "st_stack s1 = [] \<longleftrightarrow> st_stack s = []"
      by (rule total_decoder.next_elem [OF td vs(2) Cons.prems(3), of "rlp_vals ws" rest]) (use Cons.prems vs in auto)
    have "\<exists>s'. decode_fields n ts s1 = Some (Inr ws, s')"
      by (rule Cons.IH) (use Cons.prems s1 vs in auto)
    then show ?thesis using s1(1) vs by (auto simp: st_bind_def)
  next
    case False
    then obtain u where u: "t = TTail u" "wf_ty u" "ts = []" using Cons.prems(1) by (cases t) auto
    have td: "total_decoder (decode n u) (has_ty u) n" using Cons.prems(9) u by simp
    obtain us where us: "w = VTail us" "list_all (has_ty u) us" "ws = []" using vs u by auto
    then have inp: "st_in s = rlp_vals us @ rest" "room s = length (rlp_vals us)" using Cons.prems(5,6) vs by simp_all
    have "length us < n"
      using total_decoder.length_vals [OF td us(2)] inp(1) Cons.prems(7) by simp
    then obtain s' where "decodeSliceElems n (decode n u) s [] = Some (Inr us, s')"
      using total_decoder.slice_complete [OF td us(2) Cons.prems(3,4) inp Cons.prems(7), of n "[]"] by auto
    then show ?thesis using u us vs by (simp add: st_bind_def)
  qed
qed simp

lemma bigint_complete:
  assumes "0 \<le> i" "ready s" "st_in s = rlp_str (be_bytes (nat i)) @ rest" "length (rlp_str (be_bytes (nat i))) \<le> room s"
  shows "\<exists>s'. decodeBigInt f s = (Inr (f i), s')"
proof -
  obtain s' where b: "Stream_Bytes s = (Inr (be_bytes (nat i)), s')" using Bytes_complete [OF assms(2-4)] .
  have "\<not> (0 < length (be_bytes (nat i)) \<and> be_bytes (nat i) ! 0 = 0)"
    using be_bytes_hd [of "nat i"] by (cases "nat i = 0") auto
  then show ?thesis using b assms(1) by (simp add: decodeBigInt_def)
qed

lemma byte_array_complete:
  assumes "length b \<noteq> 1" "length b < 2 ^ 63" "ready s" "st_in s = rlp_str b @ rest" "length (rlp_str b) \<le> room s"
  shows "\<exists>s'. decodeByteArray (length b) s = (Inr (VByteArray b), s')"
proof -
  define sz where "sz = (of_nat (length b) :: u64)"
  have u: "unat sz = length b" unfolding sz_def using assms(2) by (intro unat_u64_of_nat) simp
  have h: "rlp_str b = khead String sz 0 @ b" using assms(1) u by (simp add: rlp_str_def)
  obtain s1 where s1: "Stream_Kind s = (Inr (String, sz), s1)" "kinded s s1 String sz" "st_in s1 = b @ rest"
    by (rule Kind_complete [OF assms(3), of String sz 0 "b @ rest"]) (use h assms(4,5) u in simp_all)
  obtain s' where "readFull sz s1 = (Inr b, s')"
    using readFull_complete [OF kinded_core [OF s1(2)] s1(3) u [symmetric] kinded_room [OF s1(2)]] by blast
  moreover have "sz \<noteq> 1" using assms(1) u by auto
  ultimately show ?thesis using s1(1) by (simp add: decodeByteArray_def st_bind_def sz_def [symmetric])
qed

lemma fixed_list_complete:
  fixes g :: "rstream \<Rightarrow> gval list dres"
  assumes "ready s" "st_in s = rlp_list (rlp_vals vs) @ rest" "length (rlp_list (rlp_vals vs)) \<le> room s"
    and g: "\<And>s1. ready s1 \<Longrightarrow> st_stack s1 \<noteq> [] \<Longrightarrow> st_in s1 = rlp_vals vs @ rest \<Longrightarrow> room s1 = length (rlp_vals vs) \<Longrightarrow>
      length (st_in s1) < length (st_in s) \<Longrightarrow> \<exists>s2. g s1 = Some (Inr vs, s2) \<and> consumes s1 s2 (rlp_vals vs)"
  shows "\<exists>s'. (case Stream_List s of (Inl e, s1) \<Rightarrow> Some (Inl (wrapStreamError e), s1)
       | (Inr _, s1) \<Rightarrow> map_option (list_end f) (g s1)) = Some (Inr (f vs), s')"
proof -
  obtain s1 sz where l: "Stream_List s = (Inr sz, s1)" "opened s s1 sz" "unat sz = length (rlp_vals vs)"
    "st_in s1 = rlp_vals vs @ rest"
    using List_complete [OF assms(1-3)] .
  have "ready s1" "st_stack s1 \<noteq> []" "length (st_in s1) < length (st_in s)"
    using l(2) by (auto simp: opened_def rlp_head_def)
  then obtain s2 where s2: "g s1 = Some (Inr vs, s2)" "consumes s1 s2 (rlp_vals vs)"
    using g [OF _ _ l(4)] opened_room [OF l(2)] l(3) by auto
  then obtain s3 where "Stream_ListEnd s2 = (Inr (), s3)" using ListEnd_iff [OF assms(1) l(2) s2(2)] l(3) by auto
  then show ?thesis using l(1) s2(1) by (simp add: list_end_def st_bind_def wrapped_def)
qed

lemma fixed_list_total:
  fixes g :: "rstream \<Rightarrow> gval list dres"
  assumes "ready s" and g: "\<And>s1. ready s1 \<Longrightarrow> length (st_in s1) < length (st_in s) \<Longrightarrow> g s1 \<noteq> None"
  shows "(case Stream_List s of (Inl e, s1) \<Rightarrow> Some (Inl (wrapStreamError e), s1)
       | (Inr _, s1) \<Rightarrow> map_option (list_end f) (g s1)) \<noteq> None"
proof (cases "Stream_List s")
  case (Pair x s1)
  show ?thesis
  proof (cases x)
    case (Inr sz)
    then have "opened s s1 sz" using List_sound [OF assms(1)] Pair by simp
    then have "ready s1" "length (st_in s1) < length (st_in s)" by (auto simp: opened_def rlp_head_def)
    then have "g s1 \<noteq> None" by (rule g)
    then show ?thesis using Pair Inr by auto
  qed (use Pair in simp)
qed

lemma raw_complete:
  assumes "b = enc_item k c" "k = Byte \<longrightarrow> item_ok k c" "ready s" "st_in s = b @ rest" "length b \<le> room s"
  shows "\<exists>s'. decodeRawValue s = (Inr (VRaw b), s')"
proof -
  obtain s' where "Stream_Raw s = (Inr b, s')" using Raw_complete [OF assms(3,1,2,4,5)] .
  then show ?thesis by (simp add: decodeRawValue_def st_bind_def)
qed

lemma no_tail:
  assumes "wf_ty t \<Longrightarrow> total_decoder (decode n t) (has_ty t) n" "\<And>u. t \<noteq> TTail u"
  shows "\<forall>u. (u = t \<or> t = TTail u) \<and> wf_ty u \<longrightarrow> total_decoder (decode n u) (has_ty u) n"
  using assms by blast

lemma decode_total_decoder:
  "\<forall>u. (u = t \<or> t = TTail u) \<and> wf_ty u \<longrightarrow> total_decoder (decode n u) (has_ty u) n"
proof (induction t)
  case (TUint bits)
  show ?case
    by (rule no_tail, rule total_decoderI) (auto elim!: uint_complete [where m = bits] simp: decodeUint_def wrapped_def)
next
  case TBool
  show ?case by (rule no_tail, rule total_decoderI) (auto elim!: Bool_complete simp: decodeBool_def wrapped_def)
next
  case TText
  show ?case by (rule no_tail, rule total_decoderI) (auto elim!: Bytes_complete simp: decodeString_def wrapped_def)
next
  case TBigInt
  show ?case by (rule no_tail, rule total_decoderI) (auto intro!: bigint_complete)
next
  case TBigIntNoPtr
  show ?case by (rule no_tail, rule total_decoderI) (auto intro!: bigint_complete)
next
  case TBytes
  show ?case by (rule no_tail, rule total_decoderI) (auto elim!: Bytes_complete simp: decodeByteSlice_def wrapped_def)
next
  case (TByteArray m)
  show ?case by (rule no_tail, rule total_decoderI) (auto intro!: byte_array_complete)
next
  case TRaw
  show ?case by (rule no_tail, rule total_decoderI) (auto intro: raw_complete)
next
  case TIface
  have "decode n TIface = decodeInterface n" "has_ty TIface = iface_val" by (simp_all add: fun_eq_iff)
  then show ?case using iface_total [of n] by auto
next
  case (TTail t)
  then show ?case using wf_ty.simps(6) by blast
next
  case (TSlice t)
  show ?case
  proof (rule no_tail, rule total_decoderI)
    assume wt: "wf_ty (TSlice t)"
    then have w: "wf_ty t" by simp
    show "wf_ty (TSlice t)" by (rule wt)
    have td: "total_decoder (decode n t) (has_ty t) n" using TSlice w by blast
    show "decode n (TSlice t) s \<noteq> None" if "ready s" "length (st_in s) < n" for s
      using total_decoder.list_slice_total [OF td that(1), of n] that(2) by auto
    show "\<exists>s'. decode n (TSlice t) s = Some (Inr v, s')"
      if v: "has_ty (TSlice t) v" and r: "ready s" and s: "st_in s = rlp_val v @ rest" "length (rlp_val v) \<le> room s" "length (st_in s) < n"
      for v s rest
    proof -
      obtain vs where vs: "v = VSlice vs" "list_all (has_ty t) vs" using v by auto
      then show ?thesis using total_decoder.list_slice_complete [OF td vs(2) r, of rest n] s by (auto simp: st_bind_def)
    qed
  qed simp
next
  case (TArray m t)
  show ?case
  proof (rule no_tail, rule total_decoderI)
    assume wt: "wf_ty (TArray m t)"
    then have w: "wf_ty t" by simp
    show "wf_ty (TArray m t)" by (rule wt)
    have td: "total_decoder (decode n t) (has_ty t) n" using TArray w by blast
    show "decode n (TArray m t) s \<noteq> None" if "ready s" "length (st_in s) < n" for s
      unfolding decode.simps decodeListArray_def
      by (rule fixed_list_total [OF that(1)]) (rule total_decoder.array_total [OF td], use that(2) in simp_all)
    show "\<exists>s'. decode n (TArray m t) s = Some (Inr v, s')"
      if v: "has_ty (TArray m t) v" and r: "ready s" and s: "st_in s = rlp_val v @ rest" "length (rlp_val v) \<le> room s" "length (st_in s) < n"
      for v s rest
    proof -
      obtain vs where vs: "v = VSlice vs" "length vs = m" "list_all (has_ty t) vs" using v by auto
      have g: "\<exists>s2. array_elems m (decode n t) s1 = Some (Inr vs, s2) \<and> consumes s1 s2 (rlp_vals vs)"
        if r1: "ready s1" and s1: "st_in s1 = rlp_vals vs @ rest" "room s1 = length (rlp_vals vs)" "length (st_in s1) < length (st_in s)" for s1
      proof -
        obtain s2 where d: "array_elems m (decode n t) s1 = Some (Inr vs, s2)"
          using total_decoder.array_complete [OF td vs(3) r1 s1(1)] s1 s(3) vs(2) by auto
        then show ?thesis using elem_decoder.array_sound [OF total_decoder.axioms(1) [OF td] r1 d] by simp
      qed
      show ?thesis unfolding decode.simps decodeListArray_def vs(1)
        by (rule fixed_list_complete [OF r, of vs rest]) (use s vs(1) g in auto)
    qed
  qed simp
next
  case (TStruct ts)
  show ?case
  proof (rule no_tail, rule total_decoderI)
    assume wt: "wf_ty (TStruct ts)"
    then have w: "wf_fields ts" by simp
    show "wf_ty (TStruct ts)" by (rule wt)
    have td: "\<And>t. t \<in> set ts \<Longrightarrow> wf_ty t \<Longrightarrow> total_decoder (decode n t) (has_ty t) n"
      "\<And>u. TTail u \<in> set ts \<Longrightarrow> wf_ty u \<Longrightarrow> total_decoder (decode n u) (has_ty u) n"
      using TStruct by blast+
    have ed: "elem_decoder (decode n t) (has_ty t)" if "t \<in> set ts" for t
      by (rule decode_decoder) (use w that in \<open>induction ts, auto\<close>)
    show "decode n (TStruct ts) s \<noteq> None" if "ready s" "length (st_in s) < n" for s
      unfolding decode.simps
      by (rule fixed_list_total [OF that(1)]) (rule fields_total [OF td w], use that(2) in simp_all)
    show "\<exists>s'. decode n (TStruct ts) s = Some (Inr v, s')"
      if v: "has_ty (TStruct ts) v" and r: "ready s" and s: "st_in s = rlp_val v @ rest" "length (rlp_val v) \<le> room s" "length (st_in s) < n"
      for v s rest
    proof -
      obtain vs where vs: "v = VStruct vs" "has_tys ts vs" using v by auto
      have g: "\<exists>s2. decode_fields n ts s1 = Some (Inr vs, s2) \<and> consumes s1 s2 (rlp_vals vs)"
        if r1: "ready s1" and s1: "st_stack s1 \<noteq> []" "st_in s1 = rlp_vals vs @ rest" "room s1 = length (rlp_vals vs)" "length (st_in s1) < length (st_in s)" for s1
      proof -
        obtain s2 where d: "decode_fields n ts s1 = Some (Inr vs, s2)"
          using fields_complete [OF td w vs(2) r1 s1(1-3)] s1(4) s(3) by auto
        then show ?thesis using fields_sound [OF ed r1 d] by simp
      qed
      show ?thesis unfolding decode.simps vs(1)
        by (rule fixed_list_complete [OF r, of vs rest]) (use s vs(1) g in auto)
    qed
  qed simp
next
  case (TPtr t)
  show ?case
  proof (rule no_tail, rule total_decoderI)
    assume wt: "wf_ty (TPtr t)"
    then have w: "wf_ty t" by simp
    show "wf_ty (TPtr t)" by (rule wt)
    have td: "total_decoder (decode n t) (has_ty t) n" using TPtr w by blast
    show "decode n (TPtr t) s \<noteq> None" if "ready s" "length (st_in s) < n" for s
      using total_decoder.total [OF td that] by auto
    show "\<exists>s'. decode n (TPtr t) s = Some (Inr v, s')"
      if v: "has_ty (TPtr t) v" and r: "ready s" and s: "st_in s = rlp_val v @ rest" "length (rlp_val v) \<le> room s" "length (st_in s) < n"
      for v s rest
    proof -
      obtain w where w: "v = VPtr w" "has_ty t w" using v by auto
      then obtain s' where "decode n t s = Some (Inr w, s')" using total_decoder.complete [OF td w(2) r _ _ s(3)] s(1,2) by auto
      then show ?thesis using w(1) by (simp add: st_bind_def)
    qed
  qed simp
next
  case (TNilPtr k t)
  show ?case
  proof (rule no_tail, rule total_decoderI)
    assume wt: "wf_ty (TNilPtr k t)"
    then have w: "wf_ty t" by simp
    show "wf_ty (TNilPtr k t)" by (rule wt)
    have td: "total_decoder (decode n t) (has_ty t) n" using TNilPtr w by blast
    show "decode n (TNilPtr k t) s \<noteq> None" if r: "ready s" and len: "length (st_in s) < n" for s
      using total_decoder.total [OF td r len] decode_same [OF Kind_same [OF r] w]
      by (auto simp: nil_ptr_def split: prod.splits sum.splits)
    show "\<exists>s'. decode n (TNilPtr k t) s = Some (Inr v, s')"
      if v: "has_ty (TNilPtr k t) v" and r: "ready s" and s: "st_in s = rlp_val v @ rest" "length (rlp_val v) \<le> room s" "length (st_in s) < n"
      for v s rest
      unfolding decode.simps
      by (rule nil_ptr_complete [OF td decode_same [OF _ w] _ has_ty_item [OF w] r s]) (use v in simp_all)
  qed simp
qed

lemma decode_td: "wf_ty t \<Longrightarrow> total_decoder (decode n t) (has_ty t) n"
  using decode_total_decoder [of t n] by blast

text \<open>
  Claim C14. Whatever a decoder of a well-formed type returns from a stream in good order, at the top level or inside
  any list, is a value of that type; its encoding is what was read, within the innermost list, and the stream is
  left in good order behind it.
\<close>

theorem decode_typed:
  assumes "wf_ty t" "ready s" "decode n t s = Some (Inr v, s')"
  shows "has_ty t v \<and> st_in s = rlp_val v @ st_in s' \<and> length (rlp_val v) \<le> room s \<and> ready s'
    \<and> st_stack s' = bump (length (rlp_val v)) (st_stack s)"
proof -
  have "consumes s s' (rlp_val v) \<and> has_ty t v"
    using elem_decoder.sound [OF decode_decoder assms(2,3)] assms(1) by simp
  then show ?thesis using consumes_ready by (simp add: consumes_def took_def ready_def)
qed

theorem decode_typed_witness:
  "\<exists>s'. decode 1 TBytes (Stream_Reset [0x82, 0xC8, 0xC9, 0x01] 4) = Some (Inr (VBytes [0xC8, 0xC9]), s')
     \<and> has_ty TBytes (VBytes [0xC8, 0xC9]) \<and> st_in s' = [0x01] \<and> ready s'"
proof -
  let ?s = "Stream_Reset [0x82, 0xC8, 0xC9, 0x01] 4"
  have r: "ready ?s" by (simp add: ready_def core_def Stream_Reset_def)
  obtain s' where d: "decode 1 TBytes ?s = Some (Inr (VBytes [0xC8, 0xC9]), s')"
    by (simp add: Stream_Kind_def Stream_readKind_def readByte_def willRead_def Stream_Reset_def decodeByteSlice_def wrapped_def
        at_eol_def kind_check_def st_bind_def Stream_Bytes_def readFull_def readFull_loop.simps)
  show ?thesis using d decode_typed [OF _ r d] by (simp add: rlp_str_def rlp_head_def Stream_Reset_def)
qed

text \<open>
  Claim C15. Decoding always returns: for every well-formed type, every input and every fuel above the length of
  the input, the decoder ends with a value or an error.
\<close>

theorem DecodeBytes_returns:
  assumes "wf_ty t" "length b < 2 ^ 63" "length b < n"
  shows "\<exists>r. DecodeBytes_fuel n b t = Some r"
proof -
  have "decode n t (Stream_Reset b (of_nat (length b))) \<noteq> None"
    using total_decoder.total [OF decode_td [OF assms(1)] ready_Reset(1) [of b]] ready_Reset(3) [of b] assms(2,3) by auto
  then show ?thesis by (auto simp: DecodeBytes_fuel_def)
qed

theorem DecodeBytes_returns_witness:
  "\<exists>r. DecodeBytes_fuel 4 [0xC2, 0xC1, 0x80] TIface = Some r"
  by (rule DecodeBytes_returns) simp_all

text \<open>
  Claim C4. \<open>DecodeBytes\<close> accepts exactly the encodings of the values of the type: it returns a value
  precisely when the value has the type and the input is its RLP encoding.
\<close>

theorem DecodeBytes_iff:
  assumes "wf_ty t" "length b < 2 ^ 63"
  shows "DecodeBytes b t = Some (Inr v) \<longleftrightarrow> has_ty t v \<and> b = rlp_val v"
proof -
  define s where "s = Stream_Reset b (of_nat (length b))"
  have r: "ready s" "room s = length b" "st_in s = b" using ready_Reset [of b] assms(2) by (simp_all add: s_def)
  note td = decode_td [OF assms(1), of "length b + 1"]
  show ?thesis
  proof
    assume "DecodeBytes b t = Some (Inr v)"
    then obtain x s' where x: "decode (length b + 1) t s = Some (x, s')"
      "(case x of Inl e \<Rightarrow> Inl e | Inr w \<Rightarrow> if 0 < length (st_in s') then Inl ErrMoreThanOneValue else Inr w) = Inr v"
      by (auto simp: DecodeBytes_def DecodeBytes_fuel_def s_def)
    then have d: "decode (length b + 1) t s = Some (Inr v, s')" "st_in s' = []"
      by (cases x, auto split: if_splits)+
    then have "consumes s s' (rlp_val v)" "has_ty t v"
      using elem_decoder.sound [OF total_decoder.axioms(1) [OF td] r(1)] by auto
    then show "has_ty t v \<and> b = rlp_val v" using r(3) d(2) by (simp add: consumes_def took_def)
  next
    assume v: "has_ty t v \<and> b = rlp_val v"
    then obtain s' where d: "decode (length b + 1) t s = Some (Inr v, s')"
      using total_decoder.complete [OF td _ r(1), of v "[]"] r by auto
    then have "consumes s s' (rlp_val v)"
      using total_decoder.progress(1) [OF td r(1)] by simp
    then have "st_in s' = []" using r(3) v by (simp add: consumes_def took_def)
    then show "DecodeBytes b t = Some (Inr v)"
      using d by (simp add: DecodeBytes_def DecodeBytes_fuel_def s_def [symmetric])
  qed
qed

theorem DecodeBytes_iff_witness:
  "DecodeBytes [0xC4, 0x82, 0x01, 0x00, 0x01] (TStruct [TUint 64, TTail TBool])
     = Some (Inr (VStruct [VUint 256, VTail [VBool True]]))"
proof -
  let ?t = "TStruct [TUint 64, TTail TBool]" and ?v = "VStruct [VUint 256, VTail [VBool True]]"
  have b: "be_bytes 256 = [1, 0]" by (simp add: be_bytes_step)
  have v: "rlp_val ?v = [0xC4, 0x82, 0x01, 0x00, 0x01]" by (simp add: b rlp_list_def rlp_head_def rlp_str_def)
  have "has_ty ?t ?v" by (auto simp: b intro: exI [of _ True])
  then show ?thesis using DecodeBytes_iff [of ?t "[0xC4, 0x82, 0x01, 0x00, 0x01]" ?v] v by simp
qed

section \<open>Byte arrays of length one\<close>

text \<open>
  The decoder of \<open>[1]byte\<close> reads the byte zero with \<open>Uint\<close>, which refuses it as an integer and leaves the cached kind in
  place. The next value of the list is then the same byte again, and the end of the list is never seen.
\<close>

lemma byte_array_stuck:
  assumes "st_kind s = Some Byte" "st_kinderr s = None" "st_byteval s = 0"
  shows "decodeByteArray 1 s = (Inr (VByteArray [0]), s)"
  using assms by (simp add: decodeByteArray_def Stream_Uint_def Stream_uint_def Stream_Kind_def st_bind_def)

lemma slice_stuck:
  assumes "st_kind s = Some Byte" "st_kinderr s = None" "st_byteval s = 0"
  shows "decodeSliceElems m (\<lambda>s. Some (decodeByteArray 1 s)) s acc = None"
  using byte_array_stuck [OF assms] by (induction m arbitrary: acc) simp_all

text \<open>
  Claim C31. Decoding the two bytes \<open>C1 00\<close>, the encoding of a slice with one zero \<open>[1]byte\<close>, into \<open>[][1]byte\<close> never
  returns: no number of iterations is enough.
\<close>

theorem byte_array_diverges:
  "EncodeToBytes (VSlice [VByteArray [0]]) = Inr (Some [0xC1, 0x00]) \<and>
   (\<forall>n. DecodeBytes_fuel n [0xC1, 0x00] (TSlice (TByteArray 1)) = None)"
proof (intro conjI allI)
  have v: "rlp_val (VSlice [VByteArray [0]]) = [0xC1, 0x00]" by (simp add: rlp_list_def rlp_head_def rlp_str_def)
  then show "EncodeToBytes (VSlice [VByteArray [0]]) = Inr (Some [0xC1, 0x00])"
    using encode_eq(1) [of "VSlice [VByteArray [0]]"] by simp
  fix n
  define s1 where "s1 = snd (Stream_List (Stream_Reset [0xC1, 0x00] 2))"
  have l: "Stream_List (Stream_Reset [0xC1, 0x00] 2) = (Inr 1, s1)"
    by (simp add: s1_def Stream_List_def Stream_Kind_def Stream_readKind_def readByte_def willRead_def Stream_Reset_def
        at_eol_def kind_check_def st_bind_def)
  define s2 where "s2 = snd (decodeByteArray 1 s1)"
  have d: "decodeByteArray 1 s1 = (Inr (VByteArray [0]), s2)" and k: "st_kind s2 = Some Byte" "st_kinderr s2 = None" "st_byteval s2 = 0"
    by (simp_all add: s2_def s1_def Stream_List_def Stream_Kind_def Stream_readKind_def readByte_def willRead_def Stream_Reset_def
        at_eol_def kind_check_def st_bind_def decodeByteArray_def Stream_Uint_def Stream_uint_def)
  have "decode n (TByteArray 1) = (\<lambda>s. Some (decodeByteArray 1 s))" by (simp add: fun_eq_iff)
  then have "decodeSliceElems n (decode n (TByteArray 1)) s1 [] = None"
    using d slice_stuck [OF k] by (cases n) simp_all
  then show "DecodeBytes_fuel n [0xC1, 0x00] (TSlice (TByteArray 1)) = None"
    using l by (simp add: DecodeBytes_fuel_def decodeListSlice_def)
qed

end
