(* ===== verification/NdnCache.thy ===== *)
theory NdnCache
  imports Prelude
begin

text \<open>
  The two segment caches: \<open>simpleCacher\<close> (\<open>ndn/utils/cacher.go\<close>), which keeps the last objects in a ring, and
  \<open>ObjCacheManager\<close> (\<open>ndn/eth/objcache.go\<close>), which keeps objects until they have not been asked for during a period.
  Both serve an object in segments of a fixed size. The ring is refined to a bounded queue of the objects
  cached last.
\<close>

type_synonym u16 = "16 word"

datatype cache_error = ErrObjNotFound | ErrJobAborted | ErrUnexpected

section \<open>Segments\<close>

text \<open>
  The counting loop of both caches: the number of segments as a 16-bit integer. With a segment size of zero
  it does not end on a non-empty object.
\<close>

partial_function (option) seg_loop :: "int \<Rightarrow> int \<Rightarrow> int \<Rightarrow> u16 \<Rightarrow> u16 option" where
  "seg_loop ssize len start num =
     (if start < len then seg_loop ssize len (start + ssize) (num + 1) else Some num)"

text \<open>Go slices of a byte string; \<open>None\<close> is the panic for bounds out of range.\<close>

definition go_slice :: "bytes \<Rightarrow> int \<Rightarrow> int \<Rightarrow> bytes option" where
  "go_slice b i j = (if 0 \<le> i \<and> i \<le> j \<and> j \<le> int (length b) then Some (slice b (nat i) (nat j)) else None)"

section \<open>The ring cache\<close>

record cacheobj =
  co_wire :: bytes
  co_id :: string

record simpleCacher =
  sc_ssize :: int
  sc_imax :: nat
  sc_objlist :: "cacheobj option list"
  sc_objmap :: "string \<rightharpoonup> cacheobj"
  sc_next :: nat

definition NewSimpleCacher :: "int \<Rightarrow> nat \<Rightarrow> simpleCacher" where
  "NewSimpleCacher segmentsize maxitems =
     \<lparr>sc_ssize = segmentsize, sc_imax = maxitems, sc_objlist = replicate maxitems None, sc_objmap = Map.empty, sc_next = 0\<rparr>"

text \<open>\<open>segment\<close>: the segment and the number of segments; \<open>None\<close> outside is a panic or an endless loop.\<close>

definition sc_segment :: "simpleCacher \<Rightarrow> bytes \<Rightarrow> u16 \<Rightarrow> ((cache_error + bytes) \<times> u16) option" where
  "sc_segment c wire segId =
     (case seg_loop (sc_ssize c) (int (length wire)) 0 0 of
        None \<Rightarrow> None
      | Some num \<Rightarrow>
          if segId < num
          then map_option (\<lambda>seg. (Inr seg, num))
                 (go_slice wire (int (unat segId) * sc_ssize c)
                    (min (int (length wire)) ((int (unat segId) + 1) * sc_ssize c)))
          else Some (Inl ErrObjNotFound, num))"

definition ring_insert :: "simpleCacher \<Rightarrow> string \<Rightarrow> bytes \<Rightarrow> simpleCacher option" where
  "ring_insert c oid wire =
     (let obj = \<lparr>co_wire = wire, co_id = oid\<rparr>;
          m = (sc_objmap c)(oid \<mapsto> obj)
      in if sc_next c < length (sc_objlist c)
         then Some (c\<lparr>sc_objmap := (case sc_objlist c ! sc_next c of None \<Rightarrow> m | Some old \<Rightarrow> m(co_id old := None)),
                     sc_objlist := (sc_objlist c)[sc_next c := Some obj],
                     sc_next := (if sc_imax c \<le> sc_next c + 1 then 0 else sc_next c + 1)\<rparr>)
         else None)"

definition sc_Cache :: "simpleCacher \<Rightarrow> string \<Rightarrow> bytes \<Rightarrow> (bytes \<times> u16 \<times> simpleCacher) option" where
  "sc_Cache c oid wire =
     (if int (length wire) < sc_ssize c then Some (wire, 1, c)
      else
        case (if oid \<in> dom (sc_objmap c) then Some c else ring_insert c oid wire) of
          None \<Rightarrow> None
        | Some c1 \<Rightarrow>
            map_option (\<lambda>(r, num). (case r of Inl _ \<Rightarrow> [] | Inr seg \<Rightarrow> seg, num, c1)) (sc_segment c1 wire 0))"

definition sc_GetSegment :: "simpleCacher \<Rightarrow> string \<Rightarrow> u16 \<Rightarrow> ((cache_error + bytes) \<times> u16) option" where
  "sc_GetSegment c oid segId =
     (case sc_objmap c oid of
        Some obj \<Rightarrow> sc_segment c (co_wire obj) segId
      | None \<Rightarrow> Some (Inl ErrObjNotFound, 0))"

section \<open>The expiring cache\<close>

definition OBJ_EXPIRING_PERIOD :: int where
  "OBJ_EXPIRING_PERIOD = 10 * 1000000000"

definition MAX_SEGMENT_SIZE :: int where
  "MAX_SEGMENT_SIZE = 1000"

record CachedObj =
  cb_expired :: int
  cb_wire :: bytes
  cb_numsegs :: u16

definition cb_update :: "int \<Rightarrow> CachedObj \<Rightarrow> CachedObj" where
  "cb_update now obj = obj\<lparr>cb_expired := now + OBJ_EXPIRING_PERIOD\<rparr>"

definition isexpired :: "int \<Rightarrow> CachedObj \<Rightarrow> bool" where
  "isexpired now obj = (cb_expired obj < now)"

record ObjCacheManager =
  ocm_objects :: "string \<rightharpoonup> CachedObj"
  ocm_dead :: bool

definition newObjCacheManager :: ObjCacheManager where
  "newObjCacheManager = \<lparr>ocm_objects = Map.empty, ocm_dead = False\<rparr>"

text \<open>One tick of the loop: the expired objects are removed.\<close>

definition ocm_tick :: "int \<Rightarrow> ObjCacheManager \<Rightarrow> ObjCacheManager" where
  "ocm_tick now c =
     c\<lparr>ocm_objects := (\<lambda>oid. case ocm_objects c oid of
         None \<Rightarrow> None | Some obj \<Rightarrow> if isexpired now obj then None else Some obj)\<rparr>"

definition ocm_cache ::
  "int \<Rightarrow> ObjCacheManager \<Rightarrow> string \<Rightarrow> bytes \<Rightarrow> (bytes \<times> u16 \<times> ObjCacheManager) option" where
  "ocm_cache now c oid wire =
     (if ocm_dead c then Some ([], 0, c)
      else
        case ocm_objects c oid of
          Some obj \<Rightarrow>
            map_option (\<lambda>seg. (seg, cb_numsegs obj, c\<lparr>ocm_objects := (ocm_objects c)(oid \<mapsto> cb_update now obj)\<rparr>))
              (go_slice (cb_wire obj) 0 (min (int (length (cb_wire obj))) MAX_SEGMENT_SIZE))
        | None \<Rightarrow>
            (case seg_loop MAX_SEGMENT_SIZE (int (length wire)) 0 0 of
               None \<Rightarrow> None
             | Some num \<Rightarrow>
                 if 1 < num
                 then map_option (\<lambda>seg. (seg, num, c\<lparr>ocm_objects := (ocm_objects c)(oid \<mapsto>
                          cb_update now \<lparr>cb_expired = 0, cb_wire = wire, cb_numsegs = num\<rparr>)\<rparr>))
                        (go_slice wire 0 (min (int (length wire)) MAX_SEGMENT_SIZE))
                 else Some (wire, num, c)))"

definition ocm_getSegment ::
  "int \<Rightarrow> ObjCacheManager \<Rightarrow> string \<Rightarrow> u16 \<Rightarrow> ((cache_error + bytes) \<times> u16 \<times> ObjCacheManager) option" where
  "ocm_getSegment now c oid segId =
     (if ocm_dead c then Some (Inl ErrJobAborted, 0, c)
      else
        case ocm_objects c oid of
          None \<Rightarrow> Some (Inl ErrObjNotFound, 0, c)
        | Some obj \<Rightarrow>
            (let c1 = c\<lparr>ocm_objects := (ocm_objects c)(oid \<mapsto> cb_update now obj)\<rparr>;
                 num = cb_numsegs obj
             in if num \<le> segId then Some (Inl ErrUnexpected, num, c1)
                else
                  let start = MAX_SEGMENT_SIZE * int (unat segId)
                  in map_option (\<lambda>seg. (Inr seg, num, c1))
                       (go_slice (cb_wire obj) start (min (int (length (cb_wire obj))) (start + MAX_SEGMENT_SIZE)))))"

section \<open>Counting segments\<close>

definition nsegs :: "nat \<Rightarrow> nat \<Rightarrow> nat" where
  "nsegs ssize len = (len + ssize - 1) div ssize"

lemma nsegs_step:
  assumes "0 < ssize" "0 < d"
  shows "nsegs ssize d = Suc (nsegs ssize (d - ssize))"
proof (cases "d \<le> ssize")
  case True
  have "(ssize + (d - 1)) div ssize = (d - 1) div ssize + 1" using assms by (intro div_add_self1) simp
  moreover have "(d - 1) div ssize = 0" using True assms by (intro div_less) simp
  moreover have "d + ssize - 1 = ssize + (d - 1)" using assms by simp
  ultimately show ?thesis using True assms by (simp only: nsegs_def) simp
next
  case False
  have "(ssize + (d - ssize + ssize - 1)) div ssize = (d - ssize + ssize - 1) div ssize + 1"
    using assms by (intro div_add_self1) simp
  moreover have "d + ssize - 1 = ssize + (d - ssize + ssize - 1)" using False assms by simp
  ultimately show ?thesis by (simp only: nsegs_def)
qed

lemma seg_loop_returns:
  assumes "0 < ssize"
  shows "seg_loop (int ssize) (int len) (int start) num = Some (num + of_nat (nsegs ssize (len - start)))"
proof (induction "len - start" arbitrary: start num rule: less_induct)
  case less
  show ?case
  proof (cases "start < len")
    case True
    have "nsegs ssize (len - start) = Suc (nsegs ssize (len - start - ssize))"
      using True assms by (intro nsegs_step) auto
    then have "nsegs ssize (len - start) = Suc (nsegs ssize (len - (start + ssize)))" by simp
    moreover have "seg_loop (int ssize) (int len) (int start) num = seg_loop (int ssize) (int len) (int (start + ssize)) (num + 1)"
      using True by (simp add: seg_loop.simps [of _ _ "int start"])
    moreover have "seg_loop (int ssize) (int len) (int (start + ssize)) (num + 1)
        = Some ((num + 1) + of_nat (nsegs ssize (len - (start + ssize))))"
      using less [of "start + ssize" "num + 1"] True assms by simp
    ultimately show ?thesis by (simp add: algebra_simps)
  next
    case False
    then show ?thesis using assms by (simp add: seg_loop.simps [of _ _ "int start"] nsegs_def)
  qed
qed

lemma nsegs_bounds:
  assumes "0 < ssize" "i < nsegs ssize len"
  shows "i * ssize < len"
proof -
  have "Suc i \<le> (len + ssize - 1) div ssize" using assms(2) by (simp add: nsegs_def)
  then have "Suc i * ssize \<le> len + ssize - 1" using assms(1) by (simp add: less_eq_div_iff_mult_less_eq)
  then show ?thesis using assms(1) by simp
qed

lemma nsegs_cover:
  assumes "0 < ssize"
  shows "len \<le> nsegs ssize len * ssize"
proof -
  define x where "x = len + ssize - 1"
  have "x div ssize * ssize + x mod ssize = x" by simp
  moreover have "x mod ssize < ssize" using assms by simp
  ultimately show ?thesis unfolding nsegs_def x_def [symmetric] using assms unfolding x_def by linarith
qed

text \<open>The segments of an object, and that they make it up.\<close>

definition seg :: "nat \<Rightarrow> bytes \<Rightarrow> nat \<Rightarrow> bytes" where
  "seg ssize wire i = slice wire (i * ssize) (min (length wire) ((i + 1) * ssize))"

lemma segs_prefix: "concat (map (seg ssize wire) [0..<k]) = take (k * ssize) wire"
proof (induction k)
  case (Suc k)
  have "take (Suc k * ssize) wire = take (k * ssize) wire @ slice wire (k * ssize) (min (length wire) ((k + 1) * ssize))"
  proof (cases "k * ssize \<le> length wire")
    case True
    define m where "m = min (length wire) ((k + 1) * ssize)"
    have "take (Suc k * ssize) wire = take m wire" by (simp add: m_def min_def)
    also have "\<dots> = take (k * ssize) (take m wire) @ drop (k * ssize) (take m wire)"
      by (rule append_take_drop_id [symmetric])
    also have "take (k * ssize) (take m wire) = take (k * ssize) wire" using True by (simp add: m_def min_def)
    finally show ?thesis by (simp add: slice_def m_def drop_take)
  next
    case False
    then show ?thesis by (simp add: slice_def)
  qed
  then show ?case using Suc by (simp add: seg_def)
qed simp

lemma segs_whole: "0 < ssize \<Longrightarrow> concat (map (seg ssize wire) [0..<nsegs ssize (length wire)]) = wire"
  using nsegs_cover [of ssize "length wire"] by (simp add: segs_prefix)

lemma go_slice_seg:
  assumes "0 < ssize" "i < nsegs ssize (length wire)"
  shows "go_slice wire (int i * int ssize) (min (int (length wire)) ((int i + 1) * int ssize)) = Some (seg ssize wire i)"
proof -
  have "i * ssize < length wire" using nsegs_bounds [OF assms] .
  moreover have "(int i + 1) * int ssize = int ((i + 1) * ssize)" by (simp add: algebra_simps)
  then have "min (int (length wire)) ((int i + 1) * int ssize) = int (min (length wire) ((i + 1) * ssize))"
    by (simp only: of_nat_min)
  moreover have "int i * int ssize = int (i * ssize)" by simp
  ultimately show ?thesis by (simp add: go_slice_def seg_def del: of_nat_mult of_nat_min)
qed

section \<open>The ring is a bounded queue\<close>

fun somes :: "'a option list \<Rightarrow> 'a list" where
  "somes [] = []"
| "somes (None # xs) = somes xs"
| "somes (Some x # xs) = x # somes xs"

lemma somes_append [simp]: "somes (xs @ ys) = somes xs @ somes ys"
  by (induction xs rule: somes.induct) auto

lemma somes_None: "set xs \<subseteq> {None} \<Longrightarrow> somes xs = []"
  by (induction xs rule: somes.induct) auto

lemma somes_replicate [simp]: "somes (replicate n None) = []"
  by (induction n) auto

lemma length_somes: "None \<notin> set xs \<Longrightarrow> length (somes xs) = length xs"
  by (induction xs rule: somes.induct) auto

text \<open>The objects of the ring, the newest first.\<close>

definition ring :: "simpleCacher \<Rightarrow> cacheobj list" where
  "ring c = somes (rev (take (sc_next c) (sc_objlist c))) @ somes (rev (drop (sc_next c) (sc_objlist c)))"

definition ring_filled :: "simpleCacher \<Rightarrow> bool" where
  "ring_filled c \<longleftrightarrow> None \<notin> set (sc_objlist c) \<or>
     None \<notin> set (take (sc_next c) (sc_objlist c)) \<and> set (drop (sc_next c) (sc_objlist c)) \<subseteq> {None}"

definition cacher_inv :: "simpleCacher \<Rightarrow> bool" where
  "cacher_inv c \<longleftrightarrow> 0 < sc_ssize c \<and> length (sc_objlist c) = sc_imax c \<and> sc_next c < sc_imax c \<and> ring_filled c \<and>
     distinct (map co_id (ring c)) \<and> sc_objmap c = map_of (map (\<lambda>ob. (co_id ob, ob)) (ring c))"

lemma map_of_snoc_del:
  assumes "distinct (map co_id (xs @ [old]))" "oid \<notin> co_id ` set (xs @ [old])"
  shows "(map_of (map (\<lambda>ob. (co_id ob, ob)) (xs @ [old])))(oid \<mapsto> ob, co_id old := None)
     = (map_of (map (\<lambda>ob. (co_id ob, ob)) xs))(oid \<mapsto> ob)"
proof
  fix k
  have "map_of (map (\<lambda>ob. (co_id ob, ob)) xs) (co_id old) = None"
    using assms(1) by (auto simp: map_of_eq_None_iff)
  then show "((map_of (map (\<lambda>ob. (co_id ob, ob)) (xs @ [old])))(oid \<mapsto> ob, co_id old := None)) k
     = ((map_of (map (\<lambda>ob. (co_id ob, ob)) xs))(oid \<mapsto> ob)) k"
    using assms(2) by (auto simp: map_add_def split: option.split)
qed

lemma drop_nth: "i < length xs \<Longrightarrow> drop i xs = xs ! i # drop (Suc i) xs"
  by (simp add: Cons_nth_drop_Suc)

lemma ring_insert_step:
  assumes inv: "cacher_inv c" and new: "oid \<notin> dom (sc_objmap c)"
  obtains c' where "ring_insert c oid wire = Some c'" "cacher_inv c'" "sc_ssize c' = sc_ssize c" "sc_imax c' = sc_imax c"
    "ring c' = take (sc_imax c) (\<lparr>co_wire = wire, co_id = oid\<rparr> # ring c)"
proof -
  define ob where "ob = \<lparr>co_wire = wire, co_id = oid\<rparr>"
  define xs where "xs = sc_objlist c"
  define i where "i = sc_next c"
  define A where "A = somes (rev (take i xs))"
  define B where "B = somes (rev (drop (Suc i) xs))"
  have i: "i < length xs" "length xs = sc_imax c" using inv by (simp_all add: cacher_inv_def i_def xs_def)
  have rng: "ring c = A @ B @ somes [xs ! i]"
    using drop_nth [OF i(1)] by (simp add: ring_def A_def B_def xs_def [symmetric] i_def [symmetric])
  define c' where "c' = c\<lparr>sc_objmap := (case xs ! i of None \<Rightarrow> (sc_objmap c)(oid \<mapsto> ob) | Some old \<Rightarrow> (sc_objmap c)(oid \<mapsto> ob, co_id old := None)),
      sc_objlist := xs[i := Some ob], sc_next := (if sc_imax c \<le> i + 1 then 0 else i + 1)\<rparr>"
  have ins: "ring_insert c oid wire = Some c'"
    using i(1) by (simp add: ring_insert_def c'_def ob_def xs_def i_def Let_def split: option.split)
  have t: "take (Suc i) (xs[i := Some ob]) = take i xs @ [Some ob]" "drop (Suc i) (xs[i := Some ob]) = drop (Suc i) xs"
    using i(1) by (simp_all add: take_Suc_conv_app_nth)
  have rng': "ring c' = ob # A @ B"
  proof (cases "sc_imax c \<le> i + 1")
    case True
    then have "Suc i = length xs" using i by simp
    then have "xs[i := Some ob] = take i xs @ [Some ob]" "drop (Suc i) xs = []" using t(1) by simp_all
    then show ?thesis using True by (simp add: ring_def c'_def A_def B_def)
  next
    case False
    then show ?thesis using t by (simp add: ring_def c'_def A_def B_def)
  qed
  have fresh: "oid \<notin> co_id ` set (ring c)" and dist: "distinct (map co_id (ring c))"
    and om: "sc_objmap c = map_of (map (\<lambda>ob. (co_id ob, ob)) (ring c))"
    using inv new by (auto simp: cacher_inv_def dom_map_of_conv_image_fst image_image)
  have full: "None \<notin> set xs \<or> None \<notin> set (take i xs) \<and> set (drop i xs) \<subseteq> {None}"
    using inv by (simp add: cacher_inv_def ring_filled_def xs_def i_def)
  have filled': "ring_filled c'"
  proof (cases "None \<in> set xs")
    case True
    then have "None \<notin> set (take i xs)" "set (drop (Suc i) xs) \<subseteq> {None}" using full drop_nth [OF i(1)] by auto
    moreover have "xs[i := Some ob] = take i xs @ Some ob # drop (Suc i) xs" using i(1) by (rule upd_conv_take_nth_drop)
    ultimately show ?thesis using t i by (auto simp: ring_filled_def c'_def)
  next
    case False
    then have "None \<notin> set (xs[i := Some ob])" using set_update_subset_insert [of xs i "Some ob"] by auto
    then show ?thesis by (simp add: ring_filled_def c'_def)
  qed
  have tk: "ob # A @ B = take (sc_imax c) (ob # ring c) \<and> sc_objmap c' = map_of (map (\<lambda>ob. (co_id ob, ob)) (ob # A @ B))"
  proof (cases "xs ! i")
    case None
    then have "None \<in> set xs" using i(1) nth_mem by force
    then have "set (drop (Suc i) xs) \<subseteq> {None}" "None \<notin> set (take i xs)" using full drop_nth [OF i(1)] by auto
    then have "B = []" "length A = i" using i(1) by (simp_all add: A_def B_def somes_None length_somes)
    then show ?thesis using None rng om i by (simp add: c'_def ob_def)
  next
    case (Some old)
    then have "None \<notin> set xs" using full drop_nth [OF i(1)] by auto
    then have "None \<notin> set (rev (take i xs))" "None \<notin> set (rev (drop (Suc i) xs))"
      using in_set_takeD [of None i xs] in_set_dropD [of None "Suc i" xs] by auto
    then have "length A = i" "length B = length xs - Suc i" using i(1) unfolding A_def B_def by (simp_all add: length_somes)
    then have "sc_imax c = Suc (length A + length B)" using i by simp
    moreover have "sc_objmap c' = (map_of (map (\<lambda>ob. (co_id ob, ob)) (A @ B)))(oid \<mapsto> ob)"
      using Some om rng map_of_snoc_del [of "A @ B" old oid ob] dist fresh by (simp add: c'_def)
    ultimately show ?thesis using Some rng i by (simp add: ob_def)
  qed
  have d: "distinct (map co_id (ob # A @ B))" using dist fresh rng by (auto simp: ob_def)
  have f: "sc_ssize c' = sc_ssize c" "sc_imax c' = sc_imax c" "length (sc_objlist c') = sc_imax c'" "sc_next c' < sc_imax c'"
    using i by (simp_all add: c'_def)
  have om': "sc_objmap c' = map_of (map (\<lambda>ob. (co_id ob, ob)) (ring c'))" unfolding rng' using tk by (rule conjunct2)
  have "0 < sc_ssize c'" using inv f(1) by (simp add: cacher_inv_def)
  moreover have "distinct (map co_id (ring c'))" unfolding rng' by (rule d)
  ultimately have "cacher_inv c'" unfolding cacher_inv_def using f(3,4) filled' om' by blast
  moreover have "ring c' = take (sc_imax c) (ob # ring c)" unfolding rng' using tk by (rule conjunct1)
  ultimately show thesis using that [OF ins] f(1,2) by (simp add: ob_def)
qed

lemma sc_segment_eq:
  assumes "0 < sc_ssize c"
  shows "sc_segment c wire i =
     (let num = of_nat (nsegs (nat (sc_ssize c)) (length wire))
      in Some (if i < num then Inr (seg (nat (sc_ssize c)) wire (unat i)) else Inl ErrObjNotFound, num))"
proof -
  define z where "z = nat (sc_ssize c)"
  have z: "sc_ssize c = int z" "0 < z" using assms by (simp_all add: z_def)
  define num where "num = (of_nat (nsegs z (length wire)) :: u16)"
  have sl: "seg_loop (sc_ssize c) (int (length wire)) 0 0 = Some num"
    using seg_loop_returns [OF z(2), of "length wire" 0 0] by (simp add: z num_def)
  have "go_slice wire (int (unat i) * int z) (min (int (length wire)) ((int (unat i) + 1) * int z)) = Some (seg z wire (unat i))"
    if "i < num"
  proof (rule go_slice_seg [OF z(2)])
    have "unat i < unat num" using that by (simp add: word_less_nat_alt)
    also have "\<dots> \<le> nsegs z (length wire)" by (simp add: num_def unat_of_nat)
    finally show "unat i < nsegs z (length wire)" .
  qed
  then show ?thesis unfolding sc_segment_def sl by (auto simp: z(1) num_def Let_def)
qed

text \<open>The specification: the objects cached last, at most \<open>m\<close>, each under the content it was first cached with.\<close>

definition fifo_cache :: "nat \<Rightarrow> nat \<Rightarrow> (string \<times> bytes) list \<Rightarrow> string \<times> bytes \<Rightarrow> (string \<times> bytes) list" where
  "fifo_cache m ssize q p = (if length (snd p) < ssize \<or> fst p \<in> fst ` set q then q else take m (p # q))"

definition fifo_get :: "nat \<Rightarrow> (string \<times> bytes) list \<Rightarrow> string \<Rightarrow> u16 \<Rightarrow> (cache_error + bytes) \<times> u16" where
  "fifo_get ssize q oid i =
     (case map_of q oid of
        None \<Rightarrow> (Inl ErrObjNotFound, 0)
      | Some w \<Rightarrow>
          (let num = of_nat (nsegs ssize (length w))
           in (if i < num then Inr (seg ssize w (unat i)) else Inl ErrObjNotFound, num)))"

fun sc_run :: "simpleCacher \<Rightarrow> (string \<times> bytes) list \<Rightarrow> simpleCacher option" where
  "sc_run c [] = Some c"
| "sc_run c ((oid, w) # ps) = (case sc_Cache c oid w of None \<Rightarrow> None | Some (_, _, c1) \<Rightarrow> sc_run c1 ps)"

definition abs_ring :: "simpleCacher \<Rightarrow> (string \<times> bytes) list" where
  "abs_ring c = map (\<lambda>ob. (co_id ob, co_wire ob)) (ring c)"

lemma sc_Cache_refines:
  assumes "cacher_inv c"
  obtains s n c' where "sc_Cache c oid w = Some (s, n, c')" "cacher_inv c'" "sc_ssize c' = sc_ssize c" "sc_imax c' = sc_imax c"
    "abs_ring c' = fifo_cache (sc_imax c) (nat (sc_ssize c)) (abs_ring c) (oid, w)"
proof -
  have pos: "0 < sc_ssize c" using assms by (simp add: cacher_inv_def)
  have dom: "oid \<in> dom (sc_objmap c) \<longleftrightarrow> oid \<in> fst ` set (abs_ring c)"
    using assms by (simp add: cacher_inv_def dom_map_of_conv_image_fst image_image abs_ring_def)
  have ex: "\<exists>s n. sc_Cache c oid w = Some (s, n, c1)"
    if "\<not> int (length w) < sc_ssize c" "(if oid \<in> dom (sc_objmap c) then Some c else ring_insert c oid w) = Some c1" "0 < sc_ssize c1" for c1
    using that(1,2) sc_segment_eq [OF that(3), of w 0] by (simp add: sc_Cache_def Let_def)
  show thesis
  proof (cases "int (length w) < sc_ssize c \<or> oid \<in> dom (sc_objmap c)")
    case True
    then have "\<exists>s n. sc_Cache c oid w = Some (s, n, c)" using ex [of c] pos by (cases "int (length w) < sc_ssize c") (auto simp: sc_Cache_def)
    moreover have "fifo_cache (sc_imax c) (nat (sc_ssize c)) (abs_ring c) (oid, w) = abs_ring c"
      using True dom pos by (auto simp: fifo_cache_def)
    ultimately show thesis using that assms by auto
  next
    case False
    obtain c' where c': "ring_insert c oid w = Some c'" "cacher_inv c'" "sc_ssize c' = sc_ssize c" "sc_imax c' = sc_imax c"
      "ring c' = take (sc_imax c) (\<lparr>co_wire = w, co_id = oid\<rparr> # ring c)"
      using ring_insert_step [OF assms] False by blast
    then have "\<exists>s n. sc_Cache c oid w = Some (s, n, c')" using ex [of c'] False pos by auto
    moreover have "abs_ring c' = fifo_cache (sc_imax c) (nat (sc_ssize c)) (abs_ring c) (oid, w)"
      using c'(5) False dom pos by (auto simp: abs_ring_def fifo_cache_def simp flip: take_map)
    ultimately show thesis using that c' by blast
  qed
qed

lemma sc_run_refines:
  "cacher_inv c \<Longrightarrow> \<exists>c'. sc_run c ps = Some c' \<and> cacher_inv c' \<and> sc_ssize c' = sc_ssize c
     \<and> abs_ring c' = foldl (fifo_cache (sc_imax c) (nat (sc_ssize c))) (abs_ring c) ps"
proof (induction ps arbitrary: c)
  case (Cons p ps)
  obtain oid w where p: "p = (oid, w)" by fastforce
  obtain s n c1 where c1: "sc_Cache c oid w = Some (s, n, c1)" "cacher_inv c1" "sc_ssize c1 = sc_ssize c" "sc_imax c1 = sc_imax c"
    "abs_ring c1 = fifo_cache (sc_imax c) (nat (sc_ssize c)) (abs_ring c) (oid, w)"
    using sc_Cache_refines [OF Cons.prems] .
  then show ?case using Cons.IH [OF c1(2)] p by simp
qed simp

lemma map_of_wires:
  "map_of (map (\<lambda>ob. (co_id ob, co_wire ob)) xs) k = map_option co_wire (map_of (map (\<lambda>ob. (co_id ob, ob)) xs) k)"
  by (induction xs) auto

lemma sc_GetSegment_refines:
  assumes "cacher_inv c"
  shows "sc_GetSegment c oid i = Some (fifo_get (nat (sc_ssize c)) (abs_ring c) oid i)"
proof -
  have "map_of (abs_ring c) oid = map_option co_wire (sc_objmap c oid)"
    using assms by (simp add: cacher_inv_def abs_ring_def map_of_wires)
  then show ?thesis using assms sc_segment_eq [of c]
    by (cases "sc_objmap c oid") (simp_all add: sc_GetSegment_def fifo_get_def cacher_inv_def Let_def)
qed

lemma cacher_inv_new: "0 < ssize \<Longrightarrow> 0 < m \<Longrightarrow> cacher_inv (NewSimpleCacher ssize m)" "abs_ring (NewSimpleCacher ssize m) = []"
proof -
  have r: "ring (NewSimpleCacher ssize m) = []" by (simp add: ring_def NewSimpleCacher_def somes_None)
  then show "abs_ring (NewSimpleCacher ssize m) = []" by (simp add: abs_ring_def)
  assume "0 < ssize" "0 < m"
  moreover have "ring_filled (NewSimpleCacher ssize m)" by (auto simp: ring_filled_def NewSimpleCacher_def)
  ultimately show "cacher_inv (NewSimpleCacher ssize m)"
    unfolding cacher_inv_def r by (simp add: NewSimpleCacher_def)
qed

text \<open>
  Claim C9. The ring cache refines a bounded first-in-first-out queue: after any sequence of calls to \<open>Cache\<close>, none of
  which panics or loops, \<open>GetSegment\<close> answers exactly like the queue of the last objects that were large enough,
  each with the content it was first cached with and with its number of segments modulo \<open>2 ^ 16\<close>.
\<close>

theorem cacher_refines_fifo:
  assumes "0 < ssize" "0 < m"
  shows "\<exists>c. sc_run (NewSimpleCacher (int ssize) m) ps = Some c \<and>
     (\<forall>oid i. sc_GetSegment c oid i = Some (fifo_get ssize (foldl (fifo_cache m ssize) [] ps) oid i))"
proof -
  have inv: "cacher_inv (NewSimpleCacher (int ssize) m)" using assms cacher_inv_new(1) by simp
  obtain c where c: "sc_run (NewSimpleCacher (int ssize) m) ps = Some c" "cacher_inv c" "sc_ssize c = int ssize"
    "abs_ring c = foldl (fifo_cache m ssize) [] ps"
    using sc_run_refines [OF inv, of ps] by (auto simp: cacher_inv_new(2)) (auto simp: NewSimpleCacher_def)
  then show ?thesis using sc_GetSegment_refines [OF c(2)] by auto
qed

theorem cacher_refines_fifo_witness:
  "\<exists>c. sc_run (NewSimpleCacher 2 1) [(''a'', [1, 2, 3]), (''b'', [4, 5])] = Some c \<and>
     sc_GetSegment c ''b'' 0 = Some (Inr [4, 5], 1) \<and> sc_GetSegment c ''a'' 0 = Some (Inl ErrObjNotFound, 0)"
  using cacher_refines_fifo [of 2 1 "[(''a'', [1, 2, 3]), (''b'', [4, 5])]"]
  by (auto simp: fifo_get_def fifo_cache_def nsegs_def seg_def slice_def)

section \<open>The expiring cache serves what it holds\<close>

definition ocm_inv :: "ObjCacheManager \<Rightarrow> bool" where
  "ocm_inv c \<longleftrightarrow> \<not> ocm_dead c \<and>
     (\<forall>oid obj. ocm_objects c oid = Some obj \<longrightarrow> cb_numsegs obj = of_nat (nsegs 1000 (length (cb_wire obj))))"

lemma ocm_loop: "seg_loop 1000 (int (length wire)) 0 0 = Some (of_nat (nsegs 1000 (length wire)))"
  using seg_loop_returns [of 1000 "length wire" 0 0] by simp

lemma ocm_cache_inv:
  assumes "ocm_inv c"
  obtains s n c' where "ocm_cache now c oid wire = Some (s, n, c')" "ocm_inv c'"
    "1 < (of_nat (nsegs 1000 (length wire)) :: u16) \<Longrightarrow> \<exists>obj. ocm_objects c' oid = Some obj"
proof (cases "ocm_objects c oid")
  case None
  show thesis
  proof (cases "1 < (of_nat (nsegs 1000 (length wire)) :: u16)")
    case True
    let ?c = "c\<lparr>ocm_objects := (ocm_objects c)(oid \<mapsto> cb_update now \<lparr>cb_expired = 0, cb_wire = wire, cb_numsegs = of_nat (nsegs 1000 (length wire))\<rparr>)\<rparr>"
    have "\<exists>s n. ocm_cache now c oid wire = Some (s, n, ?c)"
      using True None assms by (simp add: ocm_cache_def ocm_loop ocm_inv_def go_slice_def MAX_SEGMENT_SIZE_def)
    moreover have "ocm_inv ?c" using assms by (auto simp: ocm_inv_def cb_update_def)
    ultimately show thesis using that by auto
  next
    case False
    then have "\<exists>s n. ocm_cache now c oid wire = Some (s, n, c)"
      using None assms by (simp add: ocm_cache_def ocm_loop ocm_inv_def MAX_SEGMENT_SIZE_def)
    then show thesis using that assms False by auto
  qed
next
  case (Some obj)
  let ?c = "c\<lparr>ocm_objects := (ocm_objects c)(oid \<mapsto> cb_update now obj)\<rparr>"
  have "\<exists>s n. ocm_cache now c oid wire = Some (s, n, ?c)"
    using Some assms by (simp add: ocm_cache_def ocm_inv_def go_slice_def MAX_SEGMENT_SIZE_def)
  moreover have "ocm_inv ?c" using assms Some by (auto simp: ocm_inv_def cb_update_def)
  ultimately show thesis using that by auto
qed

lemma ocm_tick_inv: "ocm_inv c \<Longrightarrow> ocm_inv (ocm_tick now c)"
  by (auto simp: ocm_inv_def ocm_tick_def split: option.splits if_splits)

lemma ocm_getSegment_serves:
  assumes "ocm_inv c" "ocm_objects c oid = Some obj" "i < nsegs 1000 (length (cb_wire obj))" "nsegs 1000 (length (cb_wire obj)) < 2 ^ 16"
  shows "ocm_getSegment now c oid (of_nat i) = Some (Inr (seg 1000 (cb_wire obj) i), of_nat (nsegs 1000 (length (cb_wire obj))),
      c\<lparr>ocm_objects := (ocm_objects c)(oid \<mapsto> cb_update now obj)\<rparr>)"
proof -
  have num: "cb_numsegs obj = of_nat (nsegs 1000 (length (cb_wire obj)))" "\<not> ocm_dead c" using assms(1,2) by (simp_all add: ocm_inv_def)
  have u: "unat (of_nat i :: u16) = i" using assms(3,4) by (simp add: unat_of_nat)
  have lt: "\<not> (of_nat (nsegs 1000 (length (cb_wire obj))) :: u16) \<le> of_nat i"
    using assms(3,4) u by (simp add: word_le_nat_alt unat_of_nat)
  have "go_slice (cb_wire obj) (1000 * int i) (min (int (length (cb_wire obj))) (1000 * int i + 1000)) = Some (seg 1000 (cb_wire obj) i)"
    using go_slice_seg [OF _ assms(3)] by (simp add: algebra_simps)
  then show ?thesis unfolding ocm_getSegment_def using assms(2) num lt u
    by (simp add: MAX_SEGMENT_SIZE_def Let_def del: of_nat_unat)
qed

section \<open>Stopping the expiring cache\<close>

text \<open>
  \<open>stop\<close> and the cleaning loop as two threads with one mutex. The loop waits in its \<open>select\<close>, then for the mutex when the ticker
  has fired, then holds it; \<open>stop\<close> takes the mutex and sends on the unbuffered channel \<open>quit\<close>, which needs the loop at
  its \<open>select\<close>. The methods of the cache take and release the mutex within their bodies.
\<close>

datatype loop_pc = AtSelect | WantLock | Cleaning | LoopDone

datatype stop_pc = NotCalled | StopWantLock | Sending | Stopped

record ocm_threads =
  th_held :: bool
  th_loop :: loop_pc
  th_stop :: stop_pc
  th_cache :: ObjCacheManager

inductive ocm_step :: "ocm_threads \<Rightarrow> ocm_threads \<Rightarrow> bool" where
  ticker: "th_loop s = AtSelect \<Longrightarrow> ocm_step s (s\<lparr>th_loop := WantLock\<rparr>)"
| loop_lock: "th_loop s = WantLock \<Longrightarrow> \<not> th_held s \<Longrightarrow> ocm_step s (s\<lparr>th_loop := Cleaning, th_held := True\<rparr>)"
| loop_clean: "th_loop s = Cleaning \<Longrightarrow>
    ocm_step s (s\<lparr>th_loop := AtSelect, th_held := False, th_cache := ocm_tick now (th_cache s)\<rparr>)"
| stop_call: "th_stop s = NotCalled \<Longrightarrow> ocm_step s (s\<lparr>th_stop := StopWantLock\<rparr>)"
| stop_lock: "th_stop s = StopWantLock \<Longrightarrow> \<not> th_held s \<Longrightarrow> ocm_step s (s\<lparr>th_stop := Sending, th_held := True\<rparr>)"
| stop_send: "th_stop s = Sending \<Longrightarrow> th_loop s = AtSelect \<Longrightarrow>
    ocm_step s (s\<lparr>th_stop := Stopped, th_loop := LoopDone, th_held := False, th_cache := (th_cache s)\<lparr>ocm_dead := True\<rparr>\<rparr>)"

inductive ocm_reach :: "ocm_threads \<Rightarrow> bool" where
  start: "ocm_reach \<lparr>th_held = False, th_loop = AtSelect, th_stop = NotCalled, th_cache = newObjCacheManager\<rparr>"
| step: "ocm_reach s \<Longrightarrow> ocm_step s s' \<Longrightarrow> ocm_reach s'"

inductive_simps ocm_step_simps: "ocm_step s s'"

lemma ocm_reach_inv:
  "ocm_reach s \<Longrightarrow> (th_held s \<longleftrightarrow> th_loop s = Cleaning \<or> th_stop s = Sending) \<and> \<not> (th_loop s = Cleaning \<and> th_stop s = Sending)
     \<and> (th_loop s = LoopDone \<longleftrightarrow> th_stop s = Stopped)"
proof (induction rule: ocm_reach.induct)
  case (step s s')
  from step(2,3) show ?case by (cases rule: ocm_step.cases) auto
qed simp

lemma ocm_stuck:
  assumes "ocm_reach s"
  shows "(\<forall>s'. \<not> ocm_step s s') \<longleftrightarrow> th_stop s = Stopped \<or> (th_loop s = WantLock \<and> th_stop s = Sending)"
proof
  assume n: "\<forall>s'. \<not> ocm_step s s'"
  show "th_stop s = Stopped \<or> (th_loop s = WantLock \<and> th_stop s = Sending)"
    using ocm_reach_inv [OF assms] n ticker [of s] loop_lock [of s] loop_clean [of s] stop_call [of s]
    by (cases "th_loop s"; cases "th_stop s") auto
next
  assume "th_stop s = Stopped \<or> (th_loop s = WantLock \<and> th_stop s = Sending)"
  then show "\<forall>s'. \<not> ocm_step s s'"
    using ocm_reach_inv [OF assms] by (auto simp: ocm_step_simps)
qed

text \<open>
  Claim C33. Stopping the expiring cache can deadlock, and only in one way: there is a reachable state in which the
  cache is not stopped and nothing can move, and in every such state \<open>stop\<close> holds the mutex while it sends on \<open>quit\<close> and the loop,
  whose ticker has fired, waits for the mutex.
\<close>

theorem stop_deadlock:
  "(\<exists>s. ocm_reach s \<and> \<not> ocm_dead (th_cache s) \<and> (\<forall>s'. \<not> ocm_step s s')) \<and>
   {s. ocm_reach s \<and> th_stop s \<noteq> Stopped \<and> (\<forall>s'. \<not> ocm_step s s')}
     = {s. ocm_reach s \<and> th_loop s = WantLock \<and> th_stop s = Sending \<and> th_held s}"
proof
  let ?s0 = "\<lparr>th_held = False, th_loop = AtSelect, th_stop = NotCalled, th_cache = newObjCacheManager\<rparr>"
  let ?s3 = "\<lparr>th_held = True, th_loop = WantLock, th_stop = Sending, th_cache = newObjCacheManager\<rparr>"
  have "ocm_reach (?s0\<lparr>th_stop := StopWantLock\<rparr>)" by (rule ocm_reach.step [OF start]) (rule stop_call, simp)
  then have "ocm_reach (?s0\<lparr>th_stop := StopWantLock, th_loop := WantLock\<rparr>)"
    by (rule ocm_reach.step) (use ticker [of "?s0\<lparr>th_stop := StopWantLock\<rparr>"] in simp)
  then have "ocm_reach ?s3"
    by (rule ocm_reach.step) (use stop_lock [of "?s0\<lparr>th_stop := StopWantLock, th_loop := WantLock\<rparr>"] in simp)
  then have "ocm_reach ?s3 \<and> \<not> ocm_dead (th_cache ?s3) \<and> (\<forall>s'. \<not> ocm_step ?s3 s')"
    using ocm_stuck [of ?s3] by (simp add: newObjCacheManager_def)
  then show "\<exists>s. ocm_reach s \<and> \<not> ocm_dead (th_cache s) \<and> (\<forall>s'. \<not> ocm_step s s')" by blast
  show "{s. ocm_reach s \<and> th_stop s \<noteq> Stopped \<and> (\<forall>s'. \<not> ocm_step s s')}
     = {s. ocm_reach s \<and> th_loop s = WantLock \<and> th_stop s = Sending \<and> th_held s}"
    using ocm_stuck ocm_reach_inv by auto
qed

end
