(* ===== verification/NdnFetch.thy ===== *)
theory NdnFetch
  imports NdnCache
begin

text \<open>
  Fetching objects in segments (\<open>ndn/ndnsuit/consumer.go\<close>, \<open>fetching.go\<close>) and serving them
  (\<open>ndn/ndnsuit/producer.go\<close>). The sequential consumer asks for one segment after the other; the asynchronous one
  asks for all of them and puts them together in the order of arrival. What happens to an Interest on the network
  is a parameter; the server side is an interface, a source of segments, that both caches implement.
\<close>

section \<open>Messages\<close>

datatype suit_error =
    SuitTimeout
  | SuitNack
  | SuitResponseStatus
  | SuitInteruption
  | SuitOversize
  | SuitJobAborted
  | SuitNoObject
  | SuitUnexpected
  | SuitApp string

record SimpleSegment =
  sg_Wire :: bytes
  sg_Total :: u16
  sg_Id :: u16

definition NewSimpleSegment :: "bytes \<Rightarrow> u16 \<Rightarrow> u16 \<Rightarrow> SimpleSegment" where
  "NewSimpleSegment wire i num = \<lparr>sg_Wire = wire, sg_Total = num, sg_Id = i\<rparr>"

text \<open>A response either implements \<open>ResponseWithDataSegment\<close>, with the result of \<open>ExtractSegment\<close>, or does not.\<close>

datatype response = SegmentResponse "suit_error + SimpleSegment" | PlainResponse

text \<open>What ends the wait for an Interest: its outcome, or the quit channel.\<close>

datatype 'd waiting = Outcome "suit_error + 'd" | QuitFirst

section \<open>Consumers\<close>

definition Request :: "('d \<Rightarrow> suit_error + response option) \<Rightarrow> 'd waiting \<Rightarrow> suit_error + response option" where
  "Request DecodeData w =
     (case w of
        QuitFirst \<Rightarrow> Inl SuitJobAborted
      | Outcome (Inl e) \<Rightarrow> Inl e
      | Outcome (Inr d) \<Rightarrow> DecodeData d)"

definition fetchSegment ::
  "('d \<Rightarrow> suit_error + response option) \<Rightarrow> (nat \<Rightarrow> u16 \<Rightarrow> 'd waiting) \<Rightarrow> nat \<Rightarrow> u16 \<Rightarrow> suit_error + SimpleSegment" where
  "fetchSegment DecodeData net t segId =
     (case Request DecodeData (net t segId) of
        Inl e \<Rightarrow> Inl e
      | Inr None \<Rightarrow> Inl SuitNoObject
      | Inr (Some (SegmentResponse r)) \<Rightarrow> r
      | Inr (Some PlainResponse) \<Rightarrow> Inl SuitUnexpected)"

text \<open>
  The sequential \<open>FetchObject\<close>: \<open>fetch t i\<close> is the result of the \<open>t\<close>-th call of \<open>fetchSegment\<close>, for segment \<open>i\<close>. On an
  error the part that was fetched is returned beside it. A server that never announces the end makes the loop
  run forever: \<open>None\<close>.
\<close>

partial_function (option) FetchObject_loop ::
  "(nat \<Rightarrow> u16 \<Rightarrow> suit_error + SimpleSegment) \<Rightarrow> nat \<Rightarrow> bytes \<Rightarrow> (bytes \<times> suit_error option) option" where
  "FetchObject_loop fetch num obj =
     (case fetch num (of_nat num) of
        Inl e \<Rightarrow> Some (obj, Some e)
      | Inr s \<Rightarrow>
          if sg_Total s \<le> sg_Id s + 1 then Some (obj @ sg_Wire s, None)
          else FetchObject_loop fetch (num + 1) (obj @ sg_Wire s))"

definition FetchObject :: "(nat \<Rightarrow> u16 \<Rightarrow> suit_error + SimpleSegment) \<Rightarrow> (bytes \<times> suit_error option) option" where
  "FetchObject fetch = FetchObject_loop fetch 0 []"

section \<open>The asynchronous consumer\<close>

text \<open>
  The job of a segment request: what its callback hands to \<open>fn\<close>. \<open>submit\<close> stands for the worker pool: an error when it does
  not take the job.
\<close>

definition async_handler :: "suit_error + response option \<Rightarrow> suit_error + SimpleSegment" where
  "async_handler res =
     (case res of
        Inl e \<Rightarrow> Inl e
      | Inr None \<Rightarrow> Inl SuitNoObject
      | Inr (Some (SegmentResponse r)) \<Rightarrow> r
      | Inr (Some PlainResponse) \<Rightarrow> Inl SuitUnexpected)"

definition async_Request :: "(u16 \<Rightarrow> bool) \<Rightarrow> u16 \<Rightarrow> suit_error option" where
  "async_Request Submit segId = (if Submit segId then None else Some SuitJobAborted)"

fun request_all :: "(u16 \<Rightarrow> bool) \<Rightarrow> nat list \<Rightarrow> suit_error option" where
  "request_all Submit [] = None"
| "request_all Submit (i # is) =
     (case async_Request Submit (of_nat i) of Some e \<Rightarrow> Some e | None \<Rightarrow> request_all Submit is)"

text \<open>What the \<open>select\<close> of the loop receives: a result of the channel, or the quit signal.\<close>

datatype arrival = Arrived u16 "suit_error + SimpleSegment" | QuitSignal

text \<open>
  The loop over the arrivals. It waits for the next one when the list is used up, and a segment number outside of the
  slice is an index panic: \<open>None\<close> in both cases.
\<close>

fun async_loop ::
  "(u16 \<Rightarrow> bool) \<Rightarrow> u16 \<Rightarrow> u16 \<Rightarrow> bytes list \<Rightarrow> nat \<Rightarrow> arrival list \<Rightarrow> (suit_error + bytes) option" where
  "async_loop Submit numsegments tot segments counter [] = None"
| "async_loop Submit numsegments tot segments counter (QuitSignal # as) = Some (Inl SuitJobAborted)"
| "async_loop Submit numsegments tot segments counter (Arrived i (Inl e) # as) = Some (Inl e)"
| "async_loop Submit numsegments tot segments counter (Arrived i (Inr s) # as) =
     (if i \<noteq> sg_Id s then Some (Inl SuitUnexpected)
      else if numsegments = 0 \<and> i = 0 then
        let tot1 = sg_Total s
        in if tot1 = 0 then Some (Inl SuitUnexpected)
           else
             let segments1 = (replicate (unat tot1) [])[0 := sg_Wire s]
             in case (if 1 < tot1 then request_all Submit [1..<unat tot1] else None) of
                  Some e \<Rightarrow> Some (Inl e)
                | None \<Rightarrow>
                    if counter + 1 = unat tot1 then Some (Inr (concat segments1))
                    else async_loop Submit numsegments tot1 segments1 (counter + 1) as
      else if tot \<noteq> sg_Total s then Some (Inl SuitUnexpected)
      else if length segments \<le> unat i then None
      else
        let segments1 = segments[unat i := sg_Wire s]
        in if counter + 1 = unat tot then Some (Inr (concat segments1))
           else async_loop Submit numsegments tot segments1 (counter + 1) as)"

definition FetchObject_async :: "(u16 \<Rightarrow> bool) \<Rightarrow> u16 \<Rightarrow> arrival list \<Rightarrow> (suit_error + bytes) option" where
  "FetchObject_async Submit numsegments as =
     (if 0 < numsegments then
        case request_all Submit [0..<unat numsegments] of
          Some e \<Rightarrow> Some (Inl e)
        | None \<Rightarrow> async_loop Submit numsegments numsegments (replicate (unat numsegments) []) 0 as
      else
        case async_Request Submit 0 of
          Some e \<Rightarrow> Some (Inl e)
        | None \<Rightarrow> async_loop Submit numsegments numsegments [] 0 as)"

section \<open>Producers\<close>

text \<open>
  A decoded request either implements \<open>HasQuery\<close>, with the result of \<open>ExtractQuery\<close>, or does not. The object manager
  answers a query and a segment number with a response or an error, and changes its own state.
\<close>

datatype 'q request = QueryRequest "('q \<times> u16) option" | PlainRequest

datatype 'r action = NoAction | CallHandler | SendData "'r option" | SendNack u8

type_synonym ('q, 'r, 's) manager = "'q \<Rightarrow> u16 \<Rightarrow> 's \<Rightarrow> (('r option) \<times> 's) option"

definition Serve :: "'r option \<Rightarrow> 'r action" where
  "Serve msg = (case msg of Some m \<Rightarrow> SendData (Some m) | None \<Rightarrow> SendData None)"

definition process ::
  "('i \<Rightarrow> 'q request option) \<Rightarrow> ('q, 'r, 's) manager option \<Rightarrow> bool \<Rightarrow> 'i \<Rightarrow> 's \<Rightarrow> ('r action \<times> 's) option" where
  "process DecodeInterest manager has_fn i s =
     (let handle = Some (if has_fn then CallHandler else NoAction, s)
      in case DecodeInterest i of
           None \<Rightarrow> Some (NoAction, s)
         | Some req \<Rightarrow>
             (case manager of
                None \<Rightarrow> handle
              | Some GetSegment \<Rightarrow>
                  (case req of
                     QueryRequest (Some (query, segId)) \<Rightarrow>
                       (case GetSegment query segId s of
                          None \<Rightarrow> None
                        | Some (Some reply, s1) \<Rightarrow> Some (Serve (Some reply), s1)
                        | Some (None, s1) \<Rightarrow> Some (SendNack 150, s1))
                   | _ \<Rightarrow> handle)))"

section \<open>Truthful answers\<close>

text \<open>The segments of an object as a server sends them, and what it takes to fetch all of them one after the other.\<close>

definition segment_of :: "nat \<Rightarrow> bytes \<Rightarrow> nat \<Rightarrow> SimpleSegment" where
  "segment_of z w i = \<lparr>sg_Wire = seg z w i, sg_Total = of_nat (nsegs z (length w)), sg_Id = of_nat i\<rparr>"

lemma segment_of_simps [simp]:
  "sg_Wire (segment_of z w i) = seg z w i" "sg_Total (segment_of z w i) = of_nat (nsegs z (length w))"
  "sg_Id (segment_of z w i) = of_nat i"
  by (simp_all add: segment_of_def)

lemma unat_u16: "n < 2 ^ 16 \<Longrightarrow> unat (of_nat n :: u16) = n"
  by (simp add: unat_of_nat)

lemma FetchObject_from:
  assumes "nsegs z (length w) < 2 ^ 16" "\<And>i. k \<le> i \<Longrightarrow> i < nsegs z (length w) \<Longrightarrow> fetch i (of_nat i) = Inr (segment_of z w i)"
    "k < nsegs z (length w)"
  shows "FetchObject_loop fetch k obj = Some (obj @ concat (map (seg z w) [k..<nsegs z (length w)]), None)"
  using assms(2,3)
proof (induction "nsegs z (length w) - k" arbitrary: k obj)
  case (Suc d)
  have k: "fetch k (of_nat k) = Inr (segment_of z w k)" using Suc.prems by simp
  have last: "(of_nat (nsegs z (length w)) :: u16) \<le> of_nat k + 1 \<longleftrightarrow> nsegs z (length w) = k + 1"
  proof -
    have "(of_nat k + 1 :: u16) = of_nat (k + 1)" by simp
    then show ?thesis using Suc.prems(2) assms(1) by (simp only: word_le_nat_alt unat_u16) (auto simp: unat_u16)
  qed
  show ?case
  proof (cases "nsegs z (length w) = k + 1")
    case True
    then show ?thesis using k last by (simp add: FetchObject_loop.simps)
  next
    case False
    then have "FetchObject_loop fetch (k + 1) (obj @ seg z w k)
        = Some ((obj @ seg z w k) @ concat (map (seg z w) [k + 1..<nsegs z (length w)]), None)"
      using Suc by (intro Suc.hyps(1)) auto
    moreover have "FetchObject_loop fetch k obj = FetchObject_loop fetch (k + 1) (obj @ seg z w k)"
      using k last False by (simp add: FetchObject_loop.simps [of fetch k])
    moreover have "[k..<nsegs z (length w)] = k # [k + 1..<nsegs z (length w)]" using Suc.prems(2) by (simp add: upt_conv_Cons)
    ultimately show ?thesis by simp
  qed
qed simp

text \<open>Arrivals that are errors, the quit signal, or true segments of the object.\<close>

fun truthful :: "nat \<Rightarrow> bytes \<Rightarrow> arrival \<Rightarrow> bool" where
  "truthful z w (Arrived i (Inr s)) \<longleftrightarrow> unat i < nsegs z (length w) \<and> s = segment_of z w (unat i)"
| "truthful z w _ \<longleftrightarrow> True"

fun arrival_ids :: "arrival list \<Rightarrow> nat list" where
  "arrival_ids [] = []"
| "arrival_ids (Arrived i _ # as) = unat i # arrival_ids as"
| "arrival_ids (QuitSignal # as) = arrival_ids as"

text \<open>The slots of the loop after the segments \<open>D\<close> have arrived.\<close>

definition slots :: "nat \<Rightarrow> bytes \<Rightarrow> nat set \<Rightarrow> bytes list" where
  "slots z w D = map (\<lambda>i. if i \<in> D then seg z w i else []) [0..<nsegs z (length w)]"

lemma slots_update: "i < nsegs z (length w) \<Longrightarrow> (slots z w D)[i := seg z w i] = slots z w (insert i D)"
  by (rule nth_equalityI) (auto simp: slots_def nth_list_update)

lemma slots_empty: "slots z w {} = replicate (nsegs z (length w)) []"
  by (simp add: slots_def map_replicate_const)

lemma slots_all:
  assumes "0 < z" "{0..<nsegs z (length w)} \<subseteq> D"
  shows "concat (slots z w D) = w"
proof -
  have "slots z w D = map (seg z w) [0..<nsegs z (length w)]" using assms(2) by (auto simp: slots_def)
  then show ?thesis using segs_whole [OF assms(1)] by simp
qed

lemma all_arrived:
  assumes "D \<subseteq> {0..<n}" "card D = n"
  shows "{0..<n} \<subseteq> D"
  using assms card_subset_eq [of "{0..<n}" D] by simp

text \<open>One true segment in the loop, once the number of segments is known.\<close>

lemma async_step:
  assumes "0 < z" "nsegs z (length w) < 2 ^ 16" "i < nsegs z (length w)" "D \<subseteq> {0..<nsegs z (length w)}" "i \<notin> D"
    "numsegments \<noteq> 0 \<or> 0 \<in> D"
  shows "async_loop Submit numsegments (of_nat (nsegs z (length w))) (slots z w D) (card D) (Arrived (of_nat i) (Inr (segment_of z w i)) # as)
    = (if insert i D = {0..<nsegs z (length w)} then Some (Inr w)
       else async_loop Submit numsegments (of_nat (nsegs z (length w))) (slots z w (insert i D)) (card (insert i D)) as)"
proof -
  let ?n = "nsegs z (length w)"
  have u: "unat (of_nat i :: u16) = i" "unat (of_nat ?n :: u16) = ?n" using assms(2,3) by (simp_all add: unat_u16)
  have i0: "\<not> (numsegments = 0 \<and> (of_nat i :: u16) = 0)" using assms(5,6) u(1) by (metis unat_0)
  have fin: "finite D" using assms(4) finite_subset by blast
  have card: "card (insert i D) = card D + 1" using fin assms(5) by simp
  have full: "card D + 1 = ?n \<longleftrightarrow> insert i D = {0..<?n}"
    using card all_arrived [of "insert i D" ?n] assms(3,4) by auto
  have "length (slots z w D) = ?n" by (simp add: slots_def)
  then have eq: "async_loop Submit numsegments (of_nat ?n) (slots z w D) (card D) (Arrived (of_nat i) (Inr (segment_of z w i)) # as)
    = (if card D + 1 = ?n then Some (Inr (concat (slots z w (insert i D))))
       else async_loop Submit numsegments (of_nat ?n) (slots z w (insert i D)) (card D + 1) as)"
    using i0 u assms(3) slots_update [OF assms(3), of D] by (cases "numsegments = 0") (simp_all add: Let_def)
  have "concat (slots z w (insert i D)) = w" if "insert i D = {0..<?n}"
    using slots_all [OF assms(1), of w "insert i D"] that by simp
  then show ?thesis unfolding eq full card by simp
qed

lemma async_first:
  assumes "0 < z" "0 < nsegs z (length w)" "nsegs z (length w) < 2 ^ 16"
  shows "async_loop Submit 0 tot segments 0 (Arrived 0 (Inr (segment_of z w 0)) # as)
    = (case (if 1 < nsegs z (length w) then request_all Submit [1..<nsegs z (length w)] else None) of
         Some e \<Rightarrow> Some (Inl e)
       | None \<Rightarrow> if nsegs z (length w) = 1 then Some (Inr w)
                 else async_loop Submit 0 (of_nat (nsegs z (length w))) (slots z w {0}) (card {0::nat}) as)"
proof -
  let ?n = "nsegs z (length w)"
  have u: "unat (of_nat ?n :: u16) = ?n" using assms(3) by (simp add: unat_u16)
  have nz: "(of_nat ?n :: u16) \<noteq> 0" using assms(2) u by (metis less_irrefl unat_0)
  have one: "1 < (of_nat ?n :: u16) \<longleftrightarrow> 1 < ?n" using u by (simp add: word_less_nat_alt)
  have "(replicate ?n [])[0 := seg z w 0] = slots z w {0}"
    using slots_update [of 0 z w "{}"] assms(2) by (simp add: slots_empty)
  moreover have "concat (slots z w {0}) = w" if "?n = 1" using slots_all [OF assms(1), of w "{0}"] that by simp
  ultimately show ?thesis using u nz one assms(2) by (auto simp: Let_def split: option.splits)
qed

lemma async_result:
  assumes "async_loop Submit numsegments tot segments counter as = Some (Inr x)"
  obtains i s as' where "as = Arrived i (Inr s) # as'"
proof (cases as)
  case (Cons a as')
  show thesis
  proof (cases a)
    case (Arrived i r)
    then show thesis using that assms Cons by (cases r) simp_all
  qed (use assms Cons in simp)
qed (use assms in simp)

lemma async_loop_safe:
  assumes z: "0 < z" "nsegs z (length w) < 2 ^ 16"
    and "D \<subseteq> {0..<nsegs z (length w)}" "numsegments \<noteq> 0 \<or> 0 \<in> D" "list_all (truthful z w) as" "distinct (arrival_ids as)"
    "set (arrival_ids as) \<inter> D = {}"
    "async_loop Submit numsegments (of_nat (nsegs z (length w))) (slots z w D) (card D) as = Some (Inr x)"
  shows "x = w"
  using assms(3-)
proof (induction as arbitrary: D)
  case (Cons a as)
  obtain i s where a: "a = Arrived i (Inr s)" using Cons.prems(6) by (rule async_result) simp
  then have i: "unat i < nsegs z (length w)" "s = segment_of z w (unat i)" "unat i \<notin> D" using Cons.prems(3,5) by auto
  have step: "async_loop Submit numsegments (of_nat (nsegs z (length w))) (slots z w D) (card D) (a # as)
    = (if insert (unat i) D = {0..<nsegs z (length w)} then Some (Inr w)
       else async_loop Submit numsegments (of_nat (nsegs z (length w))) (slots z w (insert (unat i) D)) (card (insert (unat i) D)) as)"
    using async_step [OF z i(1) Cons.prems(1) i(3) Cons.prems(2), of Submit as] a i(2) by simp
  show ?case
  proof (cases "insert (unat i) D = {0..<nsegs z (length w)}")
    case True
    then have "async_loop Submit numsegments (of_nat (nsegs z (length w))) (slots z w D) (card D) (a # as) = Some (Inr w)"
      unfolding step by simp
    then show ?thesis using Cons.prems(6) by simp
  next
    case False
    have "async_loop Submit numsegments (of_nat (nsegs z (length w))) (slots z w (insert (unat i) D)) (card (insert (unat i) D)) as = Some (Inr x)"
      using Cons.prems(6) False unfolding step by simp
    then show ?thesis by (rule Cons.IH [rotated -1]) (use Cons.prems(1-5) i a in auto)
  qed
qed simp

lemma async_loop_done:
  assumes z: "0 < z" "nsegs z (length w) < 2 ^ 16"
    and "distinct is" "set is = {0..<nsegs z (length w)} - D" "D \<subset> {0..<nsegs z (length w)}" "numsegments \<noteq> 0 \<or> 0 \<in> D"
  shows "async_loop Submit numsegments (of_nat (nsegs z (length w))) (slots z w D) (card D)
     (map (\<lambda>i. Arrived (of_nat i) (Inr (segment_of z w i))) is @ rest) = Some (Inr w)"
  using assms(3-)
proof (induction "is" arbitrary: D)
  case (Cons i "is")
  have i: "i < nsegs z (length w)" "i \<notin> D" "D \<subseteq> {0..<nsegs z (length w)}" using Cons.prems by auto
  note step = async_step [OF z i(1,3,2) Cons.prems(4), of Submit]
  show ?case
  proof (cases "insert i D = {0..<nsegs z (length w)}")
    case True
    then show ?thesis using step by simp
  next
    case False
    have "async_loop Submit numsegments (of_nat (nsegs z (length w))) (slots z w (insert i D)) (card (insert i D))
     (map (\<lambda>i. Arrived (of_nat i) (Inr (segment_of z w i))) is @ rest) = Some (Inr w)"
      using Cons.prems False i by (intro Cons.IH) auto
    then show ?thesis using step False by simp
  qed
qed auto

lemma request_all_ok: "(\<forall>i. Submit i) \<Longrightarrow> request_all Submit is = None"
  by (induction "is") (simp_all add: async_Request_def)

section \<open>Sources of segments\<close>

text \<open>
  The interface between consumers and caches: a state that holds objects and answers every segment number of a held
  object, as long as the object has less than \<open>2 ^ 16\<close> segments.
\<close>

definition served :: "(string \<Rightarrow> u16 \<Rightarrow> (bytes \<times> u16) option) \<Rightarrow> string \<Rightarrow> u16 \<Rightarrow> suit_error + SimpleSegment" where
  "served get oid i = (case get oid i of Some (b, num) \<Rightarrow> Inr (NewSimpleSegment b i num) | None \<Rightarrow> Inl SuitNack)"

locale segment_source =
  fixes inv :: "'s \<Rightarrow> bool"
    and content :: "'s \<Rightarrow> string \<Rightarrow> bytes option"
    and ssize :: "'s \<Rightarrow> nat"
    and get :: "'s \<Rightarrow> string \<Rightarrow> u16 \<Rightarrow> (bytes \<times> u16) option"
  assumes ssize_pos: "inv s \<Longrightarrow> 0 < ssize s"
    and get_segment: "inv s \<Longrightarrow> content s oid = Some w \<Longrightarrow> nsegs (ssize s) (length w) < 2 ^ 16 \<Longrightarrow> i < nsegs (ssize s) (length w) \<Longrightarrow>
      get s oid (of_nat i) = Some (seg (ssize s) w i, of_nat (nsegs (ssize s) (length w)))"
begin

lemma served_segment:
  assumes "inv s" "content s oid = Some w" "nsegs (ssize s) (length w) < 2 ^ 16" "i < nsegs (ssize s) (length w)"
  shows "served (get s) oid (of_nat i) = Inr (segment_of (ssize s) w i)"
  using get_segment [OF assms] by (simp add: served_def NewSimpleSegment_def segment_of_def)

lemma nonempty:
  assumes "inv s" "w \<noteq> []"
  shows "0 < nsegs (ssize s) (length w)"
  using nsegs_step [of "ssize s" "length w"] ssize_pos [OF assms(1)] assms(2) by simp

lemma fetch_sequential:
  assumes "inv s" "content s oid = Some w" "w \<noteq> []" "nsegs (ssize s) (length w) < 2 ^ 16"
  shows "FetchObject (\<lambda>t. served (get s) oid) = Some (w, None)"
proof -
  have "FetchObject_loop (\<lambda>t. served (get s) oid) 0 [] = Some ([] @ concat (map (seg (ssize s) w) [0..<nsegs (ssize s) (length w)]), None)"
    by (rule FetchObject_from [OF assms(4)]) (use served_segment [OF assms(1,2,4)] nonempty [OF assms(1,3)] in simp_all)
  then show ?thesis using segs_whole [OF ssize_pos [OF assms(1)]] by (simp add: FetchObject_def)
qed

lemma fetch_async_done:
  assumes "inv s" "content s oid = Some w" "w \<noteq> []" "nsegs (ssize s) (length w) < 2 ^ 16" "\<forall>i. Submit i"
    "distinct is" "set is = {0..<nsegs (ssize s) (length w)}"
    "numsegments = of_nat (nsegs (ssize s) (length w)) \<or> numsegments = 0 \<and> hd is = 0"
  shows "FetchObject_async Submit numsegments (map (\<lambda>i. Arrived (of_nat i) (served (get s) oid (of_nat i))) is @ rest) = Some (Inr w)"
proof -
  let ?n = "nsegs (ssize s) (length w)" and ?arrive = "\<lambda>i. Arrived (of_nat i) (Inr (segment_of (ssize s) w i))"
  note z = ssize_pos [OF assms(1)] and n0 = nonempty [OF assms(1,3)]
  have arr: "map (\<lambda>i. Arrived (of_nat i) (served (get s) oid (of_nat i))) is = map ?arrive is"
    using served_segment [OF assms(1,2,4)] assms(7) by simp
  note sub = request_all_ok [OF assms(5)]
  consider "numsegments = of_nat ?n" | "numsegments = 0" "hd is = 0" using assms(8) by (elim disjE conjE)
  then show ?thesis
  proof cases
    case 1
    have u: "unat numsegments = ?n" "0 < numsegments" using 1 n0 assms(4) unat_u16 [of ?n] by (simp_all add: word_less_nat_alt)
    then have "FetchObject_async Submit numsegments (map ?arrive is @ rest)
      = async_loop Submit numsegments (of_nat ?n) (slots (ssize s) w {}) (card ({} :: nat set)) (map ?arrive is @ rest)"
      using 1 sub by (simp add: FetchObject_async_def slots_empty)
    also have "\<dots> = Some (Inr w)" using u n0 assms(6,7) by (intro async_loop_done [OF z assms(4)]) auto
    finally show ?thesis unfolding arr .
  next
    case 2
    then obtain js where js: "is = 0 # js" using n0 assms(7) by (cases "is") auto
    have "FetchObject_async Submit 0 (map ?arrive is @ rest)
      = async_loop Submit 0 0 [] 0 (Arrived 0 (Inr (segment_of (ssize s) w 0)) # map ?arrive js @ rest)"
      using js assms(5) by (simp add: FetchObject_async_def async_Request_def del: async_loop.simps)
    also have "\<dots> = (if ?n = 1 then Some (Inr w)
        else async_loop Submit 0 (of_nat ?n) (slots (ssize s) w {0}) (card {0::nat}) (map ?arrive js @ rest))"
      by (subst async_first [OF z n0 assms(4)]) (simp add: sub del: async_loop.simps)
    also have "\<dots> = Some (Inr w)"
    proof (cases "?n = 1")
      case False
      have "set js = set is - {0}" "distinct js" using js assms(6) by auto
      moreover have "1 \<in> {0..<?n}" using n0 False by simp
      then have "{0} \<subset> {0..<?n}" by force
      ultimately have "async_loop Submit 0 (of_nat ?n) (slots (ssize s) w {0}) (card {0::nat}) (map ?arrive js @ rest) = Some (Inr w)"
        using assms(7) by (intro async_loop_done [OF z assms(4)]) simp_all
      then show ?thesis using False by simp
    qed simp
    finally show ?thesis unfolding arr 2 .
  qed
qed

end

definition ring_get :: "simpleCacher \<Rightarrow> string \<Rightarrow> u16 \<Rightarrow> (bytes \<times> u16) option" where
  "ring_get c oid i = (case sc_GetSegment c oid i of Some (Inr b, num) \<Rightarrow> Some (b, num) | _ \<Rightarrow> None)"

definition ocm_get :: "int \<Rightarrow> ObjCacheManager \<Rightarrow> string \<Rightarrow> u16 \<Rightarrow> (bytes \<times> u16) option" where
  "ocm_get now c oid i = (case ocm_getSegment now c oid i of Some (Inr b, num, _) \<Rightarrow> Some (b, num) | _ \<Rightarrow> None)"

interpretation rg: segment_source cacher_inv "\<lambda>c oid. map_option co_wire (sc_objmap c oid)" "\<lambda>c. nat (sc_ssize c)" ring_get
proof
  fix c :: simpleCacher and oid :: string and w :: bytes and i :: nat
  assume c: "cacher_inv c"
  then show pos: "0 < nat (sc_ssize c)" by (simp add: cacher_inv_def)
  assume "map_option co_wire (sc_objmap c oid) = Some w" and n: "nsegs (nat (sc_ssize c)) (length w) < 2 ^ 16" "i < nsegs (nat (sc_ssize c)) (length w)"
  moreover have "(of_nat i :: u16) < of_nat (nsegs (nat (sc_ssize c)) (length w))"
    using n by (simp add: word_less_nat_alt unat_u16)
  ultimately show "ring_get c oid (of_nat i) = Some (seg (nat (sc_ssize c)) w i, of_nat (nsegs (nat (sc_ssize c)) (length w)))"
    using sc_segment_eq [of c w "of_nat i"] pos by (auto simp: ring_get_def sc_GetSegment_def Let_def unat_u16)
qed

interpretation og: segment_source ocm_inv "\<lambda>c oid. map_option cb_wire (ocm_objects c oid)" "\<lambda>c. 1000" "ocm_get now" for now
proof
  fix c :: ObjCacheManager and oid :: string and w :: bytes and i :: nat
  assume "ocm_inv c" "map_option cb_wire (ocm_objects c oid) = Some w" "nsegs 1000 (length w) < 2 ^ 16" "i < nsegs 1000 (length w)"
  then show "ocm_get now c oid (of_nat i) = Some (seg 1000 w i, of_nat (nsegs 1000 (length w)))"
    using ocm_getSegment_serves [of c oid _ i now] by (auto simp: ocm_get_def)
qed simp

section \<open>Fetching what a cache holds\<close>

text \<open>
  Claim C32. The sequential consumer fetches from the ring cache of the Kademlia server exactly the object it
  holds: the loop ends after the last segment, without an error, for every non-empty object of less than \<open>2 ^ 16\<close> segments.
\<close>

theorem sequential_fetch:
  assumes "cacher_inv c" "sc_objmap c oid = Some obj" "co_wire obj \<noteq> []" "nsegs (nat (sc_ssize c)) (length (co_wire obj)) < 2 ^ 16"
  shows "FetchObject (\<lambda>t. served (ring_get c) oid) = Some (co_wire obj, None)"
  using rg.fetch_sequential [OF assms(1), of oid "co_wire obj"] assms(2-) by simp

theorem sequential_fetch_witness:
  "\<exists>c. FetchObject (\<lambda>t. served (ring_get c) ''a'') = Some ([1, 2, 3], None)"
proof -
  obtain c where c: "ring_insert (NewSimpleCacher 2 1) ''a'' [1, 2, 3] = Some c" "cacher_inv c" "sc_ssize c = 2"
    using ring_insert_step [of "NewSimpleCacher 2 1" "''a''" "[1, 2, 3]"] cacher_inv_new(1) [of 2 1]
    by (auto simp: NewSimpleCacher_def)
  moreover have "sc_objmap c ''a'' = Some \<lparr>co_wire = [1, 2, 3], co_id = ''a''\<rparr>"
    using c(1) by (auto simp: ring_insert_def NewSimpleCacher_def Let_def)
  ultimately show ?thesis using sequential_fetch [of c "''a''"] by (auto simp: nsegs_def)
qed

text \<open>
  Claim C10. The asynchronous consumer returns the object that the expiring cache holds as soon as every segment has
  arrived, in whatever order they arrive and whether or not the number of segments was known before.
\<close>

theorem async_fetch_any_order:
  assumes "ocm_inv c" "ocm_objects c oid = Some obj" "cb_wire obj \<noteq> []" "nsegs 1000 (length (cb_wire obj)) < 2 ^ 16"
    "\<forall>i. Submit i" "distinct is" "set is = {0..<nsegs 1000 (length (cb_wire obj))}"
    "numsegments = of_nat (nsegs 1000 (length (cb_wire obj))) \<or> numsegments = 0 \<and> hd is = 0"
  shows "FetchObject_async Submit numsegments (map (\<lambda>i. Arrived (of_nat i) (served (ocm_get now c) oid (of_nat i))) is @ rest)
    = Some (Inr (cb_wire obj))"
  using og.fetch_async_done [OF assms(1), of oid "cb_wire obj" Submit "is" numsegments now rest] assms(2-) by simp

theorem async_fetch_any_order_witness:
  "let w = replicate 2500 7; c = \<lparr>ocm_objects = [''a'' \<mapsto> \<lparr>cb_expired = 0, cb_wire = w, cb_numsegs = 3\<rparr>], ocm_dead = False\<rparr>
   in FetchObject_async (\<lambda>i. True) 3 (map (\<lambda>i. Arrived (of_nat i) (served (ocm_get 0 c) ''a'' (of_nat i))) [2, 0, 1]) = Some (Inr w)"
proof -
  let ?w = "replicate 2500 (7 :: byte)"
  let ?c = "\<lparr>ocm_objects = [''a'' \<mapsto> \<lparr>cb_expired = 0, cb_wire = ?w, cb_numsegs = 3\<rparr>], ocm_dead = False\<rparr>"
  have n: "nsegs 1000 2500 = 3" by (simp add: nsegs_def)
  have "ocm_inv ?c" by (auto simp: ocm_inv_def n)
  moreover have "set [2, 0, 1] = {0..<3::nat}" by auto
  ultimately show ?thesis
    using async_fetch_any_order [of ?c "''a''" "\<lparr>cb_expired = 0, cb_wire = ?w, cb_numsegs = 3\<rparr>" "\<lambda>i. True" "[2, 0, 1]" 3 0 "[]"]
    by (simp add: n Let_def)
qed



end
