(* ===== verification/TrieKey.thy ===== *)
theory TrieKey
  imports Prelude
begin

text \<open>
  The three encodings of trie keys (\<open>trie/encoding.go\<close>): key bytes, one nibble per byte with an optional terminator,
  and the compact form of nodes on disk. The conversions are inverse to each other on the keys that occur.
\<close>

section \<open>Encodings\<close>

definition hasTerm :: "bytes \<Rightarrow> bool" where
  "hasTerm s = (0 < length s \<and> s ! (length s - 1) = 16)"

text \<open>
  \<open>decodeNibbles\<close> writes one byte for every two nibbles; an odd number of nibbles, or a destination that is too short, is
  an index panic: \<open>None\<close>.
\<close>

fun decodeNibbles :: "bytes \<Rightarrow> bytes \<Rightarrow> bytes option" where
  "decodeNibbles [] dst = Some dst"
| "decodeNibbles (a # b # ns) (_ # dst) = map_option (\<lambda>r. (push_bit 4 a OR b) # r) (decodeNibbles ns dst)"
| "decodeNibbles _ _ = None"

definition keybytesToHex :: "bytes \<Rightarrow> bytes" where
  "keybytesToHex str = concat (map (\<lambda>b. [b div 16, b mod 16]) str) @ [16]"

definition hexToKeybytes :: "bytes \<Rightarrow> bytes option" where
  "hexToKeybytes hex =
     (let hex1 = (if hasTerm hex then take (length hex - 1) hex else hex)
      in if odd (length hex1) then None
         else decodeNibbles hex1 (replicate (length hex1 div 2) 0))"

definition hexToCompact :: "bytes \<Rightarrow> bytes option" where
  "hexToCompact hex =
     (let terminator = (if hasTerm hex then 1 else 0 :: u8);
          hex1 = (if hasTerm hex then take (length hex - 1) hex else hex);
          flag = push_bit 5 terminator
      in if odd (length hex1)
         then map_option (\<lambda>r. (flag OR push_bit 4 1 OR hex1 ! 0) # r)
                (decodeNibbles (drop 1 hex1) (replicate (length hex1 div 2) 0))
         else map_option (\<lambda>r. flag # r) (decodeNibbles hex1 (replicate (length hex1 div 2) 0)))"

definition compactToHex :: "bytes \<Rightarrow> bytes" where
  "compactToHex compact =
     (if length compact = 0 then compact
      else
        let base = keybytesToHex compact;
            base1 = (if base ! 0 < 2 then take (length base - 1) base else base);
            chop = 2 - unat (base1 ! 0 AND 1)
        in drop chop base1)"

text \<open>The length of the common prefix.\<close>

fun prefixLen :: "bytes \<Rightarrow> bytes \<Rightarrow> nat" where
  "prefixLen (a # as) (b # bs) = (if a \<noteq> b then 0 else Suc (prefixLen as bs))"
| "prefixLen _ _ = 0"

section \<open>Nibbles\<close>

definition nibbles :: "bytes \<Rightarrow> bool" where
  "nibbles ns \<longleftrightarrow> list_all (\<lambda>n. n < 16) ns"

lemma nibbles_simps [simp]:
  "nibbles []" "nibbles (n # ns) \<longleftrightarrow> n < 16 \<and> nibbles ns" "nibbles (xs @ ys) \<longleftrightarrow> nibbles xs \<and> nibbles ys"
  by (auto simp: nibbles_def)

lemma unat_nibbles:
  assumes "a < 16" "b < (16 :: byte)"
  shows "unat (push_bit 4 a OR b) = 16 * unat a + unat b"
proof -
  have lt: "unat a < 16" "unat b < 16" using assms by (simp_all add: word_less_nat_alt)
  have "push_bit 4 (unat a) OR unat b = push_bit 4 (unat a) + unat b"
  proof (rule disjunctive_add_eq_or [symmetric], rule bit_eqI)
    fix n
    have "take_bit 4 (unat b) = unat b" using lt(2) by (simp add: take_bit_eq_mod)
    then have "bit (unat b) n \<Longrightarrow> n < 4" using bit_take_bit_iff [of 4 "unat b" n] by simp
    then show "bit (push_bit 4 (unat a) AND unat b) n \<longleftrightarrow> bit (0 :: nat) n"
      by (auto simp: bit_and_iff bit_push_bit_iff)
  qed
  moreover have "unat (push_bit 4 a) = push_bit 4 (unat a)"
    unfolding unsigned_push_bit_eq using lt by (simp add: take_bit_eq_mod push_bit_eq_mult)
  ultimately show ?thesis by (simp add: unsigned_or_eq push_bit_eq_mult)
qed

lemma nibbles_div_mod:
  assumes "a < 16" "b < (16 :: byte)"
  shows "(push_bit 4 a OR b) div 16 = a" "(push_bit 4 a OR b) mod 16 = b"
  using unat_nibbles [OF assms] assms by (simp_all add: word_unat_eq_iff unat_div unat_mod word_less_nat_alt)

lemma byte_split:
  fixes b :: byte
  shows "b div 16 < 16" "b mod 16 < 16" "push_bit 4 (b div 16) OR (b mod 16) = b"
proof -
  show lt: "b div 16 < 16" "b mod 16 < 16"
    using unat_byte_bound [of b] by (simp_all add: word_less_nat_alt unat_div unat_mod less_mult_imp_div_less)
  show "push_bit 4 (b div 16) OR (b mod 16) = b"
    using unat_nibbles [OF lt] by (simp add: word_unat_eq_iff unat_div unat_mod)
qed

abbreviation split_bytes :: "bytes \<Rightarrow> bytes" where
  "split_bytes bs \<equiv> concat (map (\<lambda>b. [b div 16, b mod 16]) bs)"

lemma length_split_bytes [simp]: "length (split_bytes bs) = 2 * length bs"
  by (induction bs) auto

lemma nibbles_split_bytes [simp]: "nibbles (split_bytes bs)"
  by (induction bs) (auto simp: byte_split)

lemma decodeNibbles_split: "length dst = length bs \<Longrightarrow> decodeNibbles (split_bytes bs) dst = Some bs"
  by (induction bs dst rule: list_induct2') (auto simp: byte_split)

lemma decodeNibbles_back:
  "nibbles ns \<Longrightarrow> length ns = 2 * length dst \<Longrightarrow> \<exists>r. decodeNibbles ns dst = Some r \<and> split_bytes r = ns"
  by (induction ns dst rule: decodeNibbles.induct) (auto simp: nibbles_div_mod)

lemma hasTerm_simps [simp]: "hasTerm (xs @ [16])" "\<not> hasTerm []"
  by (simp_all add: hasTerm_def)

lemma hasTerm_nibbles [simp]: "nibbles ns \<Longrightarrow> \<not> hasTerm ns"
  by (cases ns rule: rev_cases) (auto simp: hasTerm_def)

text \<open>Keys as the trie uses them: nibbles followed by the terminator.\<close>

definition term_key :: "bytes \<Rightarrow> bool" where
  "term_key k \<longleftrightarrow> (\<exists>ns. k = ns @ [16] \<and> nibbles ns)"

lemma term_key_hex [simp]: "term_key (keybytesToHex b)"
  by (auto simp: term_key_def keybytesToHex_def)

lemma hexToKeybytes_hex: "hexToKeybytes (keybytesToHex b) = Some b"
  by (simp add: hexToKeybytes_def keybytesToHex_def decodeNibbles_split)

lemma keybytesToHex_inj [simp]: "keybytesToHex a = keybytesToHex b \<longleftrightarrow> a = b"
  using hexToKeybytes_hex by (metis option.inject)

section \<open>The compact form\<close>

lemma compact_flags:
  "(push_bit 5 1 :: byte) = 32" "(push_bit 4 1 :: byte) = 16" "(32 :: byte) OR 16 = 48"
  by (simp_all add: push_bit_eq_mult)

lemma flag_or:
  assumes "n < (16 :: byte)"
  shows "((16 :: byte) OR n) div 16 = 1" "((16 :: byte) OR n) mod 16 = n" "((48 :: byte) OR n) div 16 = 3" "((48 :: byte) OR n) mod 16 = n"
  using nibbles_div_mod [of 1 n] nibbles_div_mod [of 3 n] assms by (simp_all add: push_bit_eq_mult)

lemma compactToHex_Cons:
  "compactToHex (f # r) = drop (2 - unat (f div 16 AND 1)) ((f div 16) # (f mod 16) # split_bytes r @ (if f div 16 < 2 then [] else [16]))"
  by (simp add: compactToHex_def keybytesToHex_def Let_def)

lemma hexToCompact_even:
  assumes "nibbles ns" "t = [] \<or> t = [16]" "even (length ns)"
  obtains r where "hexToCompact (ns @ t) = Some ((if t = [] then 0 else 32) # r)" "split_bytes r = ns"
proof -
  obtain r where "decodeNibbles ns (replicate (length ns div 2) 0) = Some r" "split_bytes r = ns"
    using decodeNibbles_back [of ns "replicate (length ns div 2) 0"] assms(1,3) by auto
  then show thesis using that assms by (auto simp: hexToCompact_def Let_def compact_flags)
qed

lemma hexToCompact_odd:
  assumes "nibbles (n # ns)" "t = [] \<or> t = [16]" "even (length ns)"
  obtains r where "hexToCompact ((n # ns) @ t) = Some (((if t = [] then 16 else 48) OR n) # r)" "split_bytes r = ns"
proof -
  obtain r where "decodeNibbles ns (replicate (length ns div 2) 0) = Some r" "split_bytes r = ns"
    using decodeNibbles_back [of ns "replicate (length ns div 2) 0"] assms(1,3) by auto
  then show thesis using that assms hasTerm_nibbles [OF assms(1)]
    by (auto simp: hexToCompact_def Let_def compact_flags hasTerm_def or.assoc [symmetric] nth_append)
qed

lemma compact_of:
  assumes "nibbles ns" "t = [] \<or> t = [16]"
  obtains c where "hexToCompact (ns @ t) = Some c" "compactToHex c = ns @ t"
proof (cases "even (length ns)")
  case True
  then obtain r where "hexToCompact (ns @ t) = Some ((if t = [] then 0 else 32) # r)" "split_bytes r = ns"
    using hexToCompact_even [OF assms] by blast
  then show thesis using that assms(2) by (auto simp: compactToHex_Cons)
next
  case False
  then obtain n ns' where ns: "ns = n # ns'" "even (length ns')" by (cases ns) auto
  then obtain r where "hexToCompact (ns @ t) = Some (((if t = [] then 16 else 48) OR n) # r)" "split_bytes r = ns'"
    using hexToCompact_odd [of n ns' t] assms by blast
  moreover have "n < 16" using assms(1) ns by simp
  ultimately show thesis using that assms(2) ns flag_or [of n] by (auto simp: compactToHex_Cons)
qed

text \<open>
  Claim C36. The compact encoding of a trie key decodes to the same key, with or without the terminator and for an even and
  an odd number of nibbles; the encoder does not panic on it.
\<close>

theorem compact_roundtrip:
  assumes "nibbles ns" "t = [] \<or> t = [16]"
  shows "\<exists>c. hexToCompact (ns @ t) = Some c \<and> compactToHex c = ns @ t"
  using compact_of [OF assms] by blast

theorem compact_roundtrip_witness:
  "\<exists>c. hexToCompact [1, 2, 3, 16] = Some c \<and> compactToHex c = [1, 2, 3, 16]"
  using compact_roundtrip [of "[1, 2, 3]" "[16]"] by simp

end
