(* ===== verification/TrieOps.thy ===== *)
theory TrieOps
  imports TrieKey
begin

text \<open>
  The operations of the Merkle Patricia trie (\<open>trie/trie.go\<close>): lookup, insertion and deletion on a tree whose
  subtrees may still be hashes that are loaded from the database on the way. The database is a function from
  hashes to nodes. The recursion goes through the database, so the functions have a fuel argument; a key of \<open>n\<close> nibbles
  needs at most \<open>2 * n + 2\<close> calls, which the operations of the trie provide. \<open>None\<close> stands for a panic, or for running out of fuel.
\<close>

section \<open>Nodes\<close>

record nodeFlag =
  nf_hash :: "bytes option"
  nf_dirty :: bool

datatype trie_node =
    NilNode
  | FullNode "trie_node list" nodeFlag
  | ShortNode bytes trie_node nodeFlag
  | HashNode bytes
  | ValueNode bytes

datatype trie_error = MissingNodeError bytes bytes

type_synonym node_db = "bytes \<Rightarrow> trie_node option"

definition newFlag :: nodeFlag where
  "newFlag = \<lparr>nf_hash = None, nf_dirty = True\<rparr>"

text \<open>\<open>BytesToHash\<close> crops from the left and pads on the left to 32 bytes.\<close>

definition BytesToHash :: "bytes \<Rightarrow> bytes" where
  "BytesToHash b =
     (let b1 = (if 32 < length b then drop (length b - 32) b else b)
      in replicate (32 - length b1) 0 @ b1)"

definition resolveHash :: "node_db \<Rightarrow> bytes \<Rightarrow> bytes \<Rightarrow> trie_error + trie_node" where
  "resolveHash db n pre =
     (let hash = BytesToHash n
      in case db hash of Some node \<Rightarrow> Inr node | None \<Rightarrow> Inl (MissingNodeError hash pre))"

definition resolve :: "node_db \<Rightarrow> trie_node \<Rightarrow> bytes \<Rightarrow> trie_error + trie_node" where
  "resolve db n pre = (case n of HashNode h \<Rightarrow> resolveHash db h pre | _ \<Rightarrow> Inr n)"

section \<open>Lookup\<close>

fun tryGet :: "nat \<Rightarrow> node_db \<Rightarrow> trie_node \<Rightarrow> bytes \<Rightarrow> nat \<Rightarrow> (bytes option \<times> trie_node \<times> bool \<times> trie_error option) option" where
  "tryGet 0 db n key pos = None"
| "tryGet (Suc f) db NilNode key pos = Some (None, NilNode, False, None)"
| "tryGet (Suc f) db (ValueNode v) key pos = Some (Some v, ValueNode v, False, None)"
| "tryGet (Suc f) db (ShortNode nk val fl) key pos =
     (if length key - pos < length nk \<or> nk \<noteq> slice key pos (pos + length nk)
      then Some (None, ShortNode nk val fl, False, None)
      else
        case tryGet f db val key (pos + length nk) of
          None \<Rightarrow> None
        | Some (value, newnode, didResolve, err) \<Rightarrow>
            Some (value, ShortNode nk (if err = None \<and> didResolve then newnode else val) fl, didResolve, err))"
| "tryGet (Suc f) db (FullNode cs fl) key pos =
     (if length key \<le> pos \<or> length cs \<le> unat (key ! pos) then None
      else
        case tryGet f db (cs ! unat (key ! pos)) key (pos + 1) of
          None \<Rightarrow> None
        | Some (value, newnode, didResolve, err) \<Rightarrow>
            Some (value, FullNode (if err = None \<and> didResolve then cs[unat (key ! pos) := newnode] else cs) fl, didResolve, err))"
| "tryGet (Suc f) db (HashNode h) key pos =
     (case resolveHash db h (take pos key) of
        Inl e \<Rightarrow> Some (None, HashNode h, True, Some e)
      | Inr child \<Rightarrow>
          (case tryGet f db child key pos of
             None \<Rightarrow> None
           | Some (value, newnode, _, err) \<Rightarrow> Some (value, newnode, True, err)))"

section \<open>Insertion\<close>

text \<open>
  The result is an error, or whether the node changed and the new node. A value below a key that goes on, a child index above
  16 and a value that is not a value node where one is replaced are the panics of the code.
\<close>

fun trie_insert :: "nat \<Rightarrow> node_db \<Rightarrow> trie_node \<Rightarrow> bytes \<Rightarrow> bytes \<Rightarrow> trie_node \<Rightarrow> (trie_error + bool \<times> trie_node) option" where
  "trie_insert 0 db n pre key value = None"
| "trie_insert (Suc f) db n pre [] value =
     (case n of
        ValueNode v \<Rightarrow> (case value of ValueNode w \<Rightarrow> Some (Inr (v \<noteq> w, value)) | _ \<Rightarrow> None)
      | _ \<Rightarrow> Some (Inr (True, value)))"
| "trie_insert (Suc f) db (ShortNode nk val fl) pre (k # ks) value =
     (let key = k # ks; matchlen = prefixLen key nk
      in if matchlen = length nk then
           (case trie_insert f db val (pre @ take matchlen key) (drop matchlen key) value of
              None \<Rightarrow> None
            | Some (Inl e) \<Rightarrow> Some (Inl e)
            | Some (Inr (dirty, nn)) \<Rightarrow>
                Some (Inr (if dirty then (True, ShortNode nk nn newFlag) else (False, ShortNode nk val fl))))
         else if length key \<le> matchlen \<or> 17 \<le> unat (nk ! matchlen) \<or> 17 \<le> unat (key ! matchlen) then None
         else
           (case trie_insert f db NilNode (pre @ take (matchlen + 1) nk) (drop (matchlen + 1) nk) val of
              None \<Rightarrow> None
            | Some (Inl e) \<Rightarrow> Some (Inl e)
            | Some (Inr (_, a)) \<Rightarrow>
                (case trie_insert f db NilNode (pre @ take (matchlen + 1) key) (drop (matchlen + 1) key) value of
                   None \<Rightarrow> None
                 | Some (Inl e) \<Rightarrow> Some (Inl e)
                 | Some (Inr (_, b)) \<Rightarrow>
                     (let branch = FullNode ((replicate 17 NilNode)[unat (nk ! matchlen) := a, unat (key ! matchlen) := b]) newFlag
                      in Some (Inr (True, if matchlen = 0 then branch else ShortNode (take matchlen key) branch newFlag))))))"
| "trie_insert (Suc f) db (FullNode cs fl) pre (k # ks) value =
     (if length cs \<le> unat k then None
      else
        case trie_insert f db (cs ! unat k) (pre @ [k]) ks value of
          None \<Rightarrow> None
        | Some (Inl e) \<Rightarrow> Some (Inl e)
        | Some (Inr (dirty, nn)) \<Rightarrow>
            Some (Inr (if dirty then (True, FullNode (cs[unat k := nn]) newFlag) else (False, FullNode cs fl))))"
| "trie_insert (Suc f) db NilNode pre (k # ks) value = Some (Inr (True, ShortNode (k # ks) value newFlag))"
| "trie_insert (Suc f) db (HashNode h) pre (k # ks) value =
     (case resolveHash db h pre of
        Inl e \<Rightarrow> Some (Inl e)
      | Inr rn \<Rightarrow>
          (case trie_insert f db rn pre (k # ks) value of
             None \<Rightarrow> None
           | Some (Inl e) \<Rightarrow> Some (Inl e)
           | Some (Inr (dirty, nn)) \<Rightarrow> Some (Inr (if dirty then (True, nn) else (False, rn)))))"
| "trie_insert (Suc f) db (ValueNode v) pre (k # ks) value = None"

section \<open>Deletion\<close>

text \<open>The loop that looks for a single child: its index, \<open>-1\<close> for none and \<open>-2\<close> for more than one.\<close>

fun child_pos :: "nat \<Rightarrow> trie_node list \<Rightarrow> int \<Rightarrow> int" where
  "child_pos i [] pos = pos"
| "child_pos i (cld # cs) pos =
     (if cld \<noteq> NilNode then (if pos = -1 then child_pos (i + 1) cs (int i) else -2)
      else child_pos (i + 1) cs pos)"

definition reduce_full :: "node_db \<Rightarrow> trie_node list \<Rightarrow> bytes \<Rightarrow> trie_error + bool \<times> trie_node" where
  "reduce_full db cs pre =
     (let pos = child_pos 0 cs (-1)
      in if 0 \<le> pos then
           (let short = ShortNode [word_of_int pos] (cs ! nat pos) newFlag
            in if pos \<noteq> 16 then
                 (case resolve db (cs ! nat pos) pre of
                    Inl e \<Rightarrow> Inl e
                  | Inr (ShortNode ck cv _) \<Rightarrow> Inr (True, ShortNode (word_of_int pos # ck) cv newFlag)
                  | Inr _ \<Rightarrow> Inr (True, short))
               else Inr (True, short))
         else Inr (True, FullNode cs newFlag))"

fun trie_delete :: "nat \<Rightarrow> node_db \<Rightarrow> trie_node \<Rightarrow> bytes \<Rightarrow> bytes \<Rightarrow> (trie_error + bool \<times> trie_node) option" where
  "trie_delete 0 db n pre key = None"
| "trie_delete (Suc f) db (ShortNode nk val fl) pre key =
     (let matchlen = prefixLen key nk
      in if matchlen < length nk then Some (Inr (False, ShortNode nk val fl))
         else if matchlen = length key then Some (Inr (True, NilNode))
         else
           case trie_delete f db val (pre @ take (length nk) key) (drop (length nk) key) of
             None \<Rightarrow> None
           | Some (Inl e) \<Rightarrow> Some (Inl e)
           | Some (Inr (dirty, child)) \<Rightarrow>
               if \<not> dirty then Some (Inr (False, ShortNode nk val fl))
               else
                 (case child of
                    ShortNode ck cv _ \<Rightarrow> Some (Inr (True, ShortNode (nk @ ck) cv newFlag))
                  | _ \<Rightarrow> Some (Inr (True, ShortNode nk child newFlag))))"
| "trie_delete (Suc f) db (FullNode cs fl) pre key =
     (case key of
        [] \<Rightarrow> None
      | k # ks \<Rightarrow>
          if length cs \<le> unat k then None
          else
            (case trie_delete f db (cs ! unat k) (pre @ [k]) ks of
               None \<Rightarrow> None
             | Some (Inl e) \<Rightarrow> Some (Inl e)
             | Some (Inr (dirty, nn)) \<Rightarrow>
                 if \<not> dirty then Some (Inr (False, FullNode cs fl))
                 else Some (reduce_full db (cs[unat k := nn]) pre)))"
| "trie_delete (Suc f) db (ValueNode v) pre key = Some (Inr (True, NilNode))"
| "trie_delete (Suc f) db NilNode pre key = Some (Inr (False, NilNode))"
| "trie_delete (Suc f) db (HashNode h) pre key =
     (case resolveHash db h pre of
        Inl e \<Rightarrow> Some (Inl e)
      | Inr rn \<Rightarrow>
          (case trie_delete f db rn pre key of
             None \<Rightarrow> None
           | Some (Inl e) \<Rightarrow> Some (Inl e)
           | Some (Inr (dirty, nn)) \<Rightarrow> Some (Inr (if dirty then (True, nn) else (False, rn)))))"

section \<open>The trie\<close>

record Trie =
  t_root :: trie_node
  t_unhashed :: nat

definition emptyRoot :: bytes where
  "emptyRoot = [0x56, 0xE8, 0x1F, 0x17, 0x1B, 0xCC, 0x55, 0xA6, 0xFF, 0x83, 0x45, 0xE6, 0x92, 0xC0, 0xF8, 0x6E, 0x5B, 0x48, 0xE0, 0x1B, 0x99, 0x6C, 0xAD, 0xC0, 0x01, 0x62, 0x2F, 0xB5, 0xE3, 0x63, 0xB4, 0x21]"

definition New :: "node_db \<Rightarrow> bytes \<Rightarrow> trie_error + Trie" where
  "New db root =
     (if root \<noteq> replicate 32 0 \<and> root \<noteq> emptyRoot then
        (case resolveHash db root [] of
           Inl e \<Rightarrow> Inl e
         | Inr rootnode \<Rightarrow> Inr \<lparr>t_root = rootnode, t_unhashed = 0\<rparr>)
      else Inr \<lparr>t_root = NilNode, t_unhashed = 0\<rparr>)"

definition trie_fuel :: "bytes \<Rightarrow> nat" where
  "trie_fuel k = 2 * length k + 2"

definition TryGet :: "node_db \<Rightarrow> bytes \<Rightarrow> Trie \<Rightarrow> ((bytes option \<times> trie_error option) \<times> Trie) option" where
  "TryGet db key0 t =
     (let key = keybytesToHex key0
      in case tryGet (trie_fuel key) db (t_root t) key 0 of
           None \<Rightarrow> None
         | Some (value, newroot, didResolve, err) \<Rightarrow>
             Some ((value, err), if err = None \<and> didResolve then t\<lparr>t_root := newroot\<rparr> else t))"

definition TryUpdate :: "node_db \<Rightarrow> bytes \<Rightarrow> bytes \<Rightarrow> Trie \<Rightarrow> (trie_error option \<times> Trie) option" where
  "TryUpdate db key value t =
     (let t1 = t\<lparr>t_unhashed := t_unhashed t + 1\<rparr>; k = keybytesToHex key
      in case (if length value \<noteq> 0 then trie_insert (trie_fuel k) db (t_root t1) [] k (ValueNode value)
               else trie_delete (trie_fuel k) db (t_root t1) [] k) of
           None \<Rightarrow> None
         | Some (Inl e) \<Rightarrow> Some (Some e, t1)
         | Some (Inr (_, n)) \<Rightarrow> Some (None, t1\<lparr>t_root := n\<rparr>))"

definition TryDelete :: "node_db \<Rightarrow> bytes \<Rightarrow> Trie \<Rightarrow> (trie_error option \<times> Trie) option" where
  "TryDelete db key t =
     (let t1 = t\<lparr>t_unhashed := t_unhashed t + 1\<rparr>; k = keybytesToHex key
      in case trie_delete (trie_fuel k) db (t_root t1) [] k of
           None \<Rightarrow> None
         | Some (Inl e) \<Rightarrow> Some (Some e, t1)
         | Some (Inr (_, n)) \<Rightarrow> Some (None, t1\<lparr>t_root := n\<rparr>))"

text \<open>The variants without an error result log the error and go on.\<close>

definition Get :: "node_db \<Rightarrow> bytes \<Rightarrow> Trie \<Rightarrow> (bytes option \<times> Trie) option" where
  "Get db key t = (case TryGet db key t of None \<Rightarrow> None | Some ((res, _), t') \<Rightarrow> Some (res, t'))"

definition Update :: "node_db \<Rightarrow> bytes \<Rightarrow> bytes \<Rightarrow> Trie \<Rightarrow> Trie option" where
  "Update db key value t = map_option snd (TryUpdate db key value t)"

definition Delete :: "node_db \<Rightarrow> bytes \<Rightarrow> Trie \<Rightarrow> Trie option" where
  "Delete db key t = map_option snd (TryDelete db key t)"

end
