(* ===== verification/TrieMap.thy ===== *)
theory TrieMap
  imports TrieOps
begin

text \<open>
  The trie is a finite map. \<open>holds\<close> says which value a node has under a key, looking through hashes that are still in the
  database; \<open>wf_node\<close> is the invariant of the tree: no empty or chained short nodes, branches with at least two entries, values only below
  the terminator. Lookup finds what the trie holds, insertion and deletion change one key, and all of them keep the invariant.
\<close>

section \<open>Content and invariant\<close>

inductive holds :: "node_db \<Rightarrow> trie_node \<Rightarrow> bytes \<Rightarrow> bytes \<Rightarrow> bool" for db where
  value_holds: "holds db (ValueNode v) [] v"
| short_holds: "holds db val k v \<Longrightarrow> holds db (ShortNode nk val fl) (nk @ k) v"
| full_holds: "unat c < length cs \<Longrightarrow> holds db (cs ! unat c) k v \<Longrightarrow> holds db (FullNode cs fl) (c # k) v"
| hash_holds: "db (BytesToHash h) = Some n \<Longrightarrow> holds db n k v \<Longrightarrow> holds db (HashNode h) k v"

inductive_simps holds_Nil [simp]: "holds db NilNode k v"
inductive_simps holds_Value [simp]: "holds db (ValueNode w) k v"
inductive_simps holds_Short: "holds db (ShortNode nk val fl) k v"
inductive_simps holds_Full: "holds db (FullNode cs fl) k v"
inductive_simps holds_Hash: "holds db (HashNode h) k v"

text \<open>The hashes that a node refers to.\<close>

inductive refers :: "node_db \<Rightarrow> trie_node \<Rightarrow> bytes \<Rightarrow> bool" for db where
  "refers db (HashNode h) (BytesToHash h)"
| "db (BytesToHash h) = Some n \<Longrightarrow> refers db n h' \<Longrightarrow> refers db (HashNode h) h'"
| "refers db val h' \<Longrightarrow> refers db (ShortNode nk val fl) h'"
| "i < length cs \<Longrightarrow> refers db (cs ! i) h' \<Longrightarrow> refers db (FullNode cs fl) h'"

definition missing :: "node_db \<Rightarrow> trie_node \<Rightarrow> trie_error \<Rightarrow> bool" where
  "missing db n e \<longleftrightarrow> (\<exists>h p. e = MissingNodeError h p \<and> refers db n h \<and> db h = None)"

fun is_full :: "trie_node \<Rightarrow> bool" where
  "is_full (FullNode _ _) = True"
| "is_full _ = False"

fun is_hash :: "trie_node \<Rightarrow> bool" where
  "is_hash (HashNode _) = True"
| "is_hash _ = False"

text \<open>A branch, loaded or not.\<close>

fun branch :: "node_db \<Rightarrow> trie_node \<Rightarrow> bool" where
  "branch db (FullNode _ _) = True"
| "branch db (HashNode h) = (case db (BytesToHash h) of None \<Rightarrow> True | Some n \<Rightarrow> is_full n)"
| "branch db _ = False"

inductive wf_node :: "node_db \<Rightarrow> trie_node \<Rightarrow> bool" for db where
  leaf: "nibbles ns \<Longrightarrow> v \<noteq> [] \<Longrightarrow> wf_node db (ShortNode (ns @ [16]) (ValueNode v) fl)"
| ext: "nibbles ns \<Longrightarrow> ns \<noteq> [] \<Longrightarrow> wf_node db c \<Longrightarrow> branch db c \<Longrightarrow> wf_node db (ShortNode ns c fl)"
| full: "length cs = 17 \<Longrightarrow> \<forall>i<16. cs ! i = NilNode \<or> wf_node db (cs ! i) \<Longrightarrow>
    cs ! 16 = NilNode \<or> (\<exists>v. v \<noteq> [] \<and> cs ! 16 = ValueNode v) \<Longrightarrow>
    i < 17 \<Longrightarrow> j < 17 \<Longrightarrow> i \<noteq> j \<Longrightarrow> cs ! i \<noteq> NilNode \<Longrightarrow> cs ! j \<noteq> NilNode \<Longrightarrow> wf_node db (FullNode cs fl)"
| absent: "db (BytesToHash h) = None \<Longrightarrow> wf_node db (HashNode h)"
| stored: "db (BytesToHash h) = Some n \<Longrightarrow> \<not> is_hash n \<Longrightarrow> wf_node db n \<Longrightarrow> wf_node db (HashNode h)"

inductive_simps wf_Nil [simp]: "wf_node db NilNode"
inductive_simps wf_Value [simp]: "wf_node db (ValueNode v)"
inductive_simps wf_Short: "wf_node db (ShortNode nk c fl)"
inductive_simps wf_Full: "wf_node db (FullNode cs fl)"
inductive_simps wf_Hash: "wf_node db (HashNode h)"

text \<open>A node at a place where the remaining key is \<open>k\<close>: below the terminator a value, elsewhere an inner node, or nothing.\<close>

definition fits :: "node_db \<Rightarrow> trie_node \<Rightarrow> bytes \<Rightarrow> bool" where
  "fits db n k \<longleftrightarrow> n = NilNode \<and> (k = [] \<or> term_key k) \<or> k = [] \<and> (\<exists>v. v \<noteq> [] \<and> n = ValueNode v) \<or> term_key k \<and> wf_node db n"

section \<open>Keys\<close>

lemma term_key_Nil [simp]: "\<not> term_key []"
  by (simp add: term_key_def)

lemma term_key_Cons: "term_key (c # k) \<longleftrightarrow> (c = 16 \<and> k = []) \<or> (c < 16 \<and> term_key k)"
proof
  assume "term_key (c # k)"
  then obtain ns where ns: "c # k = ns @ [16]" "nibbles ns" by (auto simp: term_key_def)
  then show "(c = 16 \<and> k = []) \<or> (c < 16 \<and> term_key k)" by (cases ns) (auto simp: term_key_def)
next
  assume "(c = 16 \<and> k = []) \<or> (c < 16 \<and> term_key k)"
  then show "term_key (c # k)"
  proof
    assume "c = 16 \<and> k = []"
    then show ?thesis by (auto simp: term_key_def intro: exI [of _ "[]"])
  next
    assume c: "c < 16 \<and> term_key k"
    then obtain ns where "k = ns @ [16]" "nibbles ns" by (auto simp: term_key_def)
    then show ?thesis using c by (auto simp: term_key_def intro: exI [of _ "c # ns"])
  qed
qed

lemma term_key_append: "nibbles ns \<Longrightarrow> term_key (ns @ k) \<longleftrightarrow> term_key k"
  by (induction ns) (auto simp: term_key_Cons)

lemma term_key_prefix: "term_key (p @ k) \<Longrightarrow> k \<noteq> [] \<Longrightarrow> nibbles p \<and> term_key k"
  by (induction p) (auto simp: term_key_Cons)

lemma term_key_leaf: "term_key (ns @ [16] @ k) \<Longrightarrow> nibbles ns \<Longrightarrow> k = []"
  by (induction ns) (auto simp: term_key_Cons)

lemma term_not_nibbles: "term_key k \<Longrightarrow> \<not> nibbles k"
  by (auto simp: term_key_def)

lemma short_no_prefix:
  assumes "wf_node db (ShortNode (k @ x # nk) c fl)"
  shows "\<not> term_key k"
proof -
  have "nibbles k" using assms term_key_prefix [of k "x # nk"] by (auto simp: wf_Short term_key_def)
  then show ?thesis using term_not_nibbles by blast
qed

lemma prefixLen_take: "take (prefixLen a b) a = take (prefixLen a b) b"
  by (induction a b rule: prefixLen.induct) auto

lemma prefixLen_le: "prefixLen a b \<le> length a" "prefixLen a b \<le> length b"
  by (induction a b rule: prefixLen.induct) auto

text \<open>Two keys: the second one is a prefix of the first, the other way round, or they differ somewhere.\<close>

lemma prefixLen_cases:
  obtains (whole) k' where "k = nk @ k'" "prefixLen k nk = length nk"
  | (short) x nk' where "nk = k @ x # nk'" "prefixLen k nk = length k"
  | (differ) p a ra b rb where "nk = p @ a # ra" "k = p @ b # rb" "a \<noteq> b" "prefixLen k nk = length p"
proof (induction k arbitrary: nk)
  case Nil
  then show ?case by (cases nk) auto
next
  case (Cons a as)
  show ?case
  proof (cases nk)
    case Nil
    then show ?thesis using Cons.prems(1) by simp
  next
    case nk: (Cons b bs)
    show ?thesis
    proof (cases "a = b")
      case False
      then show ?thesis using Cons.prems(3) [of "[]" b bs a as] nk by simp
    next
      case True
      show ?thesis
      proof (rule Cons.IH [of bs])
        fix k' assume "as = bs @ k'" "prefixLen as bs = length bs"
        then show ?thesis using Cons.prems(1) [of k'] True nk by simp
      next
        fix x nk' assume "bs = as @ x # nk'" "prefixLen as bs = length as"
        then show ?thesis using Cons.prems(2) [of x nk'] True nk by simp
      next
        fix p c rc d rd assume "bs = p @ c # rc" "as = p @ d # rd" "c \<noteq> d" "prefixLen as bs = length p"
        then show ?thesis using Cons.prems(3) [of "b # p" c rc d rd] True nk by simp
      qed
    qed
  qed
qed

lemma nibble_index: "(c :: byte) < 16 \<Longrightarrow> unat c < 16"
  by (simp add: word_less_nat_alt)

lemma term_index: "term_key (c # k) \<Longrightarrow> unat c < 17"
  by (auto simp: term_key_Cons word_less_nat_alt)

section \<open>The invariant, unfolded\<close>

lemma fits_Nil [simp]: "fits db NilNode k \<longleftrightarrow> k = [] \<or> term_key k"
  by (auto simp: fits_def)

lemma fits_Value [simp]: "fits db (ValueNode v) k \<longleftrightarrow> k = [] \<and> v \<noteq> []"
  by (auto simp: fits_def)

lemma fits_Short: "fits db (ShortNode nk c fl) k \<longleftrightarrow> term_key k \<and> wf_node db (ShortNode nk c fl)"
  by (auto simp: fits_def)

lemma fits_Full: "fits db (FullNode cs fl) k \<longleftrightarrow> term_key k \<and> wf_node db (FullNode cs fl)"
  by (auto simp: fits_def)

lemma fits_Hash: "fits db (HashNode h) k \<longleftrightarrow> term_key k \<and> wf_node db (HashNode h)"
  by (auto simp: fits_def)

lemma fits_Full_child:
  assumes "wf_node db (FullNode cs fl)" "term_key (c # k)"
  shows "unat c < length cs \<and> fits db (cs ! unat c) k"
proof -
  have cs: "length cs = 17" "\<forall>i<16. cs ! i = NilNode \<or> wf_node db (cs ! i)"
    "cs ! 16 = NilNode \<or> (\<exists>v. v \<noteq> [] \<and> cs ! 16 = ValueNode v)"
    using assms(1) by (auto simp: wf_Full)
  consider "c = 16" "k = []" | "c < 16" "term_key k" using assms(2) by (auto simp: term_key_Cons)
  then show ?thesis
  proof cases
    case 1
    then show ?thesis using cs by (auto simp: fits_def)
  next
    case 2
    then show ?thesis using cs nibble_index [of c] by (auto simp: fits_def)
  qed
qed

lemma fits_Short_child:
  assumes "wf_node db (ShortNode nk c fl)" "term_key (nk @ k)"
  shows "fits db c k \<and> nk \<noteq> []"
  using assms by (auto simp: wf_Short fits_def term_key_append term_key_Cons)

lemma hash_loaded:
  assumes "fits db (HashNode h) k" "db (BytesToHash h) = Some n"
  shows "fits db n k \<and> \<not> is_hash n \<and> n \<noteq> NilNode \<and> (branch db (HashNode h) \<longrightarrow> is_full n)"
  using assms by (auto simp: fits_Hash wf_Hash fits_def)

lemma holds_fun: "holds db n k v \<Longrightarrow> holds db n k w \<Longrightarrow> v = w"
  by (induction arbitrary: w rule: holds.induct) (auto simp: holds_Short holds_Full holds_Hash)

lemma holds_key: "holds db n k v \<Longrightarrow> wf_node db n \<Longrightarrow> term_key k"
proof (induction rule: holds.induct)
  case (short_holds val k v nk fl)
  then show ?case by (auto simp: wf_Short term_key_append term_key_Cons)
next
  case (full_holds c cs k v fl)
  then have cs: "length cs = 17" "\<forall>i<16. cs ! i = NilNode \<or> wf_node db (cs ! i)"
    "cs ! 16 = NilNode \<or> (\<exists>v. v \<noteq> [] \<and> cs ! 16 = ValueNode v)"
    by (auto simp: wf_Full)
  show ?case
  proof (cases "unat c < 16")
    case True
    then have "wf_node db (cs ! unat c)" using cs(2) full_holds.hyps(2) by force
    then show ?thesis using full_holds.IH True by (simp add: term_key_Cons word_less_nat_alt)
  next
    case False
    then have "unat c = 16" using cs(1) full_holds.hyps(1) by simp
    then have "c = 16" "k = []" using cs(3) full_holds.hyps(2) by (auto simp: word_unat_eq_iff)
    then show ?thesis by (simp add: term_key_Cons)
  qed
qed (auto simp: wf_Hash)

section \<open>Lookup\<close>

text \<open>A node and the same node with more of it loaded.\<close>

definition same :: "node_db \<Rightarrow> trie_node \<Rightarrow> trie_node \<Rightarrow> bool" where
  "same db n n' \<longleftrightarrow> (\<forall>k v. holds db n' k v \<longleftrightarrow> holds db n k v) \<and> (\<forall>h. refers db n' h \<longrightarrow> refers db n h) \<and>
     (n' = NilNode \<longleftrightarrow> n = NilNode) \<and> (wf_node db n \<longrightarrow> wf_node db n') \<and> (branch db n \<longrightarrow> branch db n') \<and>
     (\<forall>v. n = ValueNode v \<longleftrightarrow> n' = ValueNode v)"

lemma same_refl [simp]: "same db n n"
  by (simp add: same_def)

inductive_simps refers_Short: "refers db (ShortNode nk c fl) h"
inductive_simps refers_Full: "refers db (FullNode cs fl) h"
inductive_simps refers_Hash: "refers db (HashNode h') h"

lemma same_Short: "same db c c' \<Longrightarrow> same db (ShortNode nk c fl) (ShortNode nk c' fl')"
  by (auto simp: same_def holds_Short refers_Short wf_Short)

lemma same_Full:
  assumes "same db (cs ! i) c'" "i < length cs"
  shows "same db (FullNode cs fl) (FullNode (cs[i := c']) fl')"
proof -
  have h: "holds db (cs[i := c'] ! j) k v \<longleftrightarrow> holds db (cs ! j) k v" for j k v
    using assms by (cases "i = j") (simp_all add: same_def)
  have nil: "cs[i := c'] ! j = NilNode \<longleftrightarrow> cs ! j = NilNode" for j
    using assms by (cases "i = j") (auto simp: same_def)
  have val: "cs[i := c'] ! j = ValueNode v \<longleftrightarrow> cs ! j = ValueNode v" for j v
    using assms by (cases "i = j") (auto simp: same_def)
  have wf: "wf_node db (cs ! j) \<Longrightarrow> wf_node db (cs[i := c'] ! j)" for j
    using assms by (cases "i = j") (auto simp: same_def)
  have "refers db (cs[i := c'] ! j) h \<Longrightarrow> refers db (cs ! j) h" for j h
    using assms by (cases "i = j") (auto simp: same_def)
  then show ?thesis unfolding same_def holds_Full refers_Full wf_Full using h wf by (auto simp: nil val)
qed

lemma same_Hash:
  assumes "wf_node db (HashNode h)" "db (BytesToHash h) = Some n" "same db n n'"
  shows "same db (HashNode h) n'"
  using assms by (auto simp: same_def holds_Hash refers_Hash wf_Hash elim: is_full.elims)

lemma missing_Short: "missing db c e \<Longrightarrow> missing db (ShortNode nk c fl) e"
  by (auto simp: missing_def refers_Short)

lemma missing_Full: "missing db (cs ! i) e \<Longrightarrow> i < length cs \<Longrightarrow> missing db (FullNode cs fl) e"
  by (auto simp: missing_def refers_Full)

lemma missing_Hash: "missing db n e \<Longrightarrow> db (BytesToHash h) = Some n \<Longrightarrow> missing db (HashNode h) e"
  by (auto simp: missing_def refers_Hash)

lemma resolveHash_error: "resolveHash db h p = Inl e \<Longrightarrow> missing db (HashNode h) e"
  by (auto simp: resolveHash_def missing_def refers_Hash Let_def split: option.splits)

lemma resolveHash_Inr: "resolveHash db h p = Inr n \<longleftrightarrow> db (BytesToHash h) = Some n"
  by (auto simp: resolveHash_def Let_def split: option.splits)

definition got :: "node_db \<Rightarrow> trie_node \<Rightarrow> bytes \<Rightarrow> bytes option \<times> trie_node \<times> bool \<times> trie_error option \<Rightarrow> bool" where
  "got db n k = (\<lambda>(v, nn, res, err).
     case err of
       None \<Rightarrow> (\<forall>x. v = Some x \<longleftrightarrow> holds db n k x) \<and> same db n nn
     | Some e \<Rightarrow> missing db n e)"

lemma slice_drop: "slice key pos (pos + n) = take n (drop pos key)"
  by (simp add: slice_def)

lemma fuel_step:
  fixes L pos m f :: nat
  assumes "0 < m" "pos + m \<le> L" "2 * (L - pos) + 1 \<le> Suc f"
  shows "2 * (L - (pos + m)) + (if b then 2 else 1) \<le> f"
  using assms by (cases b) auto

lemma tryGet_ok:
  assumes "fits db n (drop pos key)" "pos \<le> length key" "2 * (length key - pos) + (if is_hash n then 2 else 1) \<le> f"
  shows "\<exists>r. tryGet f db n key pos = Some r \<and> got db n (drop pos key) r"
  using assms
proof (induction f db n key pos rule: tryGet.induct)
  case (1 db n key pos)
  then show ?case by (simp split: if_splits)
next
  case (2 f db key pos)
  then show ?case by (simp add: got_def)
next
  case (3 f db v key pos)
  then show ?case by (auto simp: got_def)
next
  case (4 f db nk val fl key pos)
  show ?case
  proof (cases "length key - pos < length nk \<or> nk \<noteq> slice key pos (pos + length nk)")
    case True
    moreover have "\<not> holds db (ShortNode nk val fl) (drop pos key) x" for x
    proof
      assume "holds db (ShortNode nk val fl) (drop pos key) x"
      then obtain k where k: "drop pos key = nk @ k" by (auto simp: holds_Short)
      then have "length key - pos = length nk + length k" by (metis length_append length_drop)
      moreover have "slice key pos (pos + length nk) = nk" using k by (simp add: slice_drop)
      ultimately show False using True by simp
    qed
    ultimately show ?thesis by (simp add: got_def)
  next
    case False
    then have eq: "drop pos key = nk @ drop (pos + length nk) key"
      using append_take_drop_id [of "length nk" "drop pos key"] by (simp add: slice_drop add.commute)
    have wf: "term_key (nk @ drop (pos + length nk) key)" "wf_node db (ShortNode nk val fl)"
      using "4.prems"(1) eq by (simp_all add: fits_Short)
    have "0 < length nk" "length nk \<le> length key - pos" using fits_Short_child [OF wf(2,1)] False by simp_all
    then have "pos + length nk \<le> length key" "2 * (length key - (pos + length nk)) + (if is_hash val then 2 else 1) \<le> f"
      using "4.prems"(2,3) fuel_step [of "length nk" pos "length key" f "is_hash val"] by simp_all
    then have "\<exists>r. tryGet f db val key (pos + length nk) = Some r \<and> got db val (drop (pos + length nk) key) r"
      using "4.IH" [OF False] fits_Short_child [OF wf(2,1)] by simp
    then obtain v nn res err where r: "tryGet f db val key (pos + length nk) = Some (v, nn, res, err)"
      "got db val (drop (pos + length nk) key) (v, nn, res, err)" by auto
    have "holds db (ShortNode nk val fl) (drop pos key) x \<longleftrightarrow> holds db val (drop (pos + length nk) key) x" for x
      unfolding eq by (auto simp: holds_Short)
    then show ?thesis using r False same_Short [of db val nn nk fl fl]
      by (cases err) (auto simp: got_def missing_Short)
  qed
next
  case (5 f db cs fl key pos)
  obtain c k where ck: "drop pos key = c # k" using "5.prems"(1) by (cases "drop pos key") (auto simp: fits_Full)
  then have lt: "pos < length key" by (metis drop_all leI list.distinct(1))
  then have pos: "pos < length key" "key ! pos = c" "drop (pos + 1) key = k"
    using ck Cons_nth_drop_Suc [OF lt] by simp_all
  have c: "unat c < length cs" "fits db (cs ! unat c) k"
    using fits_Full_child [of db cs fl c k] "5.prems"(1) ck by (auto simp: fits_Full)
  have "\<exists>r. tryGet f db (cs ! unat c) key (pos + 1) = Some r \<and> got db (cs ! unat c) k r"
    using "5.IH" pos c "5.prems" fuel_step [of 1 pos "length key" f "is_hash (cs ! unat c)"] by simp
  then obtain v nn res err where r: "tryGet f db (cs ! unat c) key (pos + 1) = Some (v, nn, res, err)"
    "got db (cs ! unat c) k (v, nn, res, err)" by auto
  have "holds db (FullNode cs fl) (drop pos key) x \<longleftrightarrow> holds db (cs ! unat c) k x" for x
    using c(1) by (auto simp: ck holds_Full)
  then show ?case using r pos c(1) same_Full [of db cs "unat c" nn fl fl]
    by (cases err) (auto simp: got_def missing_Full)
next
  case (6 f db h key pos)
  show ?case
  proof (cases "resolveHash db h (take pos key)")
    case (Inl e)
    then show ?thesis using resolveHash_error [OF Inl] by (simp add: got_def)
  next
    case (Inr n)
    then have n: "db (BytesToHash h) = Some n" by (simp add: resolveHash_Inr)
    have l: "fits db n (drop pos key)" "\<not> is_hash n" using hash_loaded [OF "6.prems"(1) n] by simp_all
    have "\<exists>r. tryGet f db n key pos = Some r \<and> got db n (drop pos key) r"
      using "6.IH" [OF Inr l(1)] "6.prems" l(2) by simp
    then obtain v nn res err where r: "tryGet f db n key pos = Some (v, nn, res, err)"
      "got db n (drop pos key) (v, nn, res, err)" by auto
    have "wf_node db (HashNode h)" using "6.prems"(1) by (simp add: fits_Hash)
    moreover have "holds db (HashNode h) k x \<longleftrightarrow> holds db n k x" for k x using n by (simp add: holds_Hash)
    ultimately show ?thesis using r Inr n same_Hash [of db h n nn]
      by (cases err) (auto simp: got_def missing_Hash)
  qed
qed

section \<open>Insertion\<close>

definition updated :: "node_db \<Rightarrow> trie_node \<Rightarrow> bytes \<Rightarrow> bytes \<Rightarrow> trie_node \<Rightarrow> bool" where
  "updated db n key v n' \<longleftrightarrow> fits db n' key \<and> n' \<noteq> NilNode \<and>
     (\<forall>k x. holds db n' k x \<longleftrightarrow> (if k = key then x = v else holds db n k x)) \<and>
     (branch db n \<longrightarrow> branch db n') \<and> (\<forall>h. refers db n' h \<longrightarrow> refers db n h)"

definition inserted :: "node_db \<Rightarrow> trie_node \<Rightarrow> bytes \<Rightarrow> bytes \<Rightarrow> trie_error + bool \<times> trie_node \<Rightarrow> bool" where
  "inserted db n key v r =
     (case r of
        Inl e \<Rightarrow> missing db n e
      | Inr (dirty, n') \<Rightarrow> if dirty then updated db n key v n' else holds db n key v \<and> same db n n')"

lemma refers_leaf [simp]: "\<not> refers db NilNode h" "\<not> refers db (ValueNode v) h"
  by (auto elim: refers.cases)

lemma updated_Short:
  assumes "wf_node db (ShortNode nk c fl)" "term_key (nk @ k)" "updated db c k v c'"
  shows "updated db (ShortNode nk c fl) (nk @ k) v (ShortNode nk c' fl')"
proof -
  have "wf_node db (ShortNode nk c' fl')"
    using assms by (auto simp: wf_Short updated_def fits_def term_key_append term_key_Cons)
  then show ?thesis using assms(2,3) by (auto simp: updated_def fits_Short holds_Short refers_Short)
qed

lemma wf_Full_update:
  assumes "wf_node db (FullNode cs fl)" "term_key (c # k)" "fits db n' k" "n' \<noteq> NilNode"
  shows "wf_node db (FullNode (cs[unat c := n']) fl')"
proof -
  obtain i j where cs: "length cs = 17" "\<forall>i<16. cs ! i = NilNode \<or> wf_node db (cs ! i)"
    "cs ! 16 = NilNode \<or> (\<exists>v. v \<noteq> [] \<and> cs ! 16 = ValueNode v)"
    and ij: "i < 17" "j < 17" "i \<noteq> j" "cs ! i \<noteq> NilNode" "cs ! j \<noteq> NilNode"
    using assms(1) by (auto simp: wf_Full)
  have c: "unat c < 17" using term_index [OF assms(2)] .
  have kind: "(unat c = 16 \<and> (\<exists>v. v \<noteq> [] \<and> n' = ValueNode v)) \<or> (unat c < 16 \<and> wf_node db n')"
    using assms(2-4) nibble_index [of c] by (auto simp: term_key_Cons fits_def)
  show ?thesis
  proof (rule wf_node.full)
    show "length (cs[unat c := n']) = 17" using cs by simp
    show "\<forall>i<16. cs[unat c := n'] ! i = NilNode \<or> wf_node db (cs[unat c := n'] ! i)"
    proof (intro allI impI)
      fix i :: nat assume "i < 16"
      then show "cs[unat c := n'] ! i = NilNode \<or> wf_node db (cs[unat c := n'] ! i)"
        using cs(1,2) kind by (cases "i = unat c") simp_all
    qed
    show "cs[unat c := n'] ! 16 = NilNode \<or> (\<exists>v. v \<noteq> [] \<and> cs[unat c := n'] ! 16 = ValueNode v)"
      using cs kind c by (auto simp: nth_list_update)
    have "cs[unat c := n'] ! l \<noteq> NilNode" if "l < 17" "cs ! l \<noteq> NilNode" for l
      using that cs(1) assms(4) by (cases "l = unat c") simp_all
    then show "cs[unat c := n'] ! i \<noteq> NilNode" "cs[unat c := n'] ! j \<noteq> NilNode" using ij by simp_all
  qed (use ij in simp_all)
qed

lemma updated_Full:
  assumes "wf_node db (FullNode cs fl)" "term_key (c # k)" "updated db (cs ! unat c) k v n'"
  shows "updated db (FullNode cs fl) (c # k) v (FullNode (cs[unat c := n']) fl')"
proof -
  have c: "unat c < length cs" using fits_Full_child [OF assms(1,2)] by simp
  have n': "fits db n' k" "n' \<noteq> NilNode" "\<And>k' x. holds db n' k' x \<longleftrightarrow> (if k' = k then x = v else holds db (cs ! unat c) k' x)"
    "\<And>h. refers db n' h \<Longrightarrow> refers db (cs ! unat c) h"
    using assms(3) by (auto simp: updated_def)
  have "holds db (FullNode (cs[unat c := n']) fl') k' x \<longleftrightarrow> (if k' = c # k then x = v else holds db (FullNode cs fl) k' x)" for k' x
  proof (cases k')
    case (Cons d k2)
    show ?thesis
    proof (cases "d = c")
      case True
      then show ?thesis using c n'(3) Cons by (auto simp: holds_Full)
    next
      case False
      then have "unat d \<noteq> unat c" by (simp add: word_unat_eq_iff)
      then show ?thesis using False Cons by (auto simp: holds_Full)
    qed
  qed (simp add: holds_Full)
  moreover have "refers db (cs[unat c := n'] ! i) h \<Longrightarrow> refers db (cs ! i) h" for i h
    using n'(4) c by (cases "i = unat c") simp_all
  then have "refers db (FullNode (cs[unat c := n']) fl') h \<longrightarrow> refers db (FullNode cs fl) h" for h
    by (auto simp: refers_Full)
  ultimately show ?thesis
    using wf_Full_update [OF assms(1,2) n'(1,2)] assms(2) by (simp add: updated_def fits_Full)
qed

lemma updated_Hash:
  assumes "db (BytesToHash h) = Some n" "updated db n k v n'"
  shows "updated db (HashNode h) k v n'"
proof -
  have "branch db (HashNode h) \<longrightarrow> branch db n'" using assms by (cases n) (auto simp: updated_def)
  then show ?thesis using assms by (auto simp: updated_def holds_Hash refers_Hash)
qed

text \<open>Splitting a short node: what is left of its key, and the branch with the two entries.\<close>

definition tail_node :: "bytes \<Rightarrow> trie_node \<Rightarrow> trie_node" where
  "tail_node ra c = (if ra = [] then c else ShortNode ra c newFlag)"

lemma insert_NilNode: "trie_insert (Suc f) db NilNode p ra c = Some (Inr (True, tail_node ra c))"
  by (cases ra) (simp_all add: tail_node_def)

lemma holds_tail: "holds db (tail_node ra c) k x \<longleftrightarrow> (\<exists>k'. k = ra @ k' \<and> holds db c k' x)"
  by (auto simp: tail_node_def holds_Short)

lemma refers_tail [simp]: "refers db (tail_node ra c) h \<longleftrightarrow> refers db c h"
  by (auto simp: tail_node_def refers_Short)

lemma split_child:
  assumes "wf_node db (ShortNode (p @ a # ra) c fl)"
  shows "nibbles p" "(unat a < 16 \<and> wf_node db (tail_node ra c)) \<or> (unat a = 16 \<and> (\<exists>v. v \<noteq> [] \<and> tail_node ra c = ValueNode v))"
    "tail_node ra c \<noteq> NilNode"
proof -
  consider (leaf) ns v where "p @ a # ra = ns @ [16]" "nibbles ns" "c = ValueNode v" "v \<noteq> []"
    | (ext) "nibbles (p @ a # ra)" "wf_node db c" "branch db c"
    using assms by (auto simp: wf_Short)
  then have "nibbles p \<and> ((unat a < 16 \<and> wf_node db (tail_node ra c)) \<or> (unat a = 16 \<and> (\<exists>v. v \<noteq> [] \<and> tail_node ra c = ValueNode v)))
    \<and> tail_node ra c \<noteq> NilNode"
  proof cases
    case leaf
    then have "term_key (p @ a # ra)" by (auto simp: term_key_def)
    then have "nibbles p" "term_key (a # ra)" using term_key_prefix by blast+
    moreover have "wf_node db (ShortNode ra c newFlag)" if "term_key ra" using leaf that by (auto simp: wf_Short term_key_def)
    ultimately show ?thesis using leaf(3,4)
      by (auto simp: term_key_Cons tail_node_def nibble_index)
  next
    case ext
    then show ?thesis by (auto simp: tail_node_def nibble_index wf_Short)
  qed
  then show "nibbles p" "(unat a < 16 \<and> wf_node db (tail_node ra c)) \<or> (unat a = 16 \<and> (\<exists>v. v \<noteq> [] \<and> tail_node ra c = ValueNode v))"
    "tail_node ra c \<noteq> NilNode" by auto
qed

definition split_branch :: "byte \<Rightarrow> bytes \<Rightarrow> trie_node \<Rightarrow> byte \<Rightarrow> bytes \<Rightarrow> trie_node \<Rightarrow> trie_node" where
  "split_branch a ra c b rb d =
     FullNode ((replicate 17 NilNode)[unat a := tail_node ra c, unat b := tail_node rb d]) newFlag"

lemma split_branch_ok:
  assumes "wf_node db (ShortNode (p @ a # ra) c fl)" "wf_node db (ShortNode (p @ b # rb) d fl2)" "a \<noteq> b"
  shows "wf_node db (split_branch a ra c b rb d)"
    "holds db (split_branch a ra c b rb d) k x \<longleftrightarrow> (\<exists>k'. k = a # ra @ k' \<and> holds db c k' x) \<or> (\<exists>k'. k = b # rb @ k' \<and> holds db d k' x)"
    "refers db (split_branch a ra c b rb d) h \<Longrightarrow> refers db c h \<or> refers db d h"
proof -
  note A = split_child(2,3) [OF assms(1)] and B = split_child(2,3) [OF assms(2)]
  have ab: "unat a \<noteq> unat b" "unat a < 17" "unat b < 17" using assms(3) A(1) B(1) by (auto simp: word_unat_eq_iff)
  let ?cs = "(replicate 17 NilNode)[unat a := tail_node ra c, unat b := tail_node rb d]"
  have nth: "?cs ! i = (if i = unat b then tail_node rb d else if i = unat a then tail_node ra c else NilNode)" if "i < 17" for i
    using that ab by (simp add: nth_list_update)
  show "wf_node db (split_branch a ra c b rb d)"
    unfolding split_branch_def
  proof (rule wf_node.full)
    show "\<forall>i<16. ?cs ! i = NilNode \<or> wf_node db (?cs ! i)" using nth A B by auto
    show "?cs ! 16 = NilNode \<or> (\<exists>v. v \<noteq> [] \<and> ?cs ! 16 = ValueNode v)" using nth [of 16] A B by auto
    show "?cs ! unat a \<noteq> NilNode" "?cs ! unat b \<noteq> NilNode" using nth ab A B by auto
  qed (use ab in simp_all)
  have "unat e < 17 \<Longrightarrow> holds db (?cs ! unat e) k' x \<longleftrightarrow> (e = a \<and> holds db (tail_node ra c) k' x) \<or> (e = b \<and> holds db (tail_node rb d) k' x)" for e k'
    using nth [of "unat e"] assms(3) by (auto simp: word_unat_eq_iff)
  then show "holds db (split_branch a ra c b rb d) k x \<longleftrightarrow> (\<exists>k'. k = a # ra @ k' \<and> holds db c k' x) \<or> (\<exists>k'. k = b # rb @ k' \<and> holds db d k' x)"
    using ab by (auto simp: split_branch_def holds_Full holds_tail)
  assume "refers db (split_branch a ra c b rb d) h"
  then obtain i where "i < 17" "refers db (?cs ! i) h" by (auto simp: split_branch_def refers_Full)
  then show "refers db c h \<or> refers db d h" using nth [of i] by (auto split: if_splits)
qed

lemma updated_split:
  assumes "wf_node db (ShortNode (p @ a # ra) c fl)" "term_key (p @ b # rb)" "a \<noteq> b" "v \<noteq> []"
  defines "B \<equiv> split_branch a ra c b rb (ValueNode v)"
  shows "updated db (ShortNode (p @ a # ra) c fl) (p @ b # rb) v (if p = [] then B else ShortNode p B newFlag)"
proof -
  have leaf: "wf_node db (ShortNode (p @ b # rb) (ValueNode v) fl)"
    using assms(2,4) by (auto simp: wf_Short term_key_def)
  note B = split_branch_ok [OF assms(1) leaf assms(3), folded B_def]
  have "branch db B" by (simp add: B_def split_branch_def)
  then have "wf_node db (if p = [] then B else ShortNode p B newFlag)"
    using B(1) split_child(1) [OF assms(1)] by (simp add: wf_Short)
  moreover have "holds db (if p = [] then B else ShortNode p B newFlag) k x
      \<longleftrightarrow> (if k = p @ b # rb then x = v else holds db (ShortNode (p @ a # ra) c fl) k x)" for k x
    using B(2) assms(3) by (auto simp: holds_Short)
  moreover have "refers db (if p = [] then B else ShortNode p B newFlag) h \<longrightarrow> refers db (ShortNode (p @ a # ra) c fl) h" for h
    using B(3) by (auto simp: refers_Short)
  ultimately show ?thesis using assms(2) by (auto simp: updated_def fits_def B_def split_branch_def)
qed

lemma fuel_tail:
  fixes L m f :: nat
  assumes "m < L" "2 * L + 1 \<le> Suc f"
  shows "2 * m + (if b then 2 else 1) \<le> f"
  using assms by (cases b) auto

lemma trie_insert_ok:
  assumes "fits db n key" "v \<noteq> []" "2 * length key + (if is_hash n then 2 else 1) \<le> f"
  shows "\<exists>r. trie_insert f db n pre key (ValueNode v) = Some r \<and> inserted db n key v r"
  using assms
proof (induction f arbitrary: n pre key)
  case (Suc f)
  show ?case
  proof (cases key)
    case Nil
    then show ?thesis using Suc.prems
      by (cases n) (auto simp: inserted_def updated_def fits_def)
  next
    case key: (Cons k ks)
    then have tk: "term_key key" using Suc.prems(1) by (auto simp: fits_def)
    show ?thesis
    proof (cases n)
      case NilNode
      then show ?thesis using tk Suc.prems(2) key
        by (auto simp: inserted_def updated_def fits_Short wf_Short holds_Short refers_Short term_key_def)
    next
      case (FullNode cs fl)
      then have wf: "wf_node db (FullNode cs fl)" "term_key (k # ks)" using Suc.prems(1) key tk by (auto simp: fits_Full)
      note c = fits_Full_child [OF wf]
      obtain r where r: "trie_insert f db (cs ! unat k) (pre @ [k]) ks (ValueNode v) = Some r" "inserted db (cs ! unat k) ks v r"
        using Suc.IH [of "cs ! unat k" ks "pre @ [k]"] c Suc.prems(2,3) key FullNode fuel_tail [of "length ks" "length key" f] by auto
      have "holds db (cs ! unat k) ks v \<Longrightarrow> holds db (FullNode cs fl) (k # ks) v" using c by (auto simp: holds_Full)
      then show ?thesis using r c FullNode key updated_Full [OF wf, of v _ newFlag]
        by (auto simp: inserted_def missing_Full split: sum.splits)
    next
      case (ShortNode nk val fl)
      then have wf: "wf_node db (ShortNode nk val fl)" using Suc.prems(1) by (simp add: fits_Short)
      from prefixLen_cases [of key nk] show ?thesis
      proof cases
        case (whole k')
        note c = fits_Short_child [OF wf, of k']
        have "length k' < length key" using c tk whole(1) by simp
        then obtain r where r: "trie_insert f db val (pre @ nk) k' (ValueNode v) = Some r" "inserted db val k' v r"
          using Suc.IH [of val k' "pre @ nk"] c whole(1) tk Suc.prems(2,3) ShortNode fuel_tail [of "length k'" "length key" f] by auto
        have "holds db val k' v \<Longrightarrow> holds db (ShortNode nk val fl) key v" using whole(1) by (auto simp: holds_Short)
        moreover have td: "take (length nk) (k # ks) = nk" "drop (length nk) (k # ks) = k'"
          unfolding key [symmetric] whole(1) by simp_all
        have "trie_insert (Suc f) db n pre key (ValueNode v) = Some (case r of Inl e \<Rightarrow> Inl e
           | Inr (dirty, nn) \<Rightarrow> Inr (if dirty then (True, ShortNode nk nn newFlag) else (False, ShortNode nk val fl)))"
          using r(1) ShortNode whole(2) td unfolding key by (simp add: Let_def split: sum.splits)
        ultimately show ?thesis using r ShortNode whole(1) tk updated_Short [OF wf, of k' v _ newFlag]
          by (auto simp: inserted_def missing_Short split: sum.splits)
      next
        case (short x nk')
        then show ?thesis using short_no_prefix [of db key x nk' val fl] wf tk by simp
      next
        case (differ p a ra b rb)
        have idx: "unat a < 17" "unat b < 17"
          using split_child(2) [of db p a ra val fl] wf differ(1) term_key_prefix [of p "b # rb"] tk differ(2) term_index [of b rb]
          by auto
        obtain f' where f: "f = Suc f'" using Suc.prems(3) key by (cases f) auto
        have td: "take (length p) (k # ks) = p" "drop (Suc (length p)) (k # ks) = rb" "(k # ks) ! length p = b" "\<not> length (k # ks) \<le> length p"
          unfolding key [symmetric] differ(2) by simp_all
        have "trie_insert (Suc f) db n pre key (ValueNode v)
            = Some (Inr (True, if p = [] then split_branch a ra val b rb (ValueNode v)
                               else ShortNode p (split_branch a ra val b rb (ValueNode v)) newFlag))"
          using differ(1,4) ShortNode idx td unfolding f key
          by (auto simp: Let_def insert_NilNode split_branch_def)
        then show ?thesis using updated_split [of db p a ra val fl b rb v] wf differ tk Suc.prems(2) ShortNode
          by (auto simp: inserted_def)
      qed
    next
      case (HashNode h)
      show ?thesis
      proof (cases "resolveHash db h pre")
        case (Inl e)
        then show ?thesis using resolveHash_error [OF Inl] HashNode key by (simp add: inserted_def)
      next
        case (Inr rn)
        then have rn: "db (BytesToHash h) = Some rn" by (simp add: resolveHash_Inr)
        have l: "fits db rn key" "\<not> is_hash rn" using hash_loaded [of db h key rn] rn Suc.prems(1) HashNode by auto
        obtain r where r: "trie_insert f db rn pre key (ValueNode v) = Some r" "inserted db rn key v r"
          using Suc.IH [of rn key pre] l Suc.prems(2,3) HashNode by auto
        have "wf_node db (HashNode h)" using Suc.prems(1) HashNode by (simp add: fits_Hash)
        then show ?thesis using r Inr HashNode key rn same_Hash [of db h rn rn] updated_Hash [of db h rn key v]
          by (auto simp: inserted_def missing_Hash holds_Hash split: sum.splits)
      qed
    next
      case (ValueNode w)
      then show ?thesis using Suc.prems(1) key by simp
    qed
  qed
qed (simp split: if_splits)

section \<open>Deletion\<close>

definition removed :: "node_db \<Rightarrow> trie_node \<Rightarrow> bytes \<Rightarrow> trie_node \<Rightarrow> bool" where
  "removed db n key n' \<longleftrightarrow> fits db n' key \<and> (\<forall>k x. holds db n' k x \<longleftrightarrow> k \<noteq> key \<and> holds db n k x) \<and>
     (branch db n \<longrightarrow> n' \<noteq> NilNode \<and> \<not> is_hash n') \<and> (\<forall>h. refers db n' h \<longrightarrow> refers db n h)"

definition deleted :: "node_db \<Rightarrow> trie_node \<Rightarrow> bytes \<Rightarrow> trie_error + bool \<times> trie_node \<Rightarrow> bool" where
  "deleted db n key r =
     (case r of
        Inl e \<Rightarrow> missing db n e
      | Inr (dirty, n') \<Rightarrow> if dirty then removed db n key n' else (\<forall>x. \<not> holds db n key x) \<and> same db n n')"

lemma child_pos_seen: "0 \<le> p \<Longrightarrow> child_pos i cs p = (if \<forall>l<length cs. cs ! l = NilNode then p else -2)"
proof (induction cs arbitrary: i)
  case (Cons c cs)
  then show ?case by (auto simp: less_Suc_eq_0_disj nth_Cons')
qed simp

text \<open>What the loop over the children finds.\<close>

lemma child_pos_cases:
  obtains (none) "child_pos i cs (-1) = -1" "\<forall>l<length cs. cs ! l = NilNode"
  | (one) j where "child_pos i cs (-1) = int (i + j)" "j < length cs" "cs ! j \<noteq> NilNode" "\<forall>l<length cs. l \<noteq> j \<longrightarrow> cs ! l = NilNode"
  | (many) j l where "child_pos i cs (-1) = -2" "j < length cs" "l < length cs" "j \<noteq> l" "cs ! j \<noteq> NilNode" "cs ! l \<noteq> NilNode"
proof (induction cs arbitrary: i)
  case (Cons c cs)
  show ?case
  proof (cases "c = NilNode")
    case True
    show ?thesis
    proof (rule Cons.IH [of "i + 1"])
      assume "child_pos (i + 1) cs (-1) = -1" "\<forall>l<length cs. cs ! l = NilNode"
      then show ?thesis using Cons.prems(1) True by (auto simp: nth_Cons')
    next
      fix j assume "child_pos (i + 1) cs (-1) = int (i + 1 + j)" "j < length cs" "cs ! j \<noteq> NilNode"
        "\<forall>l<length cs. l \<noteq> j \<longrightarrow> cs ! l = NilNode"
      then show ?thesis using Cons.prems(2) [of "Suc j"] True by (auto simp: nth_Cons')
    next
      fix j l assume "child_pos (i + 1) cs (-1) = -2" "j < length cs" "l < length cs" "j \<noteq> l" "cs ! j \<noteq> NilNode" "cs ! l \<noteq> NilNode"
      then show ?thesis using Cons.prems(3) [of "Suc j" "Suc l"] True by simp
    qed
  next
    case False
    show ?thesis
    proof (cases "\<forall>l<length cs. cs ! l = NilNode")
      case True
      then show ?thesis using Cons.prems(2) [of 0] False by (simp add: child_pos_seen nth_Cons')
    next
      case some: False
      then obtain l where "l < length cs" "cs ! l \<noteq> NilNode" by blast
      then show ?thesis using Cons.prems(3) [of 0 "Suc l"] False some by (simp add: child_pos_seen)
    qed
  qed
qed simp

text \<open>The children of a branch after one of them was replaced.\<close>

definition entries :: "node_db \<Rightarrow> trie_node list \<Rightarrow> bool" where
  "entries db cs \<longleftrightarrow> length cs = 17 \<and> (\<forall>i<16. cs ! i = NilNode \<or> wf_node db (cs ! i)) \<and>
     (cs ! 16 = NilNode \<or> (\<exists>v. v \<noteq> [] \<and> cs ! 16 = ValueNode v))"

lemma entries_update:
  assumes "wf_node db (FullNode cs fl)" "term_key (c # k)" "fits db n' k"
  shows "entries db (cs[unat c := n'])" "\<exists>l<17. cs[unat c := n'] ! l \<noteq> NilNode"
proof -
  obtain i j where cs: "length cs = 17" "\<forall>i<16. cs ! i = NilNode \<or> wf_node db (cs ! i)"
    "cs ! 16 = NilNode \<or> (\<exists>v. v \<noteq> [] \<and> cs ! 16 = ValueNode v)"
    and ij: "i < 17" "j < 17" "i \<noteq> j" "cs ! i \<noteq> NilNode" "cs ! j \<noteq> NilNode"
    using assms(1) by (auto simp: wf_Full)
  have c: "unat c < 17" using term_index [OF assms(2)] .
  have kind: "(unat c = 16 \<and> (n' = NilNode \<or> (\<exists>v. v \<noteq> [] \<and> n' = ValueNode v))) \<or> (unat c < 16 \<and> (n' = NilNode \<or> wf_node db n'))"
    using assms(2,3) nibble_index [of c] by (auto simp: term_key_Cons fits_def)
  have "cs[unat c := n'] ! i = NilNode \<or> wf_node db (cs[unat c := n'] ! i)" if "i < 16" for i
    using that cs(1,2) kind by (cases "i = unat c") auto
  moreover have "cs[unat c := n'] ! 16 = NilNode \<or> (\<exists>v. v \<noteq> [] \<and> cs[unat c := n'] ! 16 = ValueNode v)"
    using cs(1,3) kind by (cases "unat c = 16") auto
  ultimately show "entries db (cs[unat c := n'])" using cs(1) by (simp add: entries_def)
  have "i \<noteq> unat c \<or> j \<noteq> unat c" using ij(3) by blast
  then show "\<exists>l<17. cs[unat c := n'] ! l \<noteq> NilNode" using ij by (elim disjE) (auto intro: exI [of _ i] exI [of _ j])
qed

lemma removed_children:
  assumes "wf_node db (FullNode cs fl)" "term_key (c # k)" "removed db (cs ! unat c) k n'"
  shows "holds db (FullNode (cs[unat c := n']) fl') k' x \<longleftrightarrow> k' \<noteq> c # k \<and> holds db (FullNode cs fl) k' x"
    "refers db (FullNode (cs[unat c := n']) fl') h \<Longrightarrow> refers db (FullNode cs fl) h"
proof -
  have c: "unat c < length cs" using fits_Full_child [OF assms(1,2)] by simp
  have n': "\<And>k' x. holds db n' k' x \<longleftrightarrow> k' \<noteq> k \<and> holds db (cs ! unat c) k' x"
    "\<And>h. refers db n' h \<Longrightarrow> refers db (cs ! unat c) h"
    using assms(3) by (auto simp: removed_def)
  show "holds db (FullNode (cs[unat c := n']) fl') k' x \<longleftrightarrow> k' \<noteq> c # k \<and> holds db (FullNode cs fl) k' x"
  proof (cases k')
    case (Cons d k2)
    show ?thesis
    proof (cases "d = c")
      case True
      then show ?thesis using c n'(1) Cons by (auto simp: holds_Full)
    next
      case False
      then have "unat d \<noteq> unat c" by (simp add: word_unat_eq_iff)
      then show ?thesis using False Cons by (auto simp: holds_Full)
    qed
  qed (simp add: holds_Full)
  have "refers db (cs[unat c := n'] ! i) h \<Longrightarrow> refers db (cs ! i) h" for i
    using n'(2) c by (cases "i = unat c") simp_all
  then show "refers db (FullNode (cs[unat c := n']) fl') h \<Longrightarrow> refers db (FullNode cs fl) h"
    by (auto simp: refers_Full)
qed

lemma unat_child: "j < 17 \<Longrightarrow> unat (word_of_int (int j) :: byte) = j"
  by (simp add: unat_of_nat)

text \<open>Reducing a branch: what is left holds the same, and is a branch with two entries or a short node.\<close>

lemma reduce_full_ok:
  assumes "entries db cs" "\<exists>l<17. cs ! l \<noteq> NilNode"
  shows "case reduce_full db cs pre of
      Inl e \<Rightarrow> missing db (FullNode cs newFlag) e
    | Inr (dirty, n') \<Rightarrow> dirty \<and> wf_node db n' \<and> \<not> is_hash n' \<and> (\<forall>k x. holds db n' k x \<longleftrightarrow> holds db (FullNode cs newFlag) k x) \<and>
        (\<forall>h. refers db n' h \<longrightarrow> refers db (FullNode cs newFlag) h)"
proof -
  have cs: "length cs = 17" "\<forall>i<16. cs ! i = NilNode \<or> wf_node db (cs ! i)"
    "cs ! 16 = NilNode \<or> (\<exists>v. v \<noteq> [] \<and> cs ! 16 = ValueNode v)"
    using assms(1) by (auto simp: entries_def)
  from child_pos_cases [of 0 cs] show ?thesis
  proof cases
    case none
    then show ?thesis using assms(2) cs(1) by auto
  next
    case (many j l)
    then show ?thesis using cs by (auto simp: reduce_full_def wf_Full)
  next
    case (one j)
    define b where "b = (word_of_int (int j) :: byte)"
    have b: "unat b = j" using one(2) cs(1) unat_child [of j] by (simp add: b_def)
    have "holds db (cs ! unat d) k x \<longleftrightarrow> d = b \<and> holds db (cs ! j) k x" if "unat d < 17" for d k x
      using that one(4) cs(1) b by (cases "d = b") (auto simp: word_unat_eq_iff)
    then have holds: "holds db (FullNode cs newFlag) k x \<longleftrightarrow> (\<exists>k'. k = b # k' \<and> holds db (cs ! j) k' x)" for k x
      using b one(2) cs(1) by (auto simp: holds_Full)
    have refers: "refers db (cs ! j) h \<Longrightarrow> refers db (FullNode cs newFlag) h" for h
      using one(2) by (auto simp: refers_Full)
    show ?thesis
    proof (cases "j = 16")
      case True
      then obtain v where v: "v \<noteq> []" "cs ! 16 = ValueNode v" using cs(3) one(3) by auto
      have "b = 16" using b True by (simp add: word_unat_eq_iff)
      then show ?thesis using True v holds one(1) wf_node.leaf [of "[]" v db newFlag] b_def
        by (auto simp: reduce_full_def holds_Short refers_Short)
    next
      case False
      then have j16: "j < 16" using one(2) cs(1) by simp
      then have j: "j < 16" "wf_node db (cs ! j)" "nibbles [b]"
        using one(3) cs(2) b by (auto simp: word_less_nat_alt)
      have child: "Inr n' = resolve db (cs ! j) pre \<Longrightarrow> (\<forall>k x. holds db n' k x \<longleftrightarrow> holds db (cs ! j) k x) \<and> wf_node db n' \<and> \<not> is_hash n' \<and>
          (\<forall>h. refers db n' h \<longrightarrow> refers db (cs ! j) h) \<and> (is_full n' \<longrightarrow> branch db (cs ! j))" for n'
        using j(2) by (cases "cs ! j") (auto simp: resolve_def resolveHash_Inr holds_Hash wf_Hash refers_Hash dest: sym)
      have miss: "resolve db (cs ! j) pre = Inl e \<Longrightarrow> missing db (cs ! j) e" for e
        by (cases "cs ! j") (auto simp: resolve_def dest: resolveHash_error)
      show ?thesis
      proof (cases "resolve db (cs ! j) pre")
        case (Inl e)
        then have "reduce_full db cs pre = Inl e" using one(1) False by (simp add: reduce_full_def)
        then show ?thesis using missing_Full [OF miss [OF Inl]] one(2) by simp
      next
        case (Inr n')
        note ch = child [OF Inr [symmetric]]
        show ?thesis
        proof (cases n')
          case (ShortNode ck cv cf)
          then have "reduce_full db cs pre = Inr (True, ShortNode (b # ck) cv newFlag)"
            using one(1) False Inr by (simp add: reduce_full_def b_def)
          moreover have "wf_node db (ShortNode (b # ck) cv newFlag)"
            using ch ShortNode j(3) wf_node.leaf [of "b # _" _ db newFlag] by (auto simp: wf_Short)
          moreover have "holds db (ShortNode (b # ck) cv newFlag) k x \<longleftrightarrow> holds db (FullNode cs newFlag) k x" for k x
            using ch ShortNode by (auto simp: holds holds_Short)
          moreover have "refers db (ShortNode (b # ck) cv newFlag) h \<Longrightarrow> refers db (FullNode cs newFlag) h" for h
            using ch ShortNode refers by (auto simp: refers_Short)
          ultimately show ?thesis by simp
        next
          case (FullNode cs2 cf)
          then have "reduce_full db cs pre = Inr (True, ShortNode [b] (cs ! j) newFlag)"
            using one(1) False Inr by (simp add: reduce_full_def b_def)
          moreover have "wf_node db (ShortNode [b] (cs ! j) newFlag)"
            using ch FullNode j by (auto intro: wf_node.ext)
          ultimately show ?thesis using refers by (auto simp: holds holds_Short refers_Short)
        qed (use ch in auto)
      qed
    qed
  qed
qed

lemma deleted_Full:
  assumes "wf_node db (FullNode cs fl)" "term_key (c # k)" "removed db (cs ! unat c) k n'"
  shows "deleted db (FullNode cs fl) (c # k) (reduce_full db (cs[unat c := n']) pre)"
proof -
  let ?cs = "cs[unat c := n']"
  have "fits db n' k" using assms(3) by (simp add: removed_def)
  note e = entries_update [OF assms(1,2) this]
  note kids = removed_children [OF assms, of newFlag]
  show ?thesis
  proof (cases "reduce_full db ?cs pre")
    case (Inl e)
    then have "missing db (FullNode ?cs newFlag) e" using reduce_full_ok [OF e, of pre] by simp
    then show ?thesis using Inl kids(2) by (auto simp: deleted_def missing_def)
  next
    case (Inr r)
    then obtain n2 where n2: "r = (True, n2)" "wf_node db n2" "\<not> is_hash n2"
      "\<forall>k x. holds db n2 k x \<longleftrightarrow> holds db (FullNode ?cs newFlag) k x" "\<forall>h. refers db n2 h \<longrightarrow> refers db (FullNode ?cs newFlag) h"
      using reduce_full_ok [OF e, of pre] by (cases r) auto
    then have "removed db (FullNode cs fl) (c # k) n2"
      using kids assms(2) by (auto simp: removed_def fits_def)
    then show ?thesis using Inr n2(1) by (simp add: deleted_def)
  qed
qed

lemma deleted_Short:
  assumes "wf_node db (ShortNode nk c fl)" "term_key (nk @ k)" "k \<noteq> []" "removed db c k c'"
  shows "deleted db (ShortNode nk c fl) (nk @ k) (Inr (True, case c' of ShortNode ck cv _ \<Rightarrow> ShortNode (nk @ ck) cv newFlag | _ \<Rightarrow> ShortNode nk c' newFlag))"
proof -
  have ext: "nibbles nk" "nk \<noteq> []" "wf_node db c" "branch db c"
    using assms(1-3) by (auto simp: wf_Short term_key_append term_key_Cons)
  then have c': "c' \<noteq> NilNode" "\<not> is_hash c'" "wf_node db c'" "\<And>k' x. holds db c' k' x \<longleftrightarrow> k' \<noteq> k \<and> holds db c k' x"
    "\<And>h. refers db c' h \<Longrightarrow> refers db c h"
    using assms(3,4) by (auto simp: removed_def fits_def)
  define n' where "n' = (case c' of ShortNode ck cv _ \<Rightarrow> ShortNode (nk @ ck) cv newFlag | _ \<Rightarrow> ShortNode nk c' newFlag)"
  have "wf_node db n' \<and> n' \<noteq> NilNode \<and> (\<forall>k' x. holds db n' k' x \<longleftrightarrow> (\<exists>k2. k' = nk @ k2 \<and> holds db c' k2 x)) \<and> (\<forall>h. refers db n' h \<longrightarrow> refers db c' h)"
  proof (cases c')
    case (ShortNode ck cv cf)
    then have "wf_node db (ShortNode (nk @ ck) cv newFlag)"
      using c'(3) ext(1,2) wf_node.leaf [of "nk @ _" _ db newFlag] by (auto simp: wf_Short)
    then show ?thesis using ShortNode by (auto simp: n'_def holds_Short refers_Short)
  next
    case (FullNode cs cf)
    then have "wf_node db (ShortNode nk c' newFlag)" using c'(3) ext(1,2) by (auto intro: wf_node.ext)
    then show ?thesis using FullNode by (auto simp: n'_def holds_Short refers_Short)
  qed (use c' in auto)
  moreover have "fits db n' (nk @ k)" using calculation assms(2) by (auto simp: fits_def)
  ultimately have "removed db (ShortNode nk c fl) (nk @ k) n'"
    using c'(4,5) by (auto simp: removed_def holds_Short refers_Short)
  then show ?thesis by (simp add: deleted_def n'_def)
qed

lemma deleted_whole:
  assumes "wf_node db (ShortNode key c fl)" "term_key key"
  shows "deleted db (ShortNode key c fl) key (Inr (True, NilNode))"
proof -
  have "\<exists>v. c = ValueNode v" using assms term_not_nibbles [of key] by (auto simp: wf_Short)
  then show ?thesis using assms(2) by (auto simp: deleted_def removed_def holds_Short)
qed

lemma trie_delete_ok:
  assumes "fits db n key" "2 * length key + (if is_hash n then 2 else 1) \<le> f"
  shows "\<exists>r. trie_delete f db n pre key = Some r \<and> deleted db n key r"
  using assms
proof (induction f arbitrary: n pre key)
  case (Suc f)
  show ?case
  proof (cases n)
    case NilNode
    then show ?thesis by (simp add: deleted_def)
  next
    case (ValueNode v)
    then show ?thesis using Suc.prems(1) by (auto simp: deleted_def removed_def)
  next
    case (FullNode cs fl)
    then have wf: "wf_node db (FullNode cs fl)" "term_key key" using Suc.prems(1) by (auto simp: fits_Full)
    then obtain k ks where key: "key = k # ks" by (cases key) auto
    note c = fits_Full_child [OF wf(1) wf(2) [unfolded key]]
    obtain r where r: "trie_delete f db (cs ! unat k) (pre @ [k]) ks = Some r" "deleted db (cs ! unat k) ks r"
      using Suc.IH [of "cs ! unat k" ks "pre @ [k]"] c Suc.prems(2) key FullNode fuel_tail [of "length ks" "length key" f] by auto
    have none: "\<forall>x. \<not> holds db (cs ! unat k) ks x \<Longrightarrow> \<forall>x. \<not> holds db (FullNode cs fl) key x" by (simp add: key holds_Full)
    show ?thesis
    proof (cases r)
      case (Inl e)
      then show ?thesis using r c FullNode key by (auto simp: deleted_def missing_Full)
    next
      case (Inr dn)
      obtain dirty nn where dn: "dn = (dirty, nn)" by (cases dn)
      have "trie_delete (Suc f) db n pre key
          = Some (if \<not> dirty then Inr (False, FullNode cs fl) else reduce_full db (cs[unat k := nn]) pre)"
        using r(1) Inr dn c FullNode key by simp
      then show ?thesis using r(2) Inr dn none FullNode key deleted_Full [OF wf(1) wf(2) [unfolded key], of nn pre]
        by (auto simp: deleted_def split: if_splits)
    qed
  next
    case (ShortNode nk val fl)
    then have wf: "wf_node db (ShortNode nk val fl)" "term_key key" using Suc.prems(1) by (auto simp: fits_Short)
    from prefixLen_cases [of key nk] show ?thesis
    proof cases
      case (whole k')
      show ?thesis
      proof (cases "k' = []")
        case True
        then show ?thesis using whole ShortNode deleted_whole [of db nk val fl] wf by (simp add: Let_def)
      next
        case False
        note c = fits_Short_child [OF wf(1), of k']
        have "length k' < length key" using c wf(2) whole(1) by simp
        then obtain r where r: "trie_delete f db val (pre @ nk) k' = Some r" "deleted db val k' r"
          using Suc.IH [of val k' "pre @ nk"] c whole(1) wf(2) Suc.prems(2) ShortNode fuel_tail [of "length k'" "length key" f] by auto
        have none: "\<forall>x. \<not> holds db val k' x \<Longrightarrow> \<forall>x. \<not> holds db (ShortNode nk val fl) key x" by (simp add: whole(1) holds_Short)
        show ?thesis
        proof (cases r)
          case (Inl e)
          then show ?thesis using r ShortNode whole False by (auto simp: deleted_def missing_Short Let_def)
        next
          case (Inr dn)
          obtain dirty nn where dn: "dn = (dirty, nn)" by (cases dn)
          have "trie_delete (Suc f) db n pre key = Some (Inr (if \<not> dirty then (False, ShortNode nk val fl)
              else (True, case nn of ShortNode ck cv _ \<Rightarrow> ShortNode (nk @ ck) cv newFlag | _ \<Rightarrow> ShortNode nk nn newFlag)))"
            using r(1) Inr dn ShortNode whole False by (cases nn) (simp_all add: Let_def)
          then show ?thesis using r(2) Inr dn none ShortNode whole(1) deleted_Short [OF wf(1), of k' nn] wf(2) False
            by (auto simp: deleted_def split: if_splits)
        qed
      qed
    next
      case (short x nk')
      then show ?thesis using short_no_prefix [of db key x nk' val fl] wf by simp
    next
      case (differ p a ra b rb)
      then have "\<not> holds db (ShortNode nk val fl) key x" for x by (auto simp: holds_Short)
      then show ?thesis using differ ShortNode by (simp add: deleted_def Let_def)
    qed
  next
    case (HashNode h)
    show ?thesis
    proof (cases "resolveHash db h pre")
      case (Inl e)
      then show ?thesis using resolveHash_error [OF Inl] HashNode by (simp add: deleted_def)
    next
      case (Inr rn)
      then have rn: "db (BytesToHash h) = Some rn" by (simp add: resolveHash_Inr)
      have l: "fits db rn key" "\<not> is_hash rn" "branch db (HashNode h) \<longrightarrow> branch db rn"
        using hash_loaded [of db h key rn] rn Suc.prems(1) HashNode by (auto elim: is_full.elims)
      obtain r where r: "trie_delete f db rn pre key = Some r" "deleted db rn key r"
        using Suc.IH [of rn key pre] l Suc.prems(2) HashNode by auto
      have "wf_node db (HashNode h)" using Suc.prems(1) HashNode by (simp add: fits_Hash)
      then show ?thesis using r Inr HashNode rn same_Hash [of db h rn rn] l(3)
        by (auto simp: deleted_def removed_def missing_Hash holds_Hash refers_Hash split: sum.splits)
    qed
  qed
qed (simp split: if_splits)

section \<open>The trie as a map\<close>

definition trie_inv :: "node_db \<Rightarrow> Trie \<Rightarrow> bool" where
  "trie_inv db t \<longleftrightarrow> t_root t = NilNode \<or> wf_node db (t_root t)"

text \<open>Every hash that the trie refers to is in the database.\<close>

definition complete :: "node_db \<Rightarrow> trie_node \<Rightarrow> bool" where
  "complete db n \<longleftrightarrow> (\<forall>h. refers db n h \<longrightarrow> db h \<noteq> None)"

definition represents :: "node_db \<Rightarrow> Trie \<Rightarrow> (bytes \<rightharpoonup> bytes) \<Rightarrow> bool" where
  "represents db t m \<longleftrightarrow> (\<forall>k v. holds db (t_root t) k v \<longleftrightarrow> (\<exists>key. k = keybytesToHex key \<and> m key = Some v))"

lemma represents_lookup: "represents db t m \<Longrightarrow> holds db (t_root t) (keybytesToHex key) v \<longleftrightarrow> m key = Some v"
  by (auto simp: represents_def)

definition map_update :: "(bytes \<rightharpoonup> bytes) \<Rightarrow> bytes \<times> bytes \<Rightarrow> (bytes \<rightharpoonup> bytes)" where
  "map_update m p = (if snd p = [] then m(fst p := None) else m(fst p \<mapsto> snd p))"

fun trie_run :: "node_db \<Rightarrow> Trie \<Rightarrow> (bytes \<times> bytes) list \<Rightarrow> Trie option" where
  "trie_run db t [] = Some t"
| "trie_run db t ((key, value) # ps) = (case TryUpdate db key value t of None \<Rightarrow> None | Some (_, t') \<Rightarrow> trie_run db t' ps)"

lemma fits_root: "trie_inv db t \<Longrightarrow> fits db (t_root t) (keybytesToHex key)"
  by (auto simp: trie_inv_def fits_def)

lemma fuel_root: "2 * length k + (if is_hash n then 2 else 1) \<le> trie_fuel k"
  by (simp add: trie_fuel_def)

lemma trie_fuel_Suc: "trie_fuel k = Suc (Suc (2 * length k))"
  by (simp add: trie_fuel_def)

lemma missing_complete: "missing db n e \<Longrightarrow> \<not> complete db n"
  by (auto simp: missing_def complete_def)

lemma TryGet_ok:
  assumes "trie_inv db t"
  obtains v err t' where "TryGet db key t = Some ((v, err), t')"
    "err = None \<Longrightarrow> \<forall>x. v = Some x \<longleftrightarrow> holds db (t_root t) (keybytesToHex key) x" "err = None \<Longrightarrow> same db (t_root t) (t_root t')"
    "\<And>e. err = Some e \<Longrightarrow> missing db (t_root t) e \<and> t' = t"
proof -
  have "2 * (length (keybytesToHex key) - 0) + (if is_hash (t_root t) then 2 else 1) \<le> trie_fuel (keybytesToHex key)"
    using fuel_root by simp
  then obtain r where r: "tryGet (trie_fuel (keybytesToHex key)) db (t_root t) (keybytesToHex key) 0 = Some r"
    "got db (t_root t) (keybytesToHex key) r"
    using tryGet_ok [of db "t_root t" 0 "keybytesToHex key" "trie_fuel (keybytesToHex key)"] fits_root [OF assms, of key] by auto
  obtain v nn res err where rr: "r = (v, nn, res, err)" by (cases r)
  show thesis
    by (rule that [of v err "if err = None \<and> res then t\<lparr>t_root := nn\<rparr> else t"])
       (use r in \<open>auto simp: rr TryGet_def got_def Let_def\<close>)
qed

text \<open>One update: it succeeds and changes one key, or it reports a missing node and changes nothing.\<close>

lemma TryUpdate_ok:
  assumes "trie_inv db t"
  obtains (ok) t' where "TryUpdate db key value t = Some (None, t')" "trie_inv db t'"
      "\<And>m. represents db t m \<Longrightarrow> represents db t' (map_update m (key, value))" "\<And>h. refers db (t_root t') h \<Longrightarrow> refers db (t_root t) h"
  | (fail) e t' where "TryUpdate db key value t = Some (Some e, t')" "t_root t' = t_root t" "missing db (t_root t) e"
proof -
  let ?k = "keybytesToHex key"
  define op where "op = (if length value \<noteq> 0 then trie_insert (trie_fuel ?k) db (t_root t) [] ?k (ValueNode value)
      else trie_delete (trie_fuel ?k) db (t_root t) [] ?k)"
  have upd: "TryUpdate db key value t = (case op of None \<Rightarrow> None | Some (Inl e) \<Rightarrow> Some (Some e, t\<lparr>t_unhashed := t_unhashed t + 1\<rparr>)
      | Some (Inr (_, n)) \<Rightarrow> Some (None, t\<lparr>t_unhashed := t_unhashed t + 1, t_root := n\<rparr>))"
    by (auto simp: TryUpdate_def op_def Let_def split: option.splits sum.splits)
  have tk: "term_key ?k" "?k \<noteq> []" using term_key_hex [of key] term_key_Nil by (auto simp del: term_key_hex)
  show thesis
  proof (cases "value = []")
    case True
    obtain r where r: "op = Some r" "deleted db (t_root t) ?k r"
      using trie_delete_ok [OF fits_root [OF assms, of key] fuel_root, of "[]"] True by (auto simp: op_def)
    show thesis
    proof (cases r)
      case (Inl e)
      then show thesis using fail upd r by (simp add: deleted_def)
    next
      case (Inr dn)
      obtain dirty n where dn: "dn = (dirty, n)" by (cases dn)
      have "if dirty then removed db (t_root t) ?k n else (\<forall>x. \<not> holds db (t_root t) ?k x) \<and> same db (t_root t) n"
        using r(2) Inr dn by (simp add: deleted_def)
      then have n: "n = NilNode \<or> wf_node db n" "\<And>k x. holds db n k x \<longleftrightarrow> k \<noteq> ?k \<and> holds db (t_root t) k x"
        "\<And>h. refers db n h \<Longrightarrow> refers db (t_root t) h"
        using assms tk by (auto simp: removed_def same_def trie_inv_def fits_def split: if_splits)
      show thesis
        by (rule ok [of "t\<lparr>t_unhashed := t_unhashed t + 1, t_root := n\<rparr>"])
           (use upd r(1) Inr dn n True in \<open>auto simp: trie_inv_def represents_def map_update_def\<close>)
    qed
  next
    case False
    obtain r where r: "op = Some r" "inserted db (t_root t) ?k value r"
      using trie_insert_ok [OF fits_root [OF assms, of key] False fuel_root, of "[]"] False by (auto simp: op_def)
    show thesis
    proof (cases r)
      case (Inl e)
      then show thesis using fail upd r by (simp add: inserted_def)
    next
      case (Inr dn)
      obtain dirty n where dn: "dn = (dirty, n)" by (cases dn)
      have "if dirty then updated db (t_root t) ?k value n else holds db (t_root t) ?k value \<and> same db (t_root t) n"
        using r(2) Inr dn by (simp add: inserted_def)
      then have n: "n = NilNode \<or> wf_node db n" "\<And>k x. holds db n k x \<longleftrightarrow> (if k = ?k then x = value else holds db (t_root t) k x)"
        "\<And>h. refers db n h \<Longrightarrow> refers db (t_root t) h"
        using assms tk holds_fun [of db "t_root t" ?k] by (auto simp: updated_def same_def trie_inv_def fits_def split: if_splits)
      show thesis
        by (rule ok [of "t\<lparr>t_unhashed := t_unhashed t + 1, t_root := n\<rparr>"])
           (use upd r(1) Inr dn n False in \<open>auto simp: trie_inv_def represents_def map_update_def\<close>)
    qed
  qed
qed

lemma trie_run_ok:
  assumes "trie_inv db t" "complete db (t_root t)" "represents db t m"
  shows "\<exists>t'. trie_run db t ps = Some t' \<and> trie_inv db t' \<and> complete db (t_root t') \<and> represents db t' (foldl map_update m ps)
     \<and> (\<forall>h. refers db (t_root t') h \<longrightarrow> refers db (t_root t) h)"
  using assms
proof (induction ps arbitrary: t m)
  case (Cons p ps)
  obtain key val where p: "p = (key, val)" by (cases p)
  show ?case
  proof (cases rule: TryUpdate_ok [OF Cons.prems(1), of key val, case_names ok fail])
    case (ok t1)
    have "complete db (t_root t1)" using ok(4) Cons.prems(2) by (simp add: complete_def)
    then show ?thesis using Cons.IH [OF ok(2) _ ok(3) [OF Cons.prems(3)]] ok(1,4) p by auto
  next
    case (fail e t1)
    then show ?thesis using missing_complete Cons.prems(2) by blast
  qed
qed simp

text \<open>
  Claim C1. The trie refines a map: starting from a well-formed trie over a database that has the nodes it refers to, after any sequence
  of updates, where an empty value deletes, every lookup returns exactly what the updated map has, without panicking and without an error.
\<close>

theorem trie_refines_map:
  assumes "trie_inv db t" "complete db (t_root t)" "represents db t m"
  shows "\<exists>t'. trie_run db t ps = Some t' \<and> (\<forall>key. \<exists>t''. TryGet db key t' = Some ((foldl map_update m ps key, None), t''))"
proof -
  obtain t' where t': "trie_run db t ps = Some t'" "trie_inv db t'" "complete db (t_root t')" "represents db t' (foldl map_update m ps)"
    using trie_run_ok [OF assms] by blast
  have "\<exists>t''. TryGet db key t' = Some ((foldl map_update m ps key, None), t'')" for key
  proof -
    obtain v err t'' where g: "TryGet db key t' = Some ((v, err), t'')"
      "err = None \<Longrightarrow> \<forall>x. v = Some x \<longleftrightarrow> holds db (t_root t') (keybytesToHex key) x"
      "\<And>e. err = Some e \<Longrightarrow> missing db (t_root t') e \<and> t'' = t'"
      using TryGet_ok [OF t'(2), of key] by metis
    have "err = None" using g(3) missing_complete t'(3) by (cases err) auto
    moreover have "\<forall>x. v = Some x \<longleftrightarrow> foldl map_update m ps key = Some x"
      using g(2) [OF calculation] represents_lookup [OF t'(4)] by simp
    then have "v = foldl map_update m ps key" by (metis not_None_eq)
    ultimately show ?thesis using g(1) by auto
  qed
  then show ?thesis using t'(1) by blast
qed

theorem trie_refines_map_witness:
  "\<exists>t'. trie_run (\<lambda>h. None) \<lparr>t_root = NilNode, t_unhashed = 0\<rparr> [([1], [7]), ([1, 2], [8]), ([1], [])] = Some t' \<and>
     (\<exists>t''. TryGet (\<lambda>h. None) [1, 2] t' = Some ((Some [8], None), t'')) \<and> (\<exists>t''. TryGet (\<lambda>h. None) [1] t' = Some ((None, None), t''))"
proof -
  let ?db = "\<lambda>h. None" and ?t = "\<lparr>t_root = NilNode, t_unhashed = 0\<rparr>" and ?ps = "[([1], [7]), ([1, 2], [8]), ([1], [])]"
  have m: "foldl map_update Map.empty ?ps [1, 2] = Some [8]" "foldl map_update Map.empty ?ps [1] = None"
    by (simp_all add: map_update_def)
  have "\<exists>t'. trie_run ?db ?t ?ps = Some t' \<and> (\<forall>key. \<exists>t''. TryGet ?db key t' = Some ((foldl map_update Map.empty ?ps key, None), t''))"
    by (rule trie_refines_map) (simp_all add: trie_inv_def complete_def represents_def)
  then obtain t' where t': "trie_run ?db ?t ?ps = Some t'"
    "\<And>key. \<exists>t''. TryGet ?db key t' = Some ((foldl map_update Map.empty ?ps key, None), t'')" by blast
  then have "\<exists>t''. TryGet ?db [1, 2] t' = Some ((Some [8], None), t'')" "\<exists>t''. TryGet ?db [1] t' = Some ((None, None), t'')"
    using t'(2) [of "[1, 2]"] t'(2) [of "[1]"] unfolding m by blast+
  then show ?thesis using t'(1) by blast
qed

text \<open>
  Claim C34. An update of a trie of which nodes may be missing in the database never panics: either it succeeds, keeps the trie
  well-formed and changes exactly the one key, or it reports a missing node, whose hash the trie refers to and the database
  does not have, and leaves the root as it was.
\<close>

theorem TryUpdate_error:
  assumes "trie_inv db t" "represents db t m"
  shows "\<exists>err t'. TryUpdate db key value t = Some (err, t') \<and>
     (case err of
        None \<Rightarrow> trie_inv db t' \<and> represents db t' (map_update m (key, value))
      | Some e \<Rightarrow> missing db (t_root t) e \<and> t_root t' = t_root t)"
proof (cases rule: TryUpdate_ok [OF assms(1), of key "value", case_names ok fail])
  case (ok t')
  then show ?thesis using assms(2) by auto
next
  case (fail e t')
  then show ?thesis by auto
qed

theorem TryUpdate_error_witness:
  "\<exists>err t'. TryUpdate (\<lambda>h. None) [1] [2] \<lparr>t_root = HashNode [9], t_unhashed = 0\<rparr> = Some (err, t') \<and> err \<noteq> None \<and> t_root t' = HashNode [9]"
proof -
  let ?t = "\<lparr>t_root = HashNode [9], t_unhashed = 0\<rparr>"
  have "trie_inv (\<lambda>h. None) ?t" by (simp add: trie_inv_def wf_Hash)
  moreover have "represents (\<lambda>h. None) ?t Map.empty" by (simp add: represents_def holds_Hash)
  ultimately obtain err t' where e: "TryUpdate (\<lambda>h. None) [1] [2] ?t = Some (err, t')"
    "case err of None \<Rightarrow> trie_inv (\<lambda>h. None) t' \<and> represents (\<lambda>h. None) t' (map_update Map.empty ([1], [2]))
      | Some e \<Rightarrow> missing (\<lambda>h. None) (t_root ?t) e \<and> t_root t' = t_root ?t"
    using TryUpdate_error [of "\<lambda>h. None" ?t Map.empty "[1]" "[2]"] by auto
  moreover obtain f where f: "trie_fuel (keybytesToHex [1]) = Suc f" using trie_fuel_Suc by blast
  have "err \<noteq> None"
    using e(1) unfolding TryUpdate_def Let_def f by (auto simp: keybytesToHex_def resolveHash_def Let_def)
  ultimately show ?thesis by auto
qed

end
