(* ===== verification/TrieCanon.thy ===== *)
theory TrieCanon
  imports TrieMap
begin

text \<open>
  The shape of a trie is determined by its content: two loaded, well-formed nodes that hold the same values are equal
  up to the caching flags. So the tree does not depend on the order and on the history of the updates.
\<close>

section \<open>Loaded nodes\<close>

fun loaded :: "trie_node \<Rightarrow> bool" where
  "loaded (FullNode cs fl) = list_all loaded cs"
| "loaded (ShortNode nk c fl) = loaded c"
| "loaded (HashNode h) = False"
| "loaded _ = True"

fun strip :: "trie_node \<Rightarrow> trie_node" where
  "strip (FullNode cs fl) = FullNode (map strip cs) newFlag"
| "strip (ShortNode nk c fl) = ShortNode nk (strip c) newFlag"
| "strip n = n"

lemma loaded_iff: "loaded n \<longleftrightarrow> (\<forall>h. \<not> refers db n h)"
proof (induction n)
  case (FullNode cs fl)
  then show ?case by (auto simp: refers_Full list_all_length)
next
  case (HashNode h)
  then show ?case by (auto simp: refers_Hash)
qed (auto simp: refers_Short)

lemma value_ex: "\<exists>k w. holds db (ValueNode v) k w"
  using value_holds by blast

text \<open>A well-formed node holds something, and a branch holds two keys that differ in their first nibble.\<close>

lemma wf_holds: "wf_node db n \<Longrightarrow> loaded n \<Longrightarrow> \<exists>k v. holds db n k v"
proof (induction rule: wf_node.induct)
  case (leaf ns v fl)
  then show ?case by (auto simp: holds_Short)
next
  case (ext ns c fl)
  then show ?case by (auto simp: holds_Short)
next
  case (full cs i j fl)
  have "\<exists>k v. holds db (cs ! i) k v"
  proof (cases "i < 16")
    case True
    then show ?thesis using full by (auto simp: list_all_length)
  next
    case False
    then have "i = 16" using full.hyps by simp
    then show ?thesis using full.hyps value_ex [of db] by (auto simp del: holds_Value)
  qed
  then obtain k v where "holds db (cs ! i) k v" by blast
  moreover have "unat (of_nat i :: byte) = i" using full.hyps by (simp add: unat_of_nat)
  ultimately have "holds db (FullNode cs fl) (of_nat i # k) v" using full.hyps by (intro full_holds) simp_all
  then show ?case by blast
qed auto

lemma full_two:
  assumes "wf_node db (FullNode cs fl)" "loaded (FullNode cs fl)"
  obtains a k x b k' y where "holds db (FullNode cs fl) (a # k) x" "holds db (FullNode cs fl) (b # k') y" "a \<noteq> b"
proof -
  have cs: "length cs = 17" "\<forall>i<16. cs ! i = NilNode \<or> wf_node db (cs ! i)"
    "cs ! 16 = NilNode \<or> (\<exists>v. v \<noteq> [] \<and> cs ! 16 = ValueNode v)"
    using assms(1) by (auto simp: wf_Full)
  have entry: "\<exists>k v. holds db (FullNode cs fl) (of_nat i # k) v" if "i < 17" "cs ! i \<noteq> NilNode" for i
  proof -
    have "\<exists>k v. holds db (cs ! i) k v"
    proof (cases "i < 16")
      case True
      then show ?thesis using that cs wf_holds [of db "cs ! i"] assms(2) by (auto simp: list_all_length)
    next
      case False
      then have "i = 16" using that by simp
      then show ?thesis using that cs value_ex [of db] by (auto simp del: holds_Value)
    qed
    moreover have "unat (of_nat i :: byte) = i" using that by (simp add: unat_of_nat)
    ultimately show ?thesis using that cs by (auto simp: holds_Full)
  qed
  obtain i j where ij: "i < 17" "j < 17" "i \<noteq> j" "cs ! i \<noteq> NilNode" "cs ! j \<noteq> NilNode" using assms(1) by (auto simp: wf_Full)
  have "(of_nat i :: byte) \<noteq> of_nat j" using ij by (simp add: word_unat_eq_iff unat_of_nat)
  then show thesis using that entry [OF ij(1,4)] entry [OF ij(2,5)] by blast
qed

section \<open>Content determines the shape\<close>

lemma ext_prefix:
  assumes "\<And>k v. holds db (ShortNode p c fl) k v \<longleftrightarrow> holds db (ShortNode q d fl2) k v"
    "wf_node db c" "loaded c" "is_full c" "length p < length q"
  shows False
proof -
  obtain cs cf where c: "c = FullNode cs cf" using assms(4) by (cases c) auto
  obtain a k x b k' y where two: "holds db c (a # k) x" "holds db c (b # k') y" "a \<noteq> b"
    using full_two [of db cs cf] assms(2,3) c by metis
  then have "holds db (ShortNode q d fl2) (p @ a # k) x" "holds db (ShortNode q d fl2) (p @ b # k') y"
    using assms(1) by (auto simp: holds_Short)
  then obtain r r' where "p @ a # k = q @ r" "p @ b # k' = q @ r'" by (auto simp: holds_Short)
  then have "(p @ a # k) ! length p = q ! length p" "(p @ b # k') ! length p = q ! length p"
    using assms(5) by (simp_all add: nth_append)
  then show False using two(3) by simp
qed

lemma branch_loaded: "branch db c \<Longrightarrow> loaded c \<Longrightarrow> is_full c"
  by (cases c) auto

lemma full_not_short:
  assumes "wf_node db (FullNode cs fl)" "loaded (FullNode cs fl)" "nk \<noteq> []"
    "\<And>k v. holds db (FullNode cs fl) k v \<longleftrightarrow> holds db (ShortNode nk c fl2) k v"
  shows False
proof -
  obtain a k x b k' y where two: "holds db (FullNode cs fl) (a # k) x" "holds db (FullNode cs fl) (b # k') y" "a \<noteq> b"
    using full_two [OF assms(1,2)] .
  then obtain r r' where "a # k = nk @ r" "b # k' = nk @ r'" using assms(4) by (auto simp: holds_Short)
  then show False using two(3) assms(3) by (cases nk) auto
qed

lemma leaf_not_ext:
  assumes "is_full c" "wf_node db c" "loaded c" "\<And>k v. holds db (ShortNode r c f1) k v \<longleftrightarrow> holds db (ShortNode s (ValueNode w) f2) k v"
  shows False
proof -
  obtain cs cf where c: "c = FullNode cs cf" using assms(1) by (cases c) auto
  obtain a k x b k' y where two: "holds db c (a # k) x" "holds db c (b # k') y" "a \<noteq> b"
    using full_two [of db cs cf] assms(2,3) c by metis
  then have "holds db (ShortNode s (ValueNode w) f2) (r @ a # k) x" "holds db (ShortNode s (ValueNode w) f2) (r @ b # k') y"
    using assms(4) by (auto simp: holds_Short)
  then show False using two(3) by (auto simp: holds_Short)
qed

lemma short_same:
  assumes "wf_node db (ShortNode p c fl)" "wf_node db (ShortNode q d fl2)" "loaded c" "loaded d"
    "\<And>k v. holds db (ShortNode p c fl) k v \<longleftrightarrow> holds db (ShortNode q d fl2) k v"
  shows "p = q"
proof -
  have sp: "(\<exists>v. c = ValueNode v) \<or> (wf_node db c \<and> is_full c)" if "wf_node db (ShortNode p c fl)" "loaded c" for p c fl
    using that branch_loaded by (auto simp: wf_Short)
  obtain "(\<exists>v. c = ValueNode v) \<or> (wf_node db c \<and> is_full c)" "(\<exists>v. d = ValueNode v) \<or> (wf_node db d \<and> is_full d)"
    using sp assms(1-4) by blast
  then consider v w where "c = ValueNode v" "d = ValueNode w" | v where "c = ValueNode v" "wf_node db d" "is_full d"
    | w where "wf_node db c" "is_full c" "d = ValueNode w" | "wf_node db c" "is_full c" "wf_node db d" "is_full d"
    by blast
  then show ?thesis
  proof cases
    case (1 v w)
    then show ?thesis using assms(5) [of p v] by (auto simp: holds_Short)
  next
    case (2 v)
    then show ?thesis using leaf_not_ext [of d db q fl2 p v fl] assms(4,5) by auto
  next
    case (3 w)
    then show ?thesis using leaf_not_ext [of c db p fl q w fl2] assms(3,5) by auto
  next
    case 4
    then have "\<not> length p < length q" "\<not> length q < length p"
      using ext_prefix [of db p c fl q d fl2] ext_prefix [of db q d fl2 p c fl] assms(3-5) by blast+
    moreover obtain k v where h: "holds db (ShortNode p c fl) k v" using wf_holds [OF assms(1)] assms(3) by auto
    then obtain r where "k = p @ r" by (auto simp: holds_Short)
    moreover obtain r' where "k = q @ r'" using h unfolding assms(5) by (auto simp: holds_Short)
    ultimately show ?thesis by (auto simp: append_eq_append_conv)
  qed
qed

lemma wf_Full_child:
  assumes "wf_node db (FullNode cs fl)"
  shows "length cs = 17" "i < 17 \<Longrightarrow> cs ! i = NilNode \<or> (\<exists>v. cs ! i = ValueNode v) \<or> wf_node db (cs ! i)"
proof -
  have cs: "length cs = 17" "\<forall>i<16. cs ! i = NilNode \<or> wf_node db (cs ! i)" "cs ! 16 = NilNode \<or> (\<exists>v. v \<noteq> [] \<and> cs ! 16 = ValueNode v)"
    using assms by (auto simp: wf_Full)
  show "length cs = 17" by (rule cs(1))
  assume "i < 17"
  then consider "i < 16" | "i = 16" by linarith
  then show "cs ! i = NilNode \<or> (\<exists>v. cs ! i = ValueNode v) \<or> wf_node db (cs ! i)" using cs(2,3) by cases auto
qed

lemma content_canonical:
  assumes "n = NilNode \<or> (\<exists>v. n = ValueNode v) \<or> wf_node db n" "n' = NilNode \<or> (\<exists>v. n' = ValueNode v) \<or> wf_node db n'"
    "loaded n" "loaded n'" "\<And>k v. holds db n k v \<longleftrightarrow> holds db n' k v"
  shows "strip n = strip n'"
  using assms
proof (induction n arbitrary: n')
  case NilNode
  then have "n' = NilNode" by (metis holds_Nil value_holds wf_holds)
  then show ?case by simp
next
  case (ValueNode v)
  have n': "holds db n' [] v" using ValueNode.prems(5) [of "[]" v] by simp
  then have "\<not> wf_node db n'" using holds_key [OF n'] by auto
  then show ?case using ValueNode.prems(2) n' by auto
next
  case (HashNode h)
  then show ?case by simp
next
  case (ShortNode nk c fl)
  have wf: "wf_node db (ShortNode nk c fl)" "loaded c" using ShortNode.prems by auto
  then obtain k v where h: "holds db (ShortNode nk c fl) k v" using wf_holds by fastforce
  then have "holds db n' k v" "k \<noteq> []" using ShortNode.prems(5) holds_key [OF h wf(1)] by auto
  then have wf': "wf_node db n'" using ShortNode.prems(2) by auto
  show ?case
  proof (cases n')
    case (FullNode cs fl')
    then have False using full_not_short [of db cs fl' nk c fl] wf(1) wf' ShortNode.prems(4,5) by (auto simp: wf_Short)
    then show ?thesis ..
  next
    case n': (ShortNode q d fl')
    then have q: "nk = q" using short_same [of db nk c fl q d fl'] wf wf' ShortNode.prems(4,5) by auto
    have "holds db c k v \<longleftrightarrow> holds db d k v" for k v
      using ShortNode.prems(5) [of "nk @ k" v] n' q by (auto simp: holds_Short)
    moreover have "c = NilNode \<or> (\<exists>v. c = ValueNode v) \<or> wf_node db c" "d = NilNode \<or> (\<exists>v. d = ValueNode v) \<or> wf_node db d"
      using wf(1) wf' n' by (auto simp: wf_Short)
    ultimately have "strip c = strip d" using ShortNode.IH [of d] wf(2) ShortNode.prems(4) n' by auto
    then show ?thesis using n' q by simp
  qed (use wf' ShortNode.prems(4) in auto)
next
  case (FullNode cs fl)
  have wf: "wf_node db (FullNode cs fl)" "loaded (FullNode cs fl)" using FullNode.prems by auto
  obtain k v where h: "holds db (FullNode cs fl) k v" using wf_holds [OF wf] by blast
  then have "holds db n' k v" "k \<noteq> []" using FullNode.prems(5) holds_key [OF h wf(1)] by auto
  then have wf': "wf_node db n'" using FullNode.prems(2) by auto
  show ?case
  proof (cases n')
    case (ShortNode q d fl')
    then have False using full_not_short [OF wf, of q d fl'] wf' FullNode.prems(5) by (auto simp: wf_Short)
    then show ?thesis ..
  next
    case n': (FullNode ds fl')
    note cs = wf_Full_child [OF wf(1)] and ds = wf_Full_child [OF wf' [unfolded n']]
    have "strip (cs ! i) = strip (ds ! i)" if "i < 17" for i
    proof -
      have "holds db (cs ! i) k v \<longleftrightarrow> holds db (ds ! i) k v" for k v
        using FullNode.prems(5) [of "of_nat i # k" v] n' that cs(1) ds(1) by (auto simp: holds_Full unat_of_nat)
      moreover have "loaded (cs ! i)" "loaded (ds ! i)" using wf(2) FullNode.prems(4) n' that cs(1) ds(1) by (simp_all add: list_all_length)
      moreover have "cs ! i \<in> set cs" using that cs(1) by simp
      ultimately show ?thesis using FullNode.IH [of "cs ! i" "ds ! i"] cs(2) [OF that] ds(2) [OF that] by blast
    qed
    then have "map strip cs = map strip ds" using cs(1) ds(1) by (intro nth_equalityI) simp_all
    then show ?thesis using n' by simp
  qed (use wf' FullNode.prems(4) in auto)
qed

text \<open>
  Claim C13. The tree is canonical: two sequences of updates of an empty trie that describe the same final map produce the
  same tree, up to the caching flags of its nodes, whatever order the updates came in and whatever was inserted and deleted in between.
\<close>

theorem trie_history_independent:
  assumes "foldl map_update Map.empty ps = foldl map_update Map.empty qs"
  shows "\<exists>t1 t2. trie_run db \<lparr>t_root = NilNode, t_unhashed = 0\<rparr> ps = Some t1 \<and> trie_run db \<lparr>t_root = NilNode, t_unhashed = 0\<rparr> qs = Some t2 \<and>
     strip (t_root t1) = strip (t_root t2)"
proof -
  let ?t = "\<lparr>t_root = NilNode, t_unhashed = 0\<rparr>"
  have start: "trie_inv db ?t" "complete db (t_root ?t)" "represents db ?t Map.empty"
    by (simp_all add: trie_inv_def complete_def represents_def)
  obtain t1 where t1: "trie_run db ?t ps = Some t1" "trie_inv db t1" "represents db t1 (foldl map_update Map.empty ps)"
    "\<And>h. \<not> refers db (t_root t1) h"
    using trie_run_ok [OF start, of ps] by auto
  obtain t2 where t2: "trie_run db ?t qs = Some t2" "trie_inv db t2" "represents db t2 (foldl map_update Map.empty qs)"
    "\<And>h. \<not> refers db (t_root t2) h"
    using trie_run_ok [OF start, of qs] by auto
  have l: "loaded (t_root t1)" "loaded (t_root t2)" using t1(4) t2(4) loaded_iff by blast+
  moreover have "holds db (t_root t1) k v \<longleftrightarrow> holds db (t_root t2) k v" for k v
    using t1(3) t2(3) assms by (simp add: represents_def)
  ultimately have "strip (t_root t1) = strip (t_root t2)"
    using content_canonical [of "t_root t1" db "t_root t2"] t1(2) t2(2) by (auto simp: trie_inv_def)
  then show ?thesis using t1(1) t2(1) by blast
qed

theorem trie_history_independent_witness:
  "\<exists>t1 t2. trie_run (\<lambda>h. None) \<lparr>t_root = NilNode, t_unhashed = 0\<rparr> [([1], [5]), ([2], [6])] = Some t1 \<and>
     trie_run (\<lambda>h. None) \<lparr>t_root = NilNode, t_unhashed = 0\<rparr> [([2], [9]), ([3], [7]), ([2], [6]), ([3], []), ([1], [5])] = Some t2 \<and>
     strip (t_root t1) = strip (t_root t2)"
  by (rule trie_history_independent) (auto simp: map_update_def)

end
