(* ===== verification/TrieNode.thy ===== *)
theory TrieNode
  imports TrieOps RlpRaw
begin

text \<open>
  Trie nodes on disk (\<open>trie/node.go\<close>): the RLP encoding of a node whose key is in compact form, with small children
  embedded and large ones replaced by their hashes, and its decoder. The recursion of the decoder through embedded
  nodes has a fuel argument; the length of the input is enough, since the content of a list is shorter than the list.
\<close>

section \<open>Encoding\<close>

text \<open>
  The value that the encoder is given: a pointer to a struct for a short node (its flags are not exported), the array of children
  with empty strings for the missing ones for a full node.
\<close>

fun node_val :: "trie_node \<Rightarrow> gval" where
  "node_val (FullNode cs fl) = VSlice (map (\<lambda>c. VIface (if c = NilNode then VBytes [] else node_val c)) cs)"
| "node_val (ShortNode key c fl) = VPtr (VStruct [VBytes key, if c = NilNode then VNilIface else VIface (node_val c)])"
| "node_val (HashNode h) = VBytes h"
| "node_val (ValueNode v) = VBytes v"
| "node_val NilNode = VNilIface"

text \<open>What \<open>rlp.Encode\<close> writes for a node; \<open>None\<close> is the panic on an encoding error.\<close>

definition node_rlp :: "trie_node \<Rightarrow> bytes option" where
  "node_rlp n = (case Encode (node_val n) of Inl _ \<Rightarrow> None | Inr pieces \<Rightarrow> Some (concat pieces))"

section \<open>Decoding\<close>

datatype node_what =
    NodeEOF
  | NodeRlp rlp_error
  | NodeList rlp_error
  | NodeValue rlp_error
  | NodeCount nat
  | NodeOversized nat
  | NodeStringSize nat

datatype node_ctx = InShort | InFull | InVal | InChild nat

datatype node_error = PlainError node_what | WrappedError node_what "node_ctx list"

fun wrapError :: "node_error \<Rightarrow> node_ctx \<Rightarrow> node_error" where
  "wrapError (PlainError w) ctx = WrappedError w [ctx]"
| "wrapError (WrappedError w stack) ctx = WrappedError w (stack @ [ctx])"

definition hashLen :: nat where
  "hashLen = 32"

definition nodeFlag_of :: "bytes option \<Rightarrow> nodeFlag" where
  "nodeFlag_of hash = \<lparr>nf_hash = hash, nf_dirty = False\<rparr>"

text \<open>
  \<open>decodeRef\<close>, \<open>decodeShort\<close> and \<open>decodeFull\<close> take the decoder of embedded nodes as an argument; \<open>None\<close> is running out of fuel.
\<close>

definition decodeRef ::
  "(bytes \<Rightarrow> (node_error + trie_node) option) \<Rightarrow> bytes \<Rightarrow> (node_error + trie_node \<times> bytes) option" where
  "decodeRef decode_embedded buf =
     (case Split buf of
        Inl e \<Rightarrow> Some (Inl (PlainError (NodeRlp e)))
      | Inr (kind, val, rest) \<Rightarrow>
          if kind = List then
            (let sz = length buf - length rest
             in if hashLen < sz then Some (Inl (PlainError (NodeOversized sz)))
                else map_option (map_sum id (\<lambda>n. (n, rest))) (decode_embedded buf))
          else if kind = String \<and> length val = 0 then Some (Inr (NilNode, rest))
          else if kind = String \<and> length val = 32 then Some (Inr (HashNode val, rest))
          else Some (Inl (PlainError (NodeStringSize (length val)))))"

definition decodeShort ::
  "(bytes \<Rightarrow> (node_error + trie_node) option) \<Rightarrow> bytes option \<Rightarrow> bytes \<Rightarrow> (node_error + trie_node) option" where
  "decodeShort decode_embedded hash elems =
     (case SplitString elems of
        Inl e \<Rightarrow> Some (Inl (PlainError (NodeRlp e)))
      | Inr (kbuf, rest) \<Rightarrow>
          let flag = nodeFlag_of hash; key = compactToHex kbuf
          in if hasTerm key then
               (case SplitString rest of
                  Inl e \<Rightarrow> Some (Inl (PlainError (NodeValue e)))
                | Inr (val, _) \<Rightarrow> Some (Inr (ShortNode key (ValueNode val) flag)))
             else
               (case decodeRef decode_embedded rest of
                  None \<Rightarrow> None
                | Some (Inl e) \<Rightarrow> Some (Inl (wrapError e InVal))
                | Some (Inr (r, _)) \<Rightarrow> Some (Inr (ShortNode key r flag))))"

fun decodeChildren ::
  "(bytes \<Rightarrow> (node_error + trie_node) option) \<Rightarrow> nat list \<Rightarrow> bytes \<Rightarrow> (node_error + trie_node list \<times> bytes) option" where
  "decodeChildren decode_embedded [] elems = Some (Inr ([], elems))"
| "decodeChildren decode_embedded (i # is) elems =
     (case decodeRef decode_embedded elems of
        None \<Rightarrow> None
      | Some (Inl e) \<Rightarrow> Some (Inl (wrapError e (InChild i)))
      | Some (Inr (cld, rest)) \<Rightarrow>
          (case decodeChildren decode_embedded is rest of
             None \<Rightarrow> None
           | Some (Inl e) \<Rightarrow> Some (Inl e)
           | Some (Inr (cs, rest)) \<Rightarrow> Some (Inr (cld # cs, rest))))"

definition decodeFull ::
  "(bytes \<Rightarrow> (node_error + trie_node) option) \<Rightarrow> bytes option \<Rightarrow> bytes \<Rightarrow> (node_error + trie_node) option" where
  "decodeFull decode_embedded hash elems =
     (case decodeChildren decode_embedded [0..<16] elems of
        None \<Rightarrow> None
      | Some (Inl e) \<Rightarrow> Some (Inl e)
      | Some (Inr (cs, rest)) \<Rightarrow>
          (case SplitString rest of
             Inl e \<Rightarrow> Some (Inl (PlainError (NodeRlp e)))
           | Inr (val, _) \<Rightarrow>
               Some (Inr (FullNode (cs @ [if 0 < length val then ValueNode val else NilNode]) (nodeFlag_of hash)))))"

fun decode_node :: "nat \<Rightarrow> bytes option \<Rightarrow> bytes \<Rightarrow> (node_error + trie_node) option" where
  "decode_node 0 hash buf = None"
| "decode_node (Suc f) hash buf =
     (if length buf = 0 then Some (Inl (PlainError NodeEOF))
      else
        case SplitList buf of
          Inl e \<Rightarrow> Some (Inl (PlainError (NodeList e)))
        | Inr (elems, _) \<Rightarrow>
            (case CountValues elems of
               None \<Rightarrow> None
             | Some cv \<Rightarrow>
                 let c = (case cv of Inl _ \<Rightarrow> 0 | Inr c \<Rightarrow> c)
                 in if c = 2 then
                      map_option (map_sum (\<lambda>e. wrapError e InShort) id) (decodeShort (decode_node f None) hash elems)
                    else if c = 17 then
                      map_option (map_sum (\<lambda>e. wrapError e InFull) id) (decodeFull (decode_node f None) hash elems)
                    else Some (Inl (PlainError (NodeCount c)))))"

definition decodeNode :: "bytes option \<Rightarrow> bytes \<Rightarrow> (node_error + trie_node) option" where
  "decodeNode hash buf = decode_node (length buf + 1) hash buf"

text \<open>\<open>mustDecodeNode\<close> panics on an error.\<close>

definition mustDecodeNode :: "bytes \<Rightarrow> bytes \<Rightarrow> trie_node option" where
  "mustDecodeNode hash buf = (case decodeNode (Some hash) buf of Some (Inr n) \<Rightarrow> Some n | _ \<Rightarrow> None)"

section \<open>Items of an encoded node\<close>

definition str_kind :: "bytes \<Rightarrow> kind" where
  "str_kind b = (if length b = 1 \<and> b ! 0 < 0x80 then Byte else String)"

lemma rlp_str_item: "rlp_str b = enc_item (str_kind b) b" "item_ok (str_kind b) b" "str_kind b \<noteq> List"
  by (auto simp: rlp_str_def str_kind_def)

lemma rlp_list_item: "rlp_list c = enc_item List c" "item_ok List c"
  by (simp_all add: rlp_list_def)

lemma Split_str: "length (rlp_str b @ rest) < 2 ^ 64 \<Longrightarrow> Split (rlp_str b @ rest) = Inr (str_kind b, b, rest)"
  using Split_complete [OF rlp_str_item(2)] unfolding rlp_str_item(1) by blast

lemma Split_list: "length (rlp_list c @ rest) < 2 ^ 64 \<Longrightarrow> Split (rlp_list c @ rest) = Inr (List, c, rest)"
  using Split_complete [OF rlp_list_item(2)] unfolding rlp_list_item(1) by blast

lemma SplitString_str: "length (rlp_str b @ rest) < 2 ^ 64 \<Longrightarrow> SplitString (rlp_str b @ rest) = Inr (b, rest)"
  by (simp add: SplitString_def Split_str rlp_str_item(3))

lemma SplitList_list: "length (rlp_list c @ rest) < 2 ^ 64 \<Longrightarrow> SplitList (rlp_list c @ rest) = Inr (c, rest)"
  by (simp add: SplitList_def Split_list)

lemma CountValues_loop_items:
  assumes "items_ok is" "length (enc_items is) < 2 ^ 64"
  shows "CountValues_loop (enc_items is) i = Some (Inr (i + length is))"
  using assms
proof (induction "is" arbitrary: i)
  case Nil
  then show ?case by (simp add: CountValues_loop.simps enc_items_def)
next
  case (Cons p "is")
  obtain k c where p: "p = (k, c)" by fastforce
  have ok: "item_ok k c" "items_ok is" using Cons.prems(1) p by (simp_all add: items_ok_def)
  have b: "enc_items (p # is) = enc_item k c @ enc_items is" by (simp add: enc_items_def p)
  then have ne: "enc_items (p # is) \<noteq> []" using enc_item_ne [OF ok(1)] by simp
  have len: "length (enc_item k c @ enc_items is) < 2 ^ 64" using Cons.prems(2) b by simp
  have "Split (enc_items (p # is)) = Inr (k, c, enc_items is)" unfolding b by (rule Split_complete [OF ok(1) len])
  then obtain ts cs where rk: "readKind_raw (enc_items (p # is)) = Inr (k, ts, cs)" "drop (unat (ts + cs)) (enc_items (p # is)) = enc_items is"
    by (auto simp: Split_def split: sum.splits)
  have "CountValues_loop (enc_items is) (i + 1) = Some (Inr (i + 1 + length is))"
    using Cons.IH [OF ok(2)] len by simp
  then show ?case unfolding CountValues_loop.simps [of "enc_items (p # is)"] using ne rk by simp
qed

lemma CountValues_items: "items_ok is \<Longrightarrow> length (enc_items is) < 2 ^ 64 \<Longrightarrow> CountValues (enc_items is) = Some (Inr (length is))"
  using CountValues_loop_items [of "is" 0] by (simp add: CountValues_def)

definition an_item :: "bytes \<Rightarrow> bool" where
  "an_item b \<longleftrightarrow> (\<exists>k c. b = enc_item k c \<and> item_ok k c)"

lemma an_item_str [simp]: "an_item (rlp_str b)"
  using rlp_str_item an_item_def by blast

lemma an_item_list [simp]: "an_item (rlp_list c)"
  using rlp_list_item an_item_def by blast

lemma CountValues_an_items:
  assumes "list_all an_item bs" "length (concat bs) < 2 ^ 64"
  shows "CountValues (concat bs) = Some (Inr (length bs))"
proof -
  have "\<exists>is. items_ok is \<and> enc_items is = concat bs \<and> length is = length bs" using assms(1)
  proof (induction bs)
    case Nil
    then show ?case by (auto simp: items_ok_def enc_items_def)
  next
    case (Cons b bs)
    then obtain "is" k c where "items_ok is" "enc_items is = concat bs" "length is = length bs" "b = enc_item k c" "item_ok k c"
      by (auto simp: an_item_def)
    then show ?case by (intro exI [of _ "(k, c) # is"]) (simp add: items_ok_def enc_items_def)
  qed
  then show ?thesis using CountValues_items assms(2) by metis
qed

section \<open>Nodes that can be stored\<close>

text \<open>The collapsed form of a node: every key in compact form.\<close>

fun compact_node :: "trie_node \<Rightarrow> trie_node" where
  "compact_node (ShortNode key c fl) = ShortNode (case hexToCompact key of Some k \<Rightarrow> k | None \<Rightarrow> []) (compact_node c) fl"
| "compact_node (FullNode cs fl) = FullNode (map compact_node cs) fl"
| "compact_node n = n"

definition enc_node :: "trie_node \<Rightarrow> bytes" where
  "enc_node n = rlp_val (node_val (compact_node n))"

inductive disk_node :: "trie_node \<Rightarrow> bool" and disk_ref :: "trie_node \<Rightarrow> bool" where
  disk_leaf: "nibbles ns \<Longrightarrow> disk_node (ShortNode (ns @ [16]) (ValueNode v) fl)"
| disk_ext: "nibbles ns \<Longrightarrow> disk_ref c \<Longrightarrow> disk_node (ShortNode ns c fl)"
| disk_full: "length cs = 16 \<Longrightarrow> \<forall>c\<in>set cs. c = NilNode \<or> disk_ref c \<Longrightarrow> v = NilNode \<or> (\<exists>b. b \<noteq> [] \<and> v = ValueNode b) \<Longrightarrow>
    disk_node (FullNode (cs @ [v]) fl)"
| ref_hash: "length h = 32 \<Longrightarrow> disk_ref (HashNode h)"
| ref_embedded: "disk_node n \<Longrightarrow> length (enc_node n) \<le> 32 \<Longrightarrow> disk_ref n"

text \<open>The flags after decoding: the hash on the node itself, none on embedded ones, and nothing is dirty.\<close>

fun decoded :: "bytes option \<Rightarrow> trie_node \<Rightarrow> trie_node" where
  "decoded h (ShortNode key c fl) = ShortNode key (decoded None c) (nodeFlag_of h)"
| "decoded h (FullNode cs fl) = FullNode (map (decoded None) cs) (nodeFlag_of h)"
| "decoded h n = n"

lemma compact_node_Nil [simp]: "compact_node n = NilNode \<longleftrightarrow> n = NilNode"
  by (cases n) auto

definition enc_child :: "trie_node \<Rightarrow> bytes" where
  "enc_child c = (if c = NilNode then rlp_str [] else enc_node c)"

lemma enc_Short: "c \<noteq> NilNode \<Longrightarrow> hexToCompact key = Some k \<Longrightarrow> enc_node (ShortNode key c fl) = rlp_list (rlp_str k @ enc_node c)"
  by (simp add: enc_node_def)

lemma enc_Full: "enc_node (FullNode cs fl) = rlp_list (concat (map enc_child cs))"
proof -
  have "(\<lambda>c. rlp_val (if c = NilNode then VBytes [] else node_val (compact_node c))) = enc_child"
    by (auto simp: enc_child_def enc_node_def fun_eq_iff)
  then show ?thesis by (simp add: enc_node_def comp_def)
qed

lemma enc_value [simp]: "enc_node (HashNode h) = rlp_str h" "enc_node (ValueNode v) = rlp_str v"
  by (simp_all add: enc_node_def)

lemma disk_list:
  assumes "disk_node n"
  shows "\<exists>x. enc_node n = rlp_list x \<and> n \<noteq> NilNode"
  using assms
proof (cases rule: disk_node.cases)
  case (disk_leaf ns v fl)
  obtain k where "hexToCompact (ns @ [16]) = Some k" using compact_of [OF disk_leaf(2)] by blast
  then show ?thesis using disk_leaf enc_Short [of "ValueNode v" "ns @ [16]" k fl] by auto
next
  case (disk_ext ns c fl)
  have "c \<noteq> NilNode" using disk_ext(3) by (auto elim: disk_ref.cases disk_node.cases)
  moreover obtain k where "hexToCompact ns = Some k" using compact_of [OF disk_ext(2), of "[]"] by auto
  ultimately show ?thesis using disk_ext enc_Short [of c ns k fl] by auto
next
  case (disk_full cs v fl)
  then show ?thesis using enc_Full [of "cs @ [v]" fl] by blast
qed

lemma disk_ref_item: "disk_ref c \<Longrightarrow> an_item (enc_node c) \<and> c \<noteq> NilNode"
  by (auto elim!: disk_ref.cases dest!: disk_list)

lemma decodeRef_child:
  assumes "c = NilNode \<or> disk_ref c" "length (enc_child c @ rest) < 2 ^ 63"
    "disk_node c \<Longrightarrow> dec (enc_node c @ rest) = Some (Inr (decoded None c))"
  shows "decodeRef dec (enc_child c @ rest) = Some (Inr (decoded None c, rest))"
proof -
  have len: "length (enc_child c @ rest) < 2 ^ 64" using assms(2) by simp
  consider "c = NilNode" | h where "c = HashNode h" "length h = 32" | "disk_node c" "length (enc_node c) \<le> 32"
    using assms(1) by (auto elim: disk_ref.cases)
  then show ?thesis
  proof cases
    case 1
    then show ?thesis using Split_str [of "[]" rest] len by (simp add: decodeRef_def enc_child_def str_kind_def)
  next
    case (2 h)
    then have "Split (rlp_str h @ rest) = Inr (String, h, rest)" using Split_str [of h rest] len by (simp add: str_kind_def enc_child_def)
    moreover have "h \<noteq> []" using 2(2) by auto
    ultimately show ?thesis using 2 by (simp add: decodeRef_def enc_child_def)
  next
    case 3
    then obtain x where x: "enc_node c = rlp_list x" "c \<noteq> NilNode" using disk_list by blast
    then have "Split (enc_node c @ rest) = Inr (List, x, rest)" using Split_list [of x rest] len by (simp add: enc_child_def)
    then show ?thesis using 3 x(2) assms(3) by (simp add: decodeRef_def enc_child_def hashLen_def)
  qed
qed

lemma decodeChildren_ok:
  assumes "\<forall>c\<in>set cs. (c = NilNode \<or> disk_ref c) \<and> (disk_node c \<longrightarrow> (\<forall>rest. length (enc_node c @ rest) < 2 ^ 63 \<longrightarrow> dec (enc_node c @ rest) = Some (Inr (decoded None c))))"
    "length is = length cs" "length (concat (map enc_child cs) @ rest) < 2 ^ 63"
  shows "decodeChildren dec is (concat (map enc_child cs) @ rest) = Some (Inr (map (decoded None) cs, rest))"
  using assms
proof (induction cs arbitrary: "is")
  case (Cons c cs)
  obtain i "is'" where i: "is = i # is'" using Cons.prems(2) by (cases "is") auto
  have "decodeRef dec (enc_child c @ (concat (map enc_child cs) @ rest)) = Some (Inr (decoded None c, concat (map enc_child cs) @ rest))"
  proof (rule decodeRef_child)
    show "c = NilNode \<or> disk_ref c" using Cons.prems(1) by simp
    show len: "length (enc_child c @ concat (map enc_child cs) @ rest) < 2 ^ 63" using Cons.prems(3) by simp
    assume c: "disk_node c"
    then have "enc_child c = enc_node c" using disk_list by (auto simp: enc_child_def)
    then show "dec (enc_node c @ concat (map enc_child cs) @ rest) = Some (Inr (decoded None c))" using Cons.prems(1) c len by simp
  qed
  moreover have "decodeChildren dec is' (concat (map enc_child cs) @ rest) = Some (Inr (map (decoded None) cs, rest))"
    using Cons by (intro Cons.IH) (auto simp: i)
  ultimately show ?case by (simp add: i)
qed simp

lemma length_enc_list: "length c < length (rlp_list c)"
  by (simp add: rlp_list_def rlp_head_def)

lemma decode_node_ok:
  "disk_node n \<Longrightarrow> length (enc_node n) < f \<Longrightarrow> length (enc_node n @ rest) < 2 ^ 63 \<Longrightarrow>
     decode_node f h (enc_node n @ rest) = Some (Inr (decoded h n))"
proof (induction f arbitrary: n h rest)
  case (Suc f)
  have big: "length (enc_node n @ rest) < 2 ^ 64" using Suc.prems(3) by simp
  from Suc.prems(1) show ?case
  proof (cases rule: disk_node.cases)
    case (disk_leaf ns v fl)
    obtain k where k: "hexToCompact (ns @ [16]) = Some k" "compactToHex k = ns @ [16]" using compact_of [OF disk_leaf(2)] by blast
    define el where "el = rlp_str k @ rlp_str v"
    have n: "enc_node n = rlp_list el" using disk_leaf k(1) enc_Short [of "ValueNode v" "ns @ [16]" k fl] by (simp add: el_def)
    have len: "length el < 2 ^ 64" using length_enc_list [of el] big n by simp
    have cv: "CountValues el = Some (Inr 2)" using CountValues_an_items [of "[rlp_str k, rlp_str v]"] len by (simp add: el_def)
    have "SplitString el = Inr (k, rlp_str v)" "SplitString (rlp_str v) = Inr (v, [])"
      using SplitString_str [of k "rlp_str v"] SplitString_str [of v "[]"] len by (simp_all add: el_def)
    then have "decodeShort (decode_node f None) h el = Some (Inr (ShortNode (ns @ [16]) (ValueNode v) (nodeFlag_of h)))"
      using k(2) by (simp add: decodeShort_def Let_def)
    then show ?thesis using SplitList_list [of el rest] big n cv disk_leaf(1) by (simp add: Let_def rlp_list_def rlp_head_def)
  next
    case (disk_ext ns c fl)
    obtain k where k: "hexToCompact ns = Some k" "compactToHex k = ns" using compact_of [OF disk_ext(2), of "[]"] by auto
    note it = disk_ref_item [OF disk_ext(3)]
    define el where "el = rlp_str k @ enc_node c"
    have n: "enc_node n = rlp_list el" using disk_ext k(1) it enc_Short [of c ns k fl] by (simp add: el_def)
    have len: "length el < 2 ^ 63" "length (enc_node c) < f" using length_enc_list [of el] Suc.prems(2,3) n by (simp_all add: el_def)
    have cv: "CountValues el = Some (Inr 2)" using CountValues_an_items [of "[rlp_str k, enc_node c]"] len it by (simp add: el_def)
    have "SplitString el = Inr (k, enc_node c)" using SplitString_str [of k "enc_node c"] len by (simp add: el_def)
    moreover have "decodeRef (decode_node f None) (enc_child c @ []) = Some (Inr (decoded None c, []))"
      using disk_ext(3) it len Suc.IH [of c "[]" None] by (intro decodeRef_child) (auto simp: enc_child_def el_def)
    ultimately have "decodeShort (decode_node f None) h el = Some (Inr (ShortNode ns (decoded None c) (nodeFlag_of h)))"
      using k(2) disk_ext(2) it by (simp add: decodeShort_def Let_def enc_child_def)
    then show ?thesis using SplitList_list [of el rest] big n cv disk_ext(1) by (simp add: Let_def rlp_list_def rlp_head_def)
  next
    case (disk_full cs v fl)
    define el where "el = concat (map enc_child cs) @ enc_child v"
    have n: "enc_node n = rlp_list el" using disk_full(1) by (simp add: enc_Full el_def)
    have len: "length el < 2 ^ 63" "length el < f" using length_enc_list [of el] Suc.prems(2,3) n by simp_all
    have item: "an_item (enc_child c)" if "c = NilNode \<or> disk_ref c" for c using that disk_ref_item [of c] an_item_str [of "[]"] by (auto simp: enc_child_def)
    obtain b where b: "enc_child v = rlp_str b" "v = (if 0 < length b then ValueNode b else NilNode)"
    proof (cases "v = NilNode")
      case True
      then show thesis using that [of "[]"] by (simp add: enc_child_def)
    next
      case False
      then obtain b where "b \<noteq> []" "v = ValueNode b" using disk_full(4) by blast
      then show thesis using that [of b] by (simp add: enc_child_def)
    qed
    have "list_all an_item (map enc_child cs @ [enc_child v])" using disk_full(3) item b(1) by (auto simp: list_all_iff)
    then have cv: "CountValues el = Some (Inr 17)"
      using CountValues_an_items [of "map enc_child cs @ [enc_child v]"] len disk_full(2) by (simp add: el_def)
    have sub: "length (enc_node c) < f" if "c \<in> set cs" "disk_node c" for c
    proof -
      have "length (enc_child c) \<le> length (concat (map enc_child cs))" using that(1) by (induction cs) auto
      then show ?thesis using len(2) disk_list [OF that(2)] by (auto simp: enc_child_def el_def)
    qed
    have "decodeChildren (decode_node f None) [0..<16] el = Some (Inr (map (decoded None) cs, enc_child v))"
      unfolding el_def
    proof (rule decodeChildren_ok)
      show "\<forall>c\<in>set cs. (c = NilNode \<or> disk_ref c) \<and> (disk_node c \<longrightarrow> (\<forall>rest. length (enc_node c @ rest) < 2 ^ 63 \<longrightarrow>
          decode_node f None (enc_node c @ rest) = Some (Inr (decoded None c))))"
        using disk_full(3) Suc.IH sub by blast
    qed (use disk_full(2) len in \<open>simp_all add: el_def\<close>)
    moreover have "SplitString (enc_child v) = Inr (b, [])" using SplitString_str [of b "[]"] b(1) len by (simp add: el_def)
    moreover have "map (decoded None) (cs @ [v]) = map (decoded None) cs @ [if 0 < length b then ValueNode b else NilNode]"
      using b(2) by simp
    ultimately have "decodeFull (decode_node f None) h el = Some (Inr (FullNode (map (decoded None) (cs @ [v])) (nodeFlag_of h)))"
      by (simp add: decodeFull_def)
    then show ?thesis using SplitList_list [of el rest] big n cv disk_full(1) by (simp add: Let_def rlp_list_def rlp_head_def)
  qed
qed simp

section \<open>The decoder always returns\<close>

lemma Split_shorter:
  assumes "Split b = Inr (k, c, rest)" "length b < 2 ^ 64"
  shows "length rest < length b" "k = List \<Longrightarrow> length c < length b"
proof -
  note b = Split_sound [OF assms]
  show "length rest < length b" using b enc_item_ne [of k c] by auto
  show "k = List \<Longrightarrow> length c < length b" using b length_enc_list [of c] by (simp add: rlp_list_def)
qed

lemma SplitString_shorter: "SplitString b = Inr (c, rest) \<Longrightarrow> length b < 2 ^ 64 \<Longrightarrow> length rest < length b"
  using Split_shorter(1) [of b] by (auto simp: SplitString_def split: sum.splits if_splits)

lemma decodeRef_returns:
  assumes "length b < 2 ^ 64" "dec b \<noteq> None"
  shows "\<exists>r. decodeRef dec b = Some r \<and> (\<forall>n rest. r = Inr (n, rest) \<longrightarrow> length rest < length b)"
proof (cases "Split b")
  case (Inr y)
  obtain k c rest where y: "y = (k, c, rest)" by (rule prod_cases3)
  have "length rest < length b" using Split_shorter(1) [of b k c rest] Inr y assms(1) by simp
  moreover obtain d where "dec b = Some d" using assms(2) by blast
  ultimately show ?thesis using Inr y by (cases d) (auto simp: decodeRef_def Let_def)
qed (simp add: decodeRef_def)

lemma decodeChildren_returns:
  assumes "length b < L" "L \<le> 2 ^ 64" "\<And>b. length b < L \<Longrightarrow> dec b \<noteq> None"
  shows "decodeChildren dec is b \<noteq> None"
  using assms(1)
proof (induction "is" arbitrary: b)
  case (Cons i "is")
  obtain r where r: "decodeRef dec b = Some r" "\<forall>n rest. r = Inr (n, rest) \<longrightarrow> length rest < length b"
    using decodeRef_returns [of b dec] Cons.prems assms(2,3) by auto
  show ?case
  proof (cases r)
    case (Inr y)
    obtain n rest where y: "y = (n, rest)" by (cases y)
    then have "decodeChildren dec is rest \<noteq> None" using Cons.IH [of rest] r(2) Inr Cons.prems by auto
    then show ?thesis using r(1) Inr y by (auto split: sum.splits)
  qed (use r in simp)
qed simp

lemma decode_node_returns: "length buf < f \<Longrightarrow> length buf < 2 ^ 64 \<Longrightarrow> decode_node f h buf \<noteq> None"
proof (induction f arbitrary: h buf)
  case (Suc f)
  show ?case
  proof (cases "length buf = 0")
    case False
    show ?thesis
    proof (cases "SplitList buf")
      case (Inr y)
      obtain elems rest where y: "y = (elems, rest)" by (cases y)
      have "Split buf = Inr (List, elems, rest)" using Inr y by (auto simp: SplitList_def split: sum.splits if_splits)
      then have el: "length elems < length buf" using Split_shorter(2) Suc.prems(2) by blast
      then have el64: "length elems < 2 ^ 64" "length elems < f" using Suc.prems by simp_all
      obtain cv where cv: "CountValues elems = Some cv"
        using CountValues_loop_total [OF el64(1), of 0] by (auto simp: CountValues_def)
      have dec: "decode_node f None b \<noteq> None" if "length b < length buf" for b using Suc.IH [of b None] that Suc.prems by simp
      have "decodeShort (decode_node f None) h elems \<noteq> None"
      proof (cases "SplitString elems")
        case (Inr z)
        obtain kbuf r where z: "z = (kbuf, r)" by (cases z)
        have "length r < length elems" using SplitString_shorter Inr z el64 by blast
        then obtain d where "decodeRef (decode_node f None) r = Some d"
          using decodeRef_returns [of r "decode_node f None"] dec [of r] el el64 by auto
        then show ?thesis using Inr z by (auto simp: decodeShort_def Let_def split: sum.splits)
      qed (simp add: decodeShort_def)
      moreover have "decodeFull (decode_node f None) h elems \<noteq> None"
        using decodeChildren_returns [of elems "length buf" "decode_node f None" "[0..<16]"] el Suc.prems(2) dec
        by (auto simp: decodeFull_def split: sum.splits)
      ultimately show ?thesis using Inr y cv False by (auto simp: Let_def)
    qed (use False in simp)
  qed simp
qed simp

lemma decodeNode_returns: "length buf < 2 ^ 64 \<Longrightarrow> \<exists>r. decodeNode h buf = Some r"
  using decode_node_returns [of buf "length buf + 1" h] by (auto simp: decodeNode_def)

section \<open>The round trip\<close>

lemma node_val_writable: "writable (node_val n)"
  by (induction n) (auto simp: list_all_iff)

lemma node_rlp_eq: "length (rlp_val (node_val n)) < 2 ^ 64 \<Longrightarrow> node_rlp n = Some (rlp_val (node_val n))"
  using encode_eq(2) [OF node_val_writable [of n]] by (auto simp: node_rlp_def map_sum_Inr)

text \<open>
  Claim C35. A stored trie node is read back as it was: encoding a collapsed node, with its key in compact form, hashes of 32 bytes and
  embedded nodes of at most 32 bytes, and decoding the result gives the same node with clean flags and the hash it was read under.
\<close>

theorem node_roundtrip:
  assumes "disk_node n" "length (enc_node n) < 2 ^ 63"
  shows "\<exists>buf. node_rlp (compact_node n) = Some buf \<and> decodeNode (Some h) buf = Some (Inr (decoded (Some h) n))"
proof -
  have "node_rlp (compact_node n) = Some (enc_node n)" using node_rlp_eq [of "compact_node n"] assms(2) by (simp add: enc_node_def)
  moreover have "decodeNode (Some h) (enc_node n) = Some (Inr (decoded (Some h) n))"
    using decode_node_ok [OF assms(1), of "length (enc_node n) + 1" "[]" "Some h"] assms(2) by (simp add: decodeNode_def)
  ultimately show ?thesis by blast
qed

theorem node_roundtrip_witness:
  "\<exists>buf. node_rlp (compact_node (ShortNode [1, 2, 16] (ValueNode [7]) newFlag)) = Some buf \<and>
     decodeNode (Some [9]) buf = Some (Inr (ShortNode [1, 2, 16] (ValueNode [7]) (nodeFlag_of (Some [9]))))"
proof -
  let ?n = "ShortNode [1, 2, 16] (ValueNode [7]) newFlag"
  have "disk_node ?n" using disk_leaf [of "[1, 2]" "[7]" newFlag] by simp
  moreover obtain k where k: "hexToCompact [1, 2, 16] = Some k" "length k = 2"
    by (simp add: hexToCompact_def hasTerm_def Let_def)
  moreover have "length (enc_node ?n) < 2 ^ 63"
    using enc_Short [of "ValueNode [7]" "[1, 2, 16]" k newFlag] k by (simp add: rlp_list_def rlp_head_def rlp_str_def)
  ultimately show ?thesis using node_roundtrip [of ?n "[9]"] by simp
qed

end
