(* ===== verification/TrieHash.thy ===== *)
theory TrieHash
  imports TrieCanon TrieNode
begin

text \<open>
  Hashing a trie (\<open>trie/hasher.go\<close>, \<open>Trie.Hash\<close>): nodes are collapsed from the leaves up, nodes of at least 32 encoded bytes are
  replaced by their hash, and the hashes are cached in the flags. The hash function of the external package is the
  parameter \<open>keccak\<close>. The root hash is a function of the content of the trie.
\<close>

section \<open>The hasher\<close>

definition cache_hash :: "trie_node \<Rightarrow> bytes option" where
  "cache_hash n = (case n of FullNode _ fl \<Rightarrow> nf_hash fl | ShortNode _ _ fl \<Rightarrow> nf_hash fl | _ \<Rightarrow> None)"

text \<open>\<open>shortnodeToHash\<close> and \<open>fullnodeToHash\<close>: the collapsed node itself when it is small, otherwise its hash.\<close>

definition nodeToHash :: "(bytes \<Rightarrow> bytes) \<Rightarrow> trie_node \<Rightarrow> bool \<Rightarrow> trie_node option" where
  "nodeToHash keccak n force =
     (case node_rlp n of
        None \<Rightarrow> None
      | Some tmp \<Rightarrow> Some (if length tmp < 32 \<and> \<not> force then n else HashNode (keccak tmp)))"

definition set_cache :: "trie_node \<Rightarrow> nodeFlag \<Rightarrow> nodeFlag" where
  "set_cache hashed fl = fl\<lparr>nf_hash := (case hashed of HashNode h \<Rightarrow> Some h | _ \<Rightarrow> None)\<rparr>"

text \<open>
  \<open>hash\<close> returns the hashed node and the node with its caches filled. The children of a full node are handled in the order of their
  indices; the parallel version computes the same results on the separate children.
\<close>

fun hash_node :: "(bytes \<Rightarrow> bytes) \<Rightarrow> trie_node \<Rightarrow> bool \<Rightarrow> (trie_node \<times> trie_node) option"
  and hash_children :: "(bytes \<Rightarrow> bytes) \<Rightarrow> nat \<Rightarrow> trie_node list \<Rightarrow> (trie_node list \<times> trie_node list) option" where
  "hash_node keccak (ShortNode key c fl) force =
     (case nf_hash fl of
        Some h \<Rightarrow> Some (HashNode h, ShortNode key c fl)
      | None \<Rightarrow>
          (case hexToCompact key of
             None \<Rightarrow> None
           | Some ck \<Rightarrow>
               (case (case c of FullNode _ _ \<Rightarrow> hash_node keccak c False | ShortNode _ _ _ \<Rightarrow> hash_node keccak c False | _ \<Rightarrow> Some (c, c)) of
                  None \<Rightarrow> None
                | Some (collapsed, cached) \<Rightarrow>
                    (case nodeToHash keccak (ShortNode ck collapsed fl) force of
                       None \<Rightarrow> None
                     | Some hashed \<Rightarrow> Some (hashed, ShortNode key cached (set_cache hashed fl))))))"
| "hash_node keccak (FullNode cs fl) force =
     (case nf_hash fl of
        Some h \<Rightarrow> Some (HashNode h, FullNode cs fl)
      | None \<Rightarrow>
          (case hash_children keccak 0 cs of
             None \<Rightarrow> None
           | Some (collapsed, cached) \<Rightarrow>
               (case nodeToHash keccak (FullNode collapsed fl) force of
                  None \<Rightarrow> None
                | Some hashed \<Rightarrow> Some (hashed, FullNode cached (set_cache hashed fl)))))"
| "hash_node keccak n force = Some (n, n)"
| "hash_children keccak i [] = Some ([], [])"
| "hash_children keccak i (c # cs) =
     (case (if i < 16 then (if c \<noteq> NilNode then hash_node keccak c False else Some (ValueNode [], NilNode)) else Some (c, c)) of
        None \<Rightarrow> None
      | Some (hc, cc) \<Rightarrow>
          (case hash_children keccak (i + 1) cs of
             None \<Rightarrow> None
           | Some (hcs, ccs) \<Rightarrow> Some (hc # hcs, cc # ccs)))"

definition hashRoot :: "(bytes \<Rightarrow> bytes) \<Rightarrow> Trie \<Rightarrow> (trie_node \<times> trie_node \<times> Trie) option" where
  "hashRoot keccak t =
     (if t_root t = NilNode then Some (HashNode emptyRoot, NilNode, t)
      else
        case hash_node keccak (t_root t) True of
          None \<Rightarrow> None
        | Some (hashed, cached) \<Rightarrow> Some (hashed, cached, t\<lparr>t_unhashed := 0\<rparr>))"

definition trie_Hash :: "(bytes \<Rightarrow> bytes) \<Rightarrow> Trie \<Rightarrow> (bytes \<times> Trie) option" where
  "trie_Hash keccak t =
     (case hashRoot keccak t of
        Some (HashNode hash, cached, t1) \<Rightarrow> Some (BytesToHash hash, t1\<lparr>t_root := cached\<rparr>)
      | _ \<Rightarrow> None)"

section \<open>The encoding a hash stands for\<close>

fun node_enc :: "(bytes \<Rightarrow> bytes) \<Rightarrow> trie_node \<Rightarrow> bytes" and node_ref :: "(bytes \<Rightarrow> bytes) \<Rightarrow> trie_node \<Rightarrow> bytes" where
  "node_enc keccak (ShortNode key c fl) = rlp_list (rlp_str (case hexToCompact key of Some k \<Rightarrow> k | None \<Rightarrow> []) @ node_ref keccak c)"
| "node_enc keccak (FullNode cs fl) = rlp_list (concat (map (node_ref keccak) cs))"
| "node_enc keccak n = []"
| "node_ref keccak NilNode = rlp_str []"
| "node_ref keccak (ValueNode v) = rlp_str v"
| "node_ref keccak (HashNode h) = rlp_str h"
| "node_ref keccak n = (if length (node_enc keccak n) < 32 then node_enc keccak n else rlp_str (keccak (node_enc keccak n)))"

lemma node_enc_strip [simp]: "node_enc keccak (strip n) = node_enc keccak n" "node_ref keccak (strip n) = node_ref keccak n"
proof (induction n)
  case (FullNode cs fl)
  have m: "concat (map (node_ref keccak) (map strip cs)) = concat (map (node_ref keccak) cs)"
    using FullNode by (simp cong: map_cong)
  {
    case 1
    show ?case by (simp only: strip.simps node_enc.simps m)
  next
    case 2
    show ?case by (simp only: strip.simps node_ref.simps node_enc.simps m)
  }
qed simp_all

fun inner :: "trie_node \<Rightarrow> bool" where
  "inner (ShortNode _ _ _) = True"
| "inner (FullNode _ _) = True"
| "inner _ = False"

text \<open>Caches that are right: a cached hash is the hash of the encoding, and only the root may have one for a small encoding.\<close>

definition cache_right :: "(bytes \<Rightarrow> bytes) \<Rightarrow> bool \<Rightarrow> trie_node \<Rightarrow> bool" where
  "cache_right keccak root n \<longleftrightarrow>
     (\<forall>h. cache_hash n = Some h \<longrightarrow> h = keccak (node_enc keccak n) \<and> (root \<or> 32 \<le> length (node_enc keccak n)))"

fun caches_right :: "(bytes \<Rightarrow> bytes) \<Rightarrow> bool \<Rightarrow> trie_node \<Rightarrow> bool" where
  "caches_right keccak root (ShortNode key c fl) \<longleftrightarrow> cache_right keccak root (ShortNode key c fl) \<and> caches_right keccak False c"
| "caches_right keccak root (FullNode cs fl) \<longleftrightarrow> cache_right keccak root (FullNode cs fl) \<and> list_all (caches_right keccak False) cs"
| "caches_right keccak root n \<longleftrightarrow> True"

text \<open>Nodes that can be encoded: keys that have a compact form, and encodings that fit.\<close>

fun sized :: "(bytes \<Rightarrow> bytes) \<Rightarrow> trie_node \<Rightarrow> bool" where
  "sized keccak (ShortNode key c fl) \<longleftrightarrow>
     hexToCompact key \<noteq> None \<and> c \<noteq> NilNode \<and> length (node_enc keccak (ShortNode key c fl)) < 2 ^ 63 \<and> sized keccak c"
| "sized keccak (FullNode cs fl) \<longleftrightarrow>
     (\<forall>j<length cs. 16 \<le> j \<longrightarrow> \<not> inner (cs ! j)) \<and> length (node_enc keccak (FullNode cs fl)) < 2 ^ 63 \<and> list_all (sized keccak) cs"
| "sized keccak n \<longleftrightarrow> True"

definition child_enc :: "trie_node \<Rightarrow> bytes" where
  "child_enc c = rlp_val (if c = NilNode then VBytes [] else node_val c)"

text \<open>What hashing a node has to return.\<close>

definition hashed_right :: "(bytes \<Rightarrow> bytes) \<Rightarrow> trie_node \<Rightarrow> bool \<Rightarrow> trie_node \<times> trie_node \<Rightarrow> bool" where
  "hashed_right keccak n force = (\<lambda>(hashed, cached).
     strip cached = strip n \<and> caches_right keccak force cached \<and> hashed \<noteq> NilNode \<and>
     (if force \<or> 32 \<le> length (node_enc keccak n) then hashed = HashNode (keccak (node_enc keccak n))
      else inner hashed \<and> child_enc hashed = node_enc keccak n))"

lemma hashed_child: "inner n \<Longrightarrow> hashed_right keccak n False (h, c) \<Longrightarrow> child_enc h = node_ref keccak n"
  by (cases n) (auto simp: hashed_right_def child_enc_def split: if_splits)

lemma nodeToHash_right:
  assumes "rlp_val (node_val col) = node_enc keccak n" "length (node_enc keccak n) < 2 ^ 63"
  shows "nodeToHash keccak col force = Some (if length (node_enc keccak n) < 32 \<and> \<not> force then col else HashNode (keccak (node_enc keccak n)))"
  using node_rlp_eq [of col] assms by (simp add: nodeToHash_def)

lemma node_enc_same: "strip a = strip b \<Longrightarrow> node_enc keccak a = node_enc keccak b"
  by (metis node_enc_strip(1))

lemma hash_node_right:
  "inner n \<Longrightarrow> caches_right keccak force n \<Longrightarrow> sized keccak n \<Longrightarrow> \<exists>r. hash_node keccak n force = Some r \<and> hashed_right keccak n force r"
  "list_all (caches_right keccak False) cs \<Longrightarrow> list_all (sized keccak) cs \<Longrightarrow> \<forall>j<length cs. 16 \<le> i + j \<longrightarrow> \<not> inner (cs ! j) \<Longrightarrow>
     \<exists>hcs ccs. hash_children keccak i cs = Some (hcs, ccs) \<and> map strip ccs = map strip cs \<and> list_all (caches_right keccak False) ccs \<and>
       map child_enc hcs = map (node_ref keccak) cs"
proof (induction keccak n force and keccak i cs rule: hash_node_hash_children.induct)
  case (1 keccak key c fl force)
  let ?n = "ShortNode key c fl"
  show ?case
  proof (cases "nf_hash fl")
    case (Some h)
    then show ?thesis using "1.prems" by (auto simp: hashed_right_def cache_right_def cache_hash_def)
  next
    case None
    obtain ck where ck: "hexToCompact key = Some ck" using "1.prems"(3) by auto
    have c: "caches_right keccak False c" "sized keccak c" "c \<noteq> NilNode" using "1.prems" by auto
    obtain hc cc where hc: "(case c of FullNode _ _ \<Rightarrow> hash_node keccak c False | ShortNode _ _ _ \<Rightarrow> hash_node keccak c False | _ \<Rightarrow> Some (c, c)) = Some (hc, cc)"
      "child_enc hc = node_ref keccak c" "hc \<noteq> NilNode" "strip cc = strip c" "caches_right keccak False cc"
    proof (cases "inner c")
      case True
      have "\<exists>r. hash_node keccak c False = Some r \<and> hashed_right keccak c False r"
      proof (cases c)
        case (FullNode cs2 f2)
        show ?thesis by (rule "1.IH"(1) [OF None ck FullNode True c(1,2)])
      next
        case (ShortNode k2 c2 f2)
        show ?thesis by (rule "1.IH"(2) [OF None ck ShortNode True c(1,2)])
      qed (use True in simp_all)
      then obtain h2 c2 where r: "hash_node keccak c False = Some (h2, c2)" "hashed_right keccak c False (h2, c2)" by auto
      have "(case c of FullNode _ _ \<Rightarrow> hash_node keccak c False | ShortNode _ _ _ \<Rightarrow> hash_node keccak c False | _ \<Rightarrow> Some (c, c)) = hash_node keccak c False"
        using True by (cases c) simp_all
      then show thesis using that [of h2 c2] r hashed_child [OF True r(2)] by (simp add: hashed_right_def)
    next
      case False
      then show thesis using that [of c c] c by (cases c) (auto simp: child_enc_def)
    qed
    let ?col = "ShortNode ck hc fl"
    have enc: "rlp_val (node_val ?col) = node_enc keccak ?n" using ck hc(2,3) by (simp add: child_enc_def)
    define hashed where "hashed = (if length (node_enc keccak ?n) < 32 \<and> \<not> force then ?col else HashNode (keccak (node_enc keccak ?n)))"
    have "nodeToHash keccak ?col force = Some hashed"
      using nodeToHash_right [OF enc] "1.prems"(3) by (simp add: hashed_def)
    then have "hash_node keccak ?n force = Some (hashed, ShortNode key cc (set_cache hashed fl))" using None ck hc(1) by simp
    moreover have "node_enc keccak (ShortNode key cc (set_cache hashed fl)) = node_enc keccak ?n"
      by (rule node_enc_same) (simp add: hc(4))
    then have "hashed_right keccak ?n force (hashed, ShortNode key cc (set_cache hashed fl))"
      using hc(4,5) enc by (auto simp: hashed_right_def hashed_def cache_right_def cache_hash_def set_cache_def child_enc_def)
    ultimately show ?thesis by blast
  qed
next
  case (2 keccak cs fl force)
  let ?n = "FullNode cs fl"
  show ?case
  proof (cases "nf_hash fl")
    case (Some h)
    then show ?thesis using "2.prems" by (auto simp: hashed_right_def cache_right_def cache_hash_def)
  next
    case None
    obtain hcs ccs where h: "hash_children keccak 0 cs = Some (hcs, ccs)" "map strip ccs = map strip cs" "list_all (caches_right keccak False) ccs"
      "map child_enc hcs = map (node_ref keccak) cs"
      using "2.IH" [OF None] "2.prems" by auto
    let ?col = "FullNode hcs fl"
    have "rlp_val (node_val ?col) = rlp_list (concat (map child_enc hcs))"
      by (simp add: child_enc_def [abs_def] comp_def)
    then have enc: "rlp_val (node_val ?col) = node_enc keccak ?n" using h(4) by simp
    define hashed where "hashed = (if length (node_enc keccak ?n) < 32 \<and> \<not> force then ?col else HashNode (keccak (node_enc keccak ?n)))"
    have "nodeToHash keccak ?col force = Some hashed"
      using nodeToHash_right [OF enc] "2.prems"(3) by (simp add: hashed_def)
    then have "hash_node keccak ?n force = Some (hashed, FullNode ccs (set_cache hashed fl))" using None h(1) by simp
    moreover have "node_enc keccak (FullNode ccs (set_cache hashed fl)) = node_enc keccak ?n"
      by (rule node_enc_same) (simp add: h(2))
    then have "hashed_right keccak ?n force (hashed, FullNode ccs (set_cache hashed fl))"
      using h(2,3) enc by (auto simp: hashed_right_def hashed_def cache_right_def cache_hash_def set_cache_def child_enc_def)
    ultimately show ?thesis by blast
  qed
next
  case (5 keccak i c cs)
  have c: "caches_right keccak False c" "sized keccak c" using "5.prems" by auto
  have ni: "16 \<le> i \<Longrightarrow> \<not> inner c" using "5.prems"(3) by force
  obtain hc cc where hc: "(if i < 16 then (if c \<noteq> NilNode then hash_node keccak c False else Some (ValueNode [], NilNode)) else Some (c, c)) = Some (hc, cc)"
    "child_enc hc = node_ref keccak c" "strip cc = strip c" "caches_right keccak False cc"
  proof (cases "inner c")
    case True
    then have i: "i < 16" "c \<noteq> NilNode" using ni not_le by auto
    then obtain r where r: "hash_node keccak c False = Some r" "hashed_right keccak c False r"
      using "5.IH"(1) c True by auto
    then show thesis using that [of "fst r" "snd r"] i True hashed_child [of c keccak "fst r" "snd r"]
      by (auto simp: hashed_right_def)
  next
    case False
    show thesis
    proof (cases "c = NilNode")
      case True
      then show thesis using that [of "if i < 16 then ValueNode [] else c" c] by (simp add: child_enc_def)
    next
      case nn: False
      then show thesis using that [of c c] False c by (cases c) (auto simp: child_enc_def)
    qed
  qed
  have "\<forall>j<length cs. 16 \<le> i + 1 + j \<longrightarrow> \<not> inner (cs ! j)" using "5.prems"(3) by force
  moreover have "list_all (caches_right keccak False) cs" "list_all (sized keccak) cs" using "5.prems" by simp_all
  ultimately obtain hcs ccs where "hash_children keccak (i + 1) cs = Some (hcs, ccs)" "map strip ccs = map strip cs"
    "list_all (caches_right keccak False) ccs" "map child_enc hcs = map (node_ref keccak) cs"
    using "5.IH"(2) [OF hc(1) refl] by blast
  then show ?case using hc by simp
qed auto

section \<open>Updates keep the caches right\<close>

lemma cache_right_new [simp]: "cache_right keccak root (ShortNode k c newFlag)" "cache_right keccak root (FullNode cs newFlag)"
  by (simp_all add: cache_right_def cache_hash_def newFlag_def)

lemma caches_tail: "caches_right keccak False c \<Longrightarrow> caches_right keccak False (tail_node k c)"
  by (simp add: tail_node_def)

lemma list_all_update: "list_all P cs \<Longrightarrow> P c \<Longrightarrow> list_all P (cs[i := c])"
  by (auto simp: list_all_iff dest!: set_update_subset_insert [THEN subsetD])

lemma insert_caches:
  assumes "trie_insert f db n pre key val = Some (Inr (dirty, n'))" "loaded n" "caches_right keccak root n" "caches_right keccak False val"
  shows "if dirty then caches_right keccak False n' else n' = n"
  using assms
proof (induction f db n pre key val arbitrary: dirty n' root rule: trie_insert.induct)
  case (2 f db n pre val)
  then show ?case by (auto split: trie_node.splits)
next
  case (3 f db nk c fl pre k ks val)
  let ?key = "k # ks" and ?m = "prefixLen (k # ks) nk"
  show ?case
  proof (cases "?m = length nk")
    case True
    obtain d nn where r: "trie_insert f db c (pre @ take ?m ?key) (drop ?m ?key) val = Some (Inr (d, nn))"
      "(dirty, n') = (if d then (True, ShortNode nk nn newFlag) else (False, ShortNode nk c fl))"
      using "3.prems"(1) True by (auto simp: Let_def split: option.splits sum.splits)
    have "if d then caches_right keccak False nn else nn = c"
      using "3.IH"(1) [OF refl refl True r(1), of False] "3.prems" by simp
    then show ?thesis using r(2) by (auto split: if_splits)
  next
    case False
    obtain f' where f: "f = Suc f'" using "3.prems"(1) False by (cases f) (auto simp: Let_def split: if_splits)
    have "caches_right keccak False (tail_node (drop (Suc ?m) nk) c)" "caches_right keccak False (tail_node (drop (Suc ?m) ?key) val)"
      using "3.prems"(3,4) by (simp_all add: caches_tail)
    then have "list_all (caches_right keccak False) ((replicate 17 NilNode)[unat (nk ! ?m) := tail_node (drop (Suc ?m) nk) c, unat (?key ! ?m) := tail_node (drop (Suc ?m) ?key) val])"
      by (intro list_all_update) (simp_all add: list_all_iff)
    then show ?thesis using "3.prems"(1) False unfolding f
      by (auto simp: Let_def insert_NilNode split: if_splits)
  qed
next
  case (4 f db cs fl pre k ks val)
  obtain d nn where r: "trie_insert f db (cs ! unat k) (pre @ [k]) ks val = Some (Inr (d, nn))" "unat k < length cs"
    "(dirty, n') = (if d then (True, FullNode (cs[unat k := nn]) newFlag) else (False, FullNode cs fl))"
    using "4.prems"(1) by (auto split: if_splits option.splits sum.splits)
  have "if d then caches_right keccak False nn else nn = cs ! unat k"
    using "4.IH" [OF _ r(1), of False] r(2) "4.prems" by (simp add: list_all_length)
  then show ?case using r(3) list_all_update "4.prems"(3) by (auto split: if_splits)
qed auto

lemma delete_caches:
  assumes "trie_delete f db n pre key = Some (Inr (dirty, n'))" "loaded n" "caches_right keccak root n"
  shows "if dirty then loaded n' \<and> caches_right keccak False n' else n' = n"
  using assms
proof (induction f db n pre key arbitrary: dirty n' root rule: trie_delete.induct)
  case (2 f db nk c fl pre key)
  let ?m = "prefixLen key nk"
  show ?case
  proof (cases "?m < length nk \<or> ?m = length key")
    case True
    then show ?thesis using "2.prems"(1) by (auto simp: Let_def split: if_splits)
  next
    case False
    then obtain d nn where r: "trie_delete f db c (pre @ take (length nk) key) (drop (length nk) key) = Some (Inr (d, nn))"
      "(dirty, n') = (if \<not> d then (False, ShortNode nk c fl) else (True, case nn of ShortNode ck cv _ \<Rightarrow> ShortNode (nk @ ck) cv newFlag | _ \<Rightarrow> ShortNode nk nn newFlag))"
      using "2.prems"(1) by (auto simp: Let_def split: option.splits sum.splits if_splits trie_node.splits)
    have nn: "if d then loaded nn \<and> caches_right keccak False nn else nn = c"
      using "2.IH" [OF refl _ _ r(1), of False] False "2.prems" by simp
    then show ?thesis using r(2) by (cases nn) (auto split: if_splits)
  qed
next
  case (3 f db cs fl pre key)
  obtain k ks where key: "key = k # ks" using "3.prems"(1) by (cases key) auto
  obtain d nn where r: "trie_delete f db (cs ! unat k) (pre @ [k]) ks = Some (Inr (d, nn))" "unat k < length cs"
    "(if \<not> d then Inr (False, FullNode cs fl) else reduce_full db (cs[unat k := nn]) pre) = Inr (dirty, n')"
    using "3.prems"(1) key by (auto split: if_splits option.splits sum.splits)
  have nn: "if d then loaded nn \<and> caches_right keccak False nn else nn = cs ! unat k"
    using "3.IH" [OF key _ r(1), of False] r(2) "3.prems" by (simp add: list_all_length)
  then have cs: "d \<Longrightarrow> list_all (caches_right keccak False) (cs[unat k := nn])" "d \<Longrightarrow> list_all loaded (cs[unat k := nn])"
    using "3.prems"(2,3) by (auto intro: list_all_update)
  have "loaded n' \<and> caches_right keccak False n' \<and> dirty" if d
  proof -
    let ?cs = "cs[unat k := nn]"
    have red: "reduce_full db ?cs pre = Inr (dirty, n')" using r(3) that by simp
    show ?thesis
    proof (cases "0 \<le> child_pos 0 ?cs (-1)")
      case True
      define j where "j = nat (child_pos 0 ?cs (-1))"
      have j: "j < length ?cs" using True child_pos_cases [of 0 ?cs] unfolding j_def by (metis add_0 int_nat_eq nat_int neg_0_le_iff_le not_one_le_zero not_numeral_le_zero of_nat_less_iff)
      then have "caches_right keccak False (?cs ! j)" "loaded (?cs ! j)" using cs [OF that] by (simp_all add: list_all_length)
      then show ?thesis using red True j_def
        by (auto simp: reduce_full_def Let_def resolve_def split: if_splits sum.splits trie_node.splits)
    next
      case False
      then show ?thesis using red cs [OF that] by (auto simp: reduce_full_def Let_def)
    qed
  qed
  then show ?case using r(3) by (cases d) auto
qed auto

section \<open>Encodings fit\<close>

lemma rlp_len: "length b < 2 ^ 64 \<Longrightarrow> length (rlp_str b) \<le> length b + 9" "length b < 2 ^ 64 \<Longrightarrow> length (rlp_list b) \<le> length b + 9"
  using be_bytes_length [of "length b" 8] by (auto simp: rlp_str_def rlp_list_def rlp_head_def)

lemma decodeNibbles_length: "decodeNibbles ns dst = Some r \<Longrightarrow> length r = length dst"
  by (induction ns dst arbitrary: r rule: decodeNibbles.induct) auto

lemma hexToCompact_length: "hexToCompact k = Some c \<Longrightarrow> length c \<le> length k + 1"
  by (auto simp: hexToCompact_def Let_def dest!: decodeNibbles_length split: if_splits)

definition small :: "node_db \<Rightarrow> trie_node \<Rightarrow> bool" where
  "small db n \<longleftrightarrow> (\<forall>k v. holds db n k v \<longrightarrow> length k \<le> 2 ^ 58 \<and> length v \<le> 2 ^ 58)"

lemma small_Short: "small db (ShortNode nk c fl) \<Longrightarrow> small db c"
  unfolding small_def holds_Short by (metis add_leD2 length_append)

lemma ref_small:
  assumes "\<And>b. length (keccak b) = 32" "loaded n" "small db n"
  shows "length (node_ref keccak n) \<le> 2 ^ 58 + 41"
proof (cases n)
  case (ValueNode v)
  then have "length v \<le> 2 ^ 58" using assms(3) by (simp add: small_def)
  then show ?thesis using rlp_len(1) [of v] ValueNode by simp
next
  case (FullNode cs fl)
  then show ?thesis using rlp_len(1) [of "keccak (node_enc keccak n)"] assms(1) by simp
next
  case (ShortNode k c fl)
  then show ?thesis using rlp_len(1) [of "keccak (node_enc keccak n)"] assms(1) by simp
qed (use rlp_len(1) [of "[]"] assms(2) in simp_all)

lemma concat_small: "(\<And>x. x \<in> set xs \<Longrightarrow> length (f x) \<le> B) \<Longrightarrow> length (concat (map f xs)) \<le> length xs * B"
  by (induction xs) (fastforce simp: add_mono)+

lemma wf_sized:
  assumes "\<And>b. length (keccak b) = 32" "n = NilNode \<or> (\<exists>v. n = ValueNode v) \<or> wf_node db n" "loaded n" "small db n"
  shows "sized keccak n"
  using assms(2-4)
proof (induction n)
  case (ShortNode nk c fl)
  have wf: "wf_node db (ShortNode nk c fl)" using ShortNode.prems by simp
  then have c: "c = NilNode \<or> (\<exists>v. c = ValueNode v) \<or> wf_node db c" "loaded c" "c \<noteq> NilNode" "small db c"
    using ShortNode.prems small_Short by (auto simp: wf_Short)
  obtain ns t where nk: "nk = ns @ t" "nibbles ns" "t = [] \<or> t = [16]" using wf by (auto simp: wf_Short)
  obtain ck where ck: "hexToCompact nk = Some ck" using compact_of [OF nk(2,3)] nk(1) by metis
  obtain k v where "holds db (ShortNode nk c fl) k v" using wf_holds [OF wf] ShortNode.prems(2) by blast
  then have "length nk \<le> 2 ^ 58" using ShortNode.prems(3) by (fastforce simp: small_def holds_Short)
  then have "length (rlp_str ck @ node_ref keccak c) \<le> 2 ^ 59 + 51"
    using hexToCompact_length [OF ck] rlp_len(1) [of ck] ref_small [of keccak c db] assms(1) c(2,4) by simp
  then show ?case using rlp_len(2) [of "rlp_str ck @ node_ref keccak c"] ck c ShortNode.IH by simp
next
  case (FullNode cs fl)
  have wf: "wf_node db (FullNode cs fl)" using FullNode.prems by simp
  note cs = wf_Full_child [OF wf]
  have ch: "loaded c" "small db c" "c = NilNode \<or> (\<exists>v. c = ValueNode v) \<or> wf_node db c" if c: "c \<in> set cs" for c
  proof -
    obtain i where i: "i < 17" "c = cs ! i" using c cs(1) by (auto simp: in_set_conv_nth)
    show "loaded c" using FullNode.prems(2) c by (simp add: list_all_iff)
    show "c = NilNode \<or> (\<exists>v. c = ValueNode v) \<or> wf_node db c" using cs(2) i by simp
    have "holds db (FullNode cs fl) (of_nat i # k) v" if "holds db c k v" for k v
      using that i cs(1) by (simp add: holds_Full unat_of_nat)
    then show "small db c" using FullNode.prems(3) by (fastforce simp: small_def)
  qed
  have "length (concat (map (node_ref keccak) cs)) \<le> 17 * (2 ^ 58 + 41)"
    using concat_small [of cs "node_ref keccak" "2 ^ 58 + 41"] ref_small [of keccak _ db] assms(1) ch(1,2) cs(1) by simp
  then have "length (node_enc keccak (FullNode cs fl)) < 2 ^ 63" using rlp_len(2) [of "concat (map (node_ref keccak) cs)"] by simp
  moreover have "\<not> inner (cs ! j)" if "j < length cs" "16 \<le> j" for j
  proof -
    have "j = 16" using that cs(1) by simp
    then show ?thesis using wf by (auto simp: wf_Full)
  qed
  ultimately show ?case using FullNode.IH ch by (auto simp: list_all_iff)
qed (use assms in auto)

section \<open>The root hash\<close>

lemma strip_Short: "strip n = ShortNode nk c fl \<longleftrightarrow> (\<exists>c' fl'. n = ShortNode nk c' fl' \<and> strip c' = c \<and> fl = newFlag)"
  by (cases n) auto

lemma strip_Full: "strip n = FullNode cs fl \<longleftrightarrow> (\<exists>cs' fl'. n = FullNode cs' fl' \<and> map strip cs' = cs \<and> fl = newFlag)"
  by (cases n) auto

lemma strip_leaf: "strip n = NilNode \<longleftrightarrow> n = NilNode" "strip n = ValueNode v \<longleftrightarrow> n = ValueNode v" "strip n = HashNode h \<longleftrightarrow> n = HashNode h"
  by (cases n; auto)+

lemmas strip_simps = strip_Short strip_Full strip_leaf

lemma strip_nth: "map strip cs = map strip ds \<Longrightarrow> i < length cs \<Longrightarrow> length ds = length cs \<and> strip (ds ! i) = strip (cs ! i)"
  by (metis length_map nth_map)

lemma strip_holds: "holds db a k v \<Longrightarrow> strip b = strip a \<Longrightarrow> holds db b k v"
proof (induction arbitrary: b rule: holds.induct)
  case (full_holds c cs k v fl)
  then obtain ds fl2 where b: "b = FullNode ds fl2" "map strip ds = map strip cs" by (auto simp: strip_Full)
  have "length ds = length cs" "strip (ds ! unat c) = strip (cs ! unat c)"
    using strip_nth [of cs ds "unat c"] b(2) full_holds.hyps by auto
  then show ?case using full_holds b by (simp add: holds_Full)
qed (auto simp: strip_simps holds_Short holds_Hash)

lemma strip_wf: "wf_node db a \<Longrightarrow> strip b = strip a \<Longrightarrow> wf_node db b"
proof (induction arbitrary: b rule: wf_node.induct)
  case (ext ns c fl)
  then obtain c' fl' where b: "b = ShortNode ns c' fl'" "strip c' = strip c" by (auto simp: strip_Short)
  have "branch db c'" using ext.hyps(4) b(2) by (cases c) (auto simp: strip_simps)
  then show ?case using ext b by (simp add: wf_Short)
next
  case (full cs i j fl)
  then obtain ds fl2 where b: "b = FullNode ds fl2" "map strip ds = map strip cs" by (auto simp: strip_Full)
  have n: "length ds = 17" "\<And>i. i < 17 \<Longrightarrow> strip (ds ! i) = strip (cs ! i)"
    using strip_nth [of cs ds] b(2) full.hyps(1) map_eq_imp_length_eq by metis+
  have nil: "ds ! i = NilNode \<longleftrightarrow> cs ! i = NilNode" if "i < 17" for i using n(2) [OF that] by (metis strip_leaf(1))
  show ?case unfolding b(1)
  proof (rule wf_node.full)
    show "\<forall>i<16. ds ! i = NilNode \<or> wf_node db (ds ! i)"
    proof (intro allI impI)
      fix i :: nat assume "i < 16"
      then show "ds ! i = NilNode \<or> wf_node db (ds ! i)" using full.IH n(2) [of i] nil [of i] by auto
    qed
    show "ds ! 16 = NilNode \<or> (\<exists>v. v \<noteq> [] \<and> ds ! 16 = ValueNode v)" using full.hyps(2) n(2) [of 16] by (auto simp: strip_leaf)
    show "ds ! i \<noteq> NilNode" "ds ! j \<noteq> NilNode" using full.hyps nil [of i] nil [of j] by simp_all
  qed (use full.hyps n(1) in simp_all)
qed (auto simp: strip_simps wf_Short wf_Hash)

lemma strip_loaded: "strip b = strip a \<Longrightarrow> loaded a \<Longrightarrow> loaded b"
proof (induction a arbitrary: b)
  case (FullNode cs fl)
  then obtain ds fl2 where b: "b = FullNode ds fl2" "map strip ds = map strip cs" by (auto simp: strip_Full)
  have "loaded (ds ! i)" if "i < length cs" for i
    using FullNode.IH [of "cs ! i" "ds ! i"] FullNode.prems(2) strip_nth [of cs ds i] b(2) that by (simp add: list_all_length)
  then show ?case using b map_eq_imp_length_eq [OF b(2)] by (simp add: list_all_length)
qed (auto simp: strip_simps)

text \<open>A client of the trie: updates, with hashes taken at any time in between.\<close>

datatype trie_op = UpdateOp bytes bytes | HashOp

fun trie_ops :: "(bytes \<Rightarrow> bytes) \<Rightarrow> node_db \<Rightarrow> Trie \<Rightarrow> trie_op list \<Rightarrow> Trie option" where
  "trie_ops keccak db t [] = Some t"
| "trie_ops keccak db t (UpdateOp key v # ops) = (case TryUpdate db key v t of None \<Rightarrow> None | Some (_, t') \<Rightarrow> trie_ops keccak db t' ops)"
| "trie_ops keccak db t (HashOp # ops) = (case trie_Hash keccak t of None \<Rightarrow> None | Some (_, t') \<Rightarrow> trie_ops keccak db t' ops)"

fun op_map :: "(bytes \<rightharpoonup> bytes) \<Rightarrow> trie_op \<Rightarrow> (bytes \<rightharpoonup> bytes)" where
  "op_map m (UpdateOp key v) = map_update m (key, v)"
| "op_map m HashOp = m"

fun op_small :: "trie_op \<Rightarrow> bool" where
  "op_small (UpdateOp key v) \<longleftrightarrow> length key < 2 ^ 57 \<and> length v \<le> 2 ^ 58"
| "op_small HashOp \<longleftrightarrow> True"

definition small_map :: "(bytes \<rightharpoonup> bytes) \<Rightarrow> bool" where
  "small_map m \<longleftrightarrow> (\<forall>k v. m k = Some v \<longrightarrow> length k < 2 ^ 57 \<and> length v \<le> 2 ^ 58)"

definition tracked :: "(bytes \<Rightarrow> bytes) \<Rightarrow> node_db \<Rightarrow> Trie \<Rightarrow> (bytes \<rightharpoonup> bytes) \<Rightarrow> bool" where
  "tracked keccak db t m \<longleftrightarrow> trie_inv db t \<and> loaded (t_root t) \<and> represents db t m \<and> caches_right keccak True (t_root t) \<and> small_map m"

lemma caches_mono: "caches_right keccak False n \<Longrightarrow> caches_right keccak True n"
  by (cases n) (auto simp: cache_right_def)

lemma small_update: "small_map m \<Longrightarrow> op_small (UpdateOp key v) \<Longrightarrow> small_map (map_update m (key, v))"
  by (auto simp: small_map_def map_update_def)

lemma tracked_small: "tracked keccak db t m \<Longrightarrow> small db (t_root t)"
  by (fastforce simp: tracked_def small_def represents_def small_map_def keybytesToHex_def)

lemma TryUpdate_tracked:
  assumes "tracked keccak db t m" "op_small (UpdateOp key v)"
  obtains t' where "TryUpdate db key v t = Some (None, t')" "tracked keccak db t' (map_update m (key, v))"
proof -
  have t: "trie_inv db t" "loaded (t_root t)" "represents db t m" "caches_right keccak True (t_root t)" "small_map m"
    using assms(1) by (simp_all add: tracked_def)
  show thesis
  proof (cases rule: TryUpdate_ok [OF t(1), of key v, case_names ok fail])
    case (ok t')
    have "loaded (t_root t')" using ok(4) t(2) loaded_iff by blast
    moreover have "caches_right keccak True (t_root t')"
    proof -
      let ?k = "keybytesToHex key"
      obtain d n where r: "(if length v \<noteq> 0 then trie_insert (trie_fuel ?k) db (t_root t) [] ?k (ValueNode v)
          else trie_delete (trie_fuel ?k) db (t_root t) [] ?k) = Some (Inr (d, n))" "t_root t' = n"
        using ok(1) by (cases "v = []") (auto simp: TryUpdate_def Let_def split: option.splits sum.splits)
      have "if d then caches_right keccak False n else n = t_root t"
      proof (cases "length v \<noteq> 0")
        case True
        then show ?thesis using insert_caches [of "trie_fuel ?k" db "t_root t" "[]" ?k "ValueNode v" d n keccak True] r(1) t(2,4) by simp
      next
        case False
        then show ?thesis using delete_caches [of "trie_fuel ?k" db "t_root t" "[]" ?k d n keccak True] r(1) t(2,4) by (cases d) simp_all
      qed
      then show ?thesis using r(2) t(4) caches_mono by (cases d) simp_all
    qed
    ultimately show thesis using that ok(1,2) ok(3) [OF t(3)] small_update [OF t(5) assms(2)] by (simp add: tracked_def)
  next
    case (fail e t')
    then show thesis using t(2) loaded_iff by (auto simp: missing_def)
  qed
qed

definition root_digest :: "(bytes \<Rightarrow> bytes) \<Rightarrow> trie_node \<Rightarrow> bytes" where
  "root_digest keccak n = (if n = NilNode then emptyRoot else keccak (node_enc keccak n))"

lemma trie_Hash_tracked:
  assumes "\<And>b. length (keccak b) = 32" "tracked keccak db t m"
  obtains t' where "trie_Hash keccak t = Some (root_digest keccak (t_root t), t')" "tracked keccak db t' m" "strip (t_root t') = strip (t_root t)"
proof (cases "t_root t = NilNode")
  case True
  then show thesis using that [of t] assms(2) by (simp add: trie_Hash_def hashRoot_def root_digest_def BytesToHash_def emptyRoot_def)
next
  case False
  have t: "trie_inv db t" "loaded (t_root t)" "represents db t m" "caches_right keccak True (t_root t)" "small_map m"
    using assms(2) by (simp_all add: tracked_def)
  have wf: "wf_node db (t_root t)" using t(1) False by (simp add: trie_inv_def)
  then have "inner (t_root t)" using t(2) by (cases "t_root t") auto
  moreover have "sized keccak (t_root t)" using wf_sized [of keccak "t_root t" db] assms(1) wf t(2) tracked_small [OF assms(2)] by blast
  ultimately obtain h c where r: "hash_node keccak (t_root t) True = Some (h, c)" "hashed_right keccak (t_root t) True (h, c)"
    using hash_node_right(1) [of "t_root t" keccak True] t(4) by auto
  have c: "h = HashNode (keccak (node_enc keccak (t_root t)))" "strip c = strip (t_root t)" "caches_right keccak True c"
    using r(2) by (auto simp: hashed_right_def)
  let ?t = "t\<lparr>t_unhashed := 0, t_root := c\<rparr>"
  have "trie_Hash keccak t = Some (root_digest keccak (t_root t), ?t)"
    using r(1) c(1) False assms(1) by (simp add: trie_Hash_def hashRoot_def root_digest_def BytesToHash_def)
  moreover have "holds db c k v \<longleftrightarrow> holds db (t_root t) k v" for k v using strip_holds c(2) by metis
  then have "tracked keccak db ?t m" using t c strip_wf [OF wf c(2)] strip_loaded [OF c(2)]
    by (simp add: tracked_def trie_inv_def represents_def)
  ultimately show thesis using that c(2) by simp
qed

lemma trie_ops_tracked:
  assumes "\<And>b. length (keccak b) = 32" "tracked keccak db t m" "list_all op_small ops"
  shows "\<exists>t'. trie_ops keccak db t ops = Some t' \<and> tracked keccak db t' (foldl op_map m ops)"
  using assms(2,3)
proof (induction ops arbitrary: t m)
  case (Cons p ops)
  show ?case
  proof (cases p)
    case (UpdateOp key v)
    then obtain t' where "TryUpdate db key v t = Some (None, t')" "tracked keccak db t' (map_update m (key, v))"
      using TryUpdate_tracked [OF Cons.prems(1), of key v] Cons.prems(2) by auto
    then show ?thesis using Cons.IH [of t' "map_update m (key, v)"] UpdateOp Cons.prems(2) by simp
  next
    case HashOp
    obtain t' where "trie_Hash keccak t = Some (root_digest keccak (t_root t), t')" "tracked keccak db t' m"
      using trie_Hash_tracked [of keccak db t m] assms(1) Cons.prems(1) by blast
    then show ?thesis using Cons.IH [of t' m] HashOp Cons.prems(2) by simp
  qed
qed simp

text \<open>
  Claim C2. The root hash commits to the content only: two clients that update an empty trie in any order, with
  deletions and with hashes taken at any time in between, and that end with the same map, read the same root hash. No
  operation panics, for keys shorter than \<open>2 ^ 57\<close> and values of at most \<open>2 ^ 58\<close> bytes. The hash function is a parameter of
  which only the length of its results, 32 bytes, is used.
\<close>

theorem root_hash_content:
  assumes "\<And>b. length (keccak b) = 32" "list_all op_small ps" "list_all op_small qs"
    "foldl op_map Map.empty ps = foldl op_map Map.empty qs"
  shows "\<exists>t1 t2 h t1' t2'. trie_ops keccak db \<lparr>t_root = NilNode, t_unhashed = 0\<rparr> ps = Some t1 \<and>
     trie_ops keccak db \<lparr>t_root = NilNode, t_unhashed = 0\<rparr> qs = Some t2 \<and>
     trie_Hash keccak t1 = Some (h, t1') \<and> trie_Hash keccak t2 = Some (h, t2')"
proof -
  let ?t = "\<lparr>t_root = NilNode, t_unhashed = 0\<rparr>"
  have start: "tracked keccak db ?t Map.empty" by (simp add: tracked_def trie_inv_def represents_def small_map_def)
  obtain t1 where t1: "trie_ops keccak db ?t ps = Some t1" "tracked keccak db t1 (foldl op_map Map.empty ps)"
    using trie_ops_tracked [of keccak db ?t Map.empty ps] assms(1,2) start by blast
  obtain t2 where t2: "trie_ops keccak db ?t qs = Some t2" "tracked keccak db t2 (foldl op_map Map.empty ps)"
    using trie_ops_tracked [of keccak db ?t Map.empty qs] assms(1,3) start assms(4) by auto
  have "holds db (t_root t1) k v \<longleftrightarrow> holds db (t_root t2) k v" for k v
    using t1(2) t2(2) by (simp add: tracked_def represents_def)
  then have "strip (t_root t1) = strip (t_root t2)"
    using content_canonical [of "t_root t1" db "t_root t2"] t1(2) t2(2) by (auto simp: tracked_def trie_inv_def)
  then have "root_digest keccak (t_root t1) = root_digest keccak (t_root t2)"
    unfolding root_digest_def by (metis node_enc_same strip_leaf(1))
  moreover obtain t1' where "trie_Hash keccak t1 = Some (root_digest keccak (t_root t1), t1')"
    using trie_Hash_tracked [of keccak db t1] assms(1) t1(2) by blast
  moreover obtain t2' where "trie_Hash keccak t2 = Some (root_digest keccak (t_root t2), t2')"
    using trie_Hash_tracked [of keccak db t2] assms(1) t2(2) by blast
  ultimately show ?thesis using t1(1) t2(1) by auto
qed

text \<open>Instance: a toy digest of 32 bytes, insertions in another order, a deletion, and a hash in between.\<close>

theorem root_hash_content_witness:
  "\<exists>t1 t2 h t1' t2'. trie_ops (\<lambda>b. take 32 (b @ replicate 32 0)) (\<lambda>h. None) \<lparr>t_root = NilNode, t_unhashed = 0\<rparr>
       [UpdateOp [1] [5], UpdateOp [2] [6]] = Some t1 \<and>
     trie_ops (\<lambda>b. take 32 (b @ replicate 32 0)) (\<lambda>h. None) \<lparr>t_root = NilNode, t_unhashed = 0\<rparr>
       [UpdateOp [2] [6], HashOp, UpdateOp [3] [7], HashOp, UpdateOp [3] [], UpdateOp [1] [5]] = Some t2 \<and>
     trie_Hash (\<lambda>b. take 32 (b @ replicate 32 0)) t1 = Some (h, t1') \<and> trie_Hash (\<lambda>b. take 32 (b @ replicate 32 0)) t2 = Some (h, t2')"
  by (rule root_hash_content) (auto simp: map_update_def)

end
