(* ===== verification/TrieProof.thy ===== *)
theory TrieProof
  imports TrieHash
begin

text \<open>
  Merkle proofs (\<open>trie/proof.go\<close>, \<open>hasher.proofHash\<close>): \<open>Prove\<close> collects the stored nodes on the path of a key, \<open>VerifyProof\<close> follows
  the hashes from a root hash through a database of such nodes. Proofs are complete, and they are sound for every database
  whose entries do not collide with nodes of the trie.
\<close>

section \<open>Verification\<close>

text \<open>\<open>get\<close> walks down the nodes that are there; indexing an empty key or a missing child is a panic.\<close>

lemma child_size: "i < length cs \<Longrightarrow> size (cs ! i) < Suc (size_list size (cs :: trie_node list))"
  using size_list_estimation' [of "cs ! i" cs "size (cs ! i)" size] by auto

function proof_get :: "trie_node \<Rightarrow> bytes \<Rightarrow> bool \<Rightarrow> (bytes \<times> trie_node) option" where
  "proof_get (ShortNode nk val fl) key skipResolved =
     (if length key < length nk \<or> nk \<noteq> take (length nk) key then Some ([], NilNode)
      else if \<not> skipResolved then Some (drop (length nk) key, val)
      else proof_get val (drop (length nk) key) skipResolved)"
| "proof_get (FullNode cs fl) key skipResolved =
     (if key = [] \<or> length cs \<le> unat (key ! 0) then None
      else if \<not> skipResolved then Some (drop 1 key, cs ! unat (key ! 0))
      else proof_get (cs ! unat (key ! 0)) (drop 1 key) skipResolved)"
| "proof_get (HashNode h) key skipResolved = Some (key, HashNode h)"
| "proof_get NilNode key skipResolved = Some (key, NilNode)"
| "proof_get (ValueNode v) key skipResolved = Some ([], ValueNode v)"
  by pat_completeness auto
termination
  by (relation "measure (\<lambda>(n, key, b). size n)") (auto simp: child_size)

datatype proof_error = ProofMissing nat bytes | BadProof nat node_error

type_synonym proof_db = "bytes \<rightharpoonup> bytes"

text \<open>The loop of \<open>VerifyProof\<close>, with a bound on its rounds; \<open>None\<close> is a panic or no result within the bound.\<close>

fun VerifyProof_loop :: "nat \<Rightarrow> proof_db \<Rightarrow> nat \<Rightarrow> bytes \<Rightarrow> bytes \<Rightarrow> (proof_error + bytes option) option" where
  "VerifyProof_loop 0 proofDb i wantHash key = None"
| "VerifyProof_loop (Suc f) proofDb i wantHash key =
     (case proofDb wantHash of
        None \<Rightarrow> Some (Inl (ProofMissing i wantHash))
      | Some buf \<Rightarrow>
          (case decodeNode (Some wantHash) buf of
             None \<Rightarrow> None
           | Some (Inl e) \<Rightarrow> Some (Inl (BadProof i e))
           | Some (Inr n) \<Rightarrow>
               (case proof_get n key True of
                  None \<Rightarrow> None
                | Some (keyrest, NilNode) \<Rightarrow> Some (Inr None)
                | Some (keyrest, HashNode cld) \<Rightarrow> VerifyProof_loop f proofDb (i + 1) (go_copy wantHash cld) keyrest
                | Some (keyrest, ValueNode cld) \<Rightarrow> Some (Inr (Some cld))
                | Some (keyrest, _) \<Rightarrow> VerifyProof_loop f proofDb (i + 1) wantHash key)))"

definition VerifyProof :: "nat \<Rightarrow> bytes \<Rightarrow> bytes \<Rightarrow> proof_db \<Rightarrow> (proof_error + bytes option) option" where
  "VerifyProof f rootHash key proofDb = VerifyProof_loop f proofDb 0 rootHash (keybytesToHex key)"

section \<open>Construction\<close>

text \<open>The nodes on the path of a key.\<close>

fun prove_path :: "nat \<Rightarrow> node_db \<Rightarrow> trie_node \<Rightarrow> bytes \<Rightarrow> trie_node list \<Rightarrow> (trie_error + trie_node list) option" where
  "prove_path 0 db tn key nodes = None"
| "prove_path (Suc f) db tn key nodes =
     (if length key = 0 \<or> tn = NilNode then Some (Inr nodes)
      else
        case tn of
          ShortNode nk val fl \<Rightarrow>
            if length key < length nk \<or> nk \<noteq> take (length nk) key then prove_path f db NilNode key (nodes @ [tn])
            else prove_path f db val (drop (length nk) key) (nodes @ [tn])
        | FullNode cs fl \<Rightarrow>
            if length cs \<le> unat (key ! 0) then None
            else prove_path f db (cs ! unat (key ! 0)) (drop 1 key) (nodes @ [tn])
        | HashNode h \<Rightarrow>
            (case resolveHash db h [] of
               Inl e \<Rightarrow> Some (Inl e)
             | Inr rn \<Rightarrow> prove_path f db rn key nodes)
        | _ \<Rightarrow> None)"

text \<open>\<open>proofHash\<close>: the collapsed node, and its hash or the node itself when it is small. The cached hash of the node is not used.\<close>

definition proofHash :: "(bytes \<Rightarrow> bytes) \<Rightarrow> trie_node \<Rightarrow> (trie_node \<times> trie_node) option" where
  "proofHash keccak original =
     (case original of
        ShortNode key c fl \<Rightarrow>
          (case hexToCompact key of
             None \<Rightarrow> None
           | Some ck \<Rightarrow>
               (case (case c of FullNode _ _ \<Rightarrow> hash_node keccak c False | ShortNode _ _ _ \<Rightarrow> hash_node keccak c False | _ \<Rightarrow> Some (c, c)) of
                  None \<Rightarrow> None
                | Some (collapsed, _) \<Rightarrow> map_option (Pair (ShortNode ck collapsed fl)) (nodeToHash keccak (ShortNode ck collapsed fl) False)))
      | FullNode cs fl \<Rightarrow>
          (case hash_children keccak 0 cs of
             None \<Rightarrow> None
           | Some (collapsed, _) \<Rightarrow> map_option (Pair (FullNode collapsed fl)) (nodeToHash keccak (FullNode collapsed fl) False))
      | n \<Rightarrow> Some (n, n))"

text \<open>\<open>rlp.EncodeToBytes\<close> with its error dropped.\<close>

definition enc_or_nil :: "trie_node \<Rightarrow> bytes" where
  "enc_or_nil n = (case EncodeToBytes (node_val n) of Inr (Some b) \<Rightarrow> b | _ \<Rightarrow> [])"

fun prove_put :: "(bytes \<Rightarrow> bytes) \<Rightarrow> nat \<Rightarrow> nat \<Rightarrow> trie_node list \<Rightarrow> proof_db \<Rightarrow> proof_db option" where
  "prove_put keccak i fromLevel [] proofDb = Some proofDb"
| "prove_put keccak i fromLevel (n # nodes) proofDb =
     (if 0 < fromLevel then prove_put keccak (i + 1) (fromLevel - 1) nodes proofDb
      else
        case proofHash keccak n of
          None \<Rightarrow> None
        | Some (n1, hn) \<Rightarrow>
            prove_put keccak (i + 1) fromLevel nodes
              (case hn of
                 HashNode hash \<Rightarrow> proofDb(hash \<mapsto> enc_or_nil n1)
               | _ \<Rightarrow> if i = 0 then proofDb(keccak (enc_or_nil n1) \<mapsto> enc_or_nil n1) else proofDb))"

definition Prove :: "(bytes \<Rightarrow> bytes) \<Rightarrow> node_db \<Rightarrow> Trie \<Rightarrow> bytes \<Rightarrow> nat \<Rightarrow> proof_db \<Rightarrow> (trie_error option \<times> proof_db) option" where
  "Prove keccak db t key0 fromLevel proofDb =
     (let key = keybytesToHex key0
      in case prove_path (trie_fuel key) db (t_root t) key [] of
           None \<Rightarrow> None
         | Some (Inl e) \<Rightarrow> Some (Some e, proofDb)
         | Some (Inr nodes) \<Rightarrow> map_option (Pair None) (prove_put keccak 0 fromLevel nodes proofDb))"

section \<open>Stored nodes\<close>

text \<open>A node with its large inner children replaced by their hashes: what the stored encoding describes.\<close>

fun collapse :: "(bytes \<Rightarrow> bytes) \<Rightarrow> trie_node \<Rightarrow> trie_node" and ref_node :: "(bytes \<Rightarrow> bytes) \<Rightarrow> trie_node \<Rightarrow> trie_node" where
  "collapse keccak (ShortNode key c fl) = ShortNode key (ref_node keccak c) fl"
| "collapse keccak (FullNode cs fl) = FullNode (map (ref_node keccak) cs) fl"
| "collapse keccak n = n"
| "ref_node keccak (ShortNode key c fl) =
     (if length (node_enc keccak (ShortNode key c fl)) < 32 then collapse keccak (ShortNode key c fl) else HashNode (keccak (node_enc keccak (ShortNode key c fl))))"
| "ref_node keccak (FullNode cs fl) =
     (if length (node_enc keccak (FullNode cs fl)) < 32 then collapse keccak (FullNode cs fl) else HashNode (keccak (node_enc keccak (FullNode cs fl))))"
| "ref_node keccak n = n"

lemma ref_node_Nil [simp]: "ref_node keccak n = NilNode \<longleftrightarrow> n = NilNode"
  by (cases n) auto

lemma ref_inner: "inner n \<Longrightarrow> ref_node keccak n = (if length (node_enc keccak n) < 32 then collapse keccak n else HashNode (keccak (node_enc keccak n)))"
  by (cases n) simp_all

lemma wf_inner: "wf_node db n \<Longrightarrow> loaded n \<Longrightarrow> inner n"
  by (cases n) auto

lemma ref_disk:
  assumes "\<And>b. length (keccak b) = 32" "inner c" "disk_node (collapse keccak c)" "enc_node (collapse keccak c) = node_enc keccak c"
  shows "disk_ref (ref_node keccak c)" "enc_node (ref_node keccak c) = node_ref keccak c"
  using assms ref_hash ref_embedded [OF assms(3)] by (cases c; simp)+

lemma collapse_disk:
  assumes "\<And>b. length (keccak b) = 32"
  shows "wf_node db n \<Longrightarrow> loaded n \<Longrightarrow> disk_node (collapse keccak n) \<and> enc_node (collapse keccak n) = node_enc keccak n"
proof (induction rule: wf_node.induct)
  case (leaf ns v fl)
  obtain k where "hexToCompact (ns @ [16]) = Some k" using compact_of [OF leaf(1)] by blast
  then show ?case using disk_leaf [OF leaf(1)] enc_Short [of "ValueNode v" "ns @ [16]" k fl] by simp
next
  case (ext ns c fl)
  have c: "inner c" "disk_node (collapse keccak c)" "enc_node (collapse keccak c) = node_enc keccak c"
    using ext wf_inner by auto
  note r = ref_disk [of keccak, OF assms c]
  obtain k where k: "hexToCompact ns = Some k" using compact_of [OF ext.hyps(1), of "[]"] by auto
  have "ref_node keccak c \<noteq> NilNode" using c(1) by auto
  then show ?case using disk_ext [OF ext.hyps(1) r(1)] enc_Short [of "ref_node keccak c" ns k fl] k r(2) by simp
next
  case (full cs i j fl)
  have ch: "enc_child (ref_node keccak (cs ! l)) = node_ref keccak (cs ! l) \<and> (l < 16 \<longrightarrow> ref_node keccak (cs ! l) = NilNode \<or> disk_ref (ref_node keccak (cs ! l)))"
    if "l < 17" for l
  proof (cases "l < 16 \<and> cs ! l \<noteq> NilNode")
    case True
    then have "loaded (cs ! l)" "wf_node db (cs ! l)" using full by (auto simp: list_all_length)
    moreover have "disk_node (collapse keccak (cs ! l))" "enc_node (collapse keccak (cs ! l)) = node_enc keccak (cs ! l)" using full.IH True calculation(1) by auto
    ultimately show ?thesis using ref_disk [of keccak "cs ! l"] assms wf_inner True by (auto simp: enc_child_def)
  next
    case False
    then have "cs ! l = NilNode \<or> (l = 16 \<and> (\<exists>v. cs ! l = ValueNode v))" using that full.hyps(2) by (cases "l = 16") auto
    then show ?thesis by (auto simp: enc_child_def)
  qed
  let ?rs = "map (ref_node keccak) cs"
  have "?rs = take 16 ?rs @ [?rs ! 16]" using full.hyps(1) take_Suc_conv_app_nth [of 16 ?rs] by simp
  moreover have "disk_node (FullNode (take 16 ?rs @ [?rs ! 16]) fl)"
  proof (rule disk_full)
    show "length (take 16 ?rs) = 16" using full.hyps(1) by simp
    have "ref_node keccak (cs ! l) = NilNode \<or> disk_ref (ref_node keccak (cs ! l))" if "l < 16" for l using ch [of l] that by simp
    then show "\<forall>c\<in>set (take 16 ?rs). c = NilNode \<or> disk_ref c" using full.hyps(1) by (fastforce simp: in_set_conv_nth)
    show "?rs ! 16 = NilNode \<or> (\<exists>b. b \<noteq> [] \<and> ?rs ! 16 = ValueNode b)" using full.hyps(1,2) by auto
  qed
  moreover have "map enc_child ?rs = map (node_ref keccak) cs" using ch full.hyps(1) by (intro nth_equalityI) simp_all
  then have "concat (map enc_child ?rs) = concat (map (node_ref keccak) cs)" by (rule arg_cong)
  ultimately show ?case by (simp only: collapse.simps enc_Full node_enc.simps)
qed auto

section \<open>Walking through a stored node\<close>

inductive below :: "trie_node \<Rightarrow> trie_node \<Rightarrow> bool" where
  below_refl: "inner n \<Longrightarrow> below n n"
| below_short: "below x c \<Longrightarrow> below x (ShortNode key c fl)"
| below_full: "c \<in> set cs \<Longrightarrow> below x c \<Longrightarrow> below x (FullNode cs fl)"

text \<open>The inner nodes that the walk passes.\<close>

function path_nodes :: "trie_node \<Rightarrow> bytes \<Rightarrow> trie_node list" where
  "path_nodes (ShortNode nk c fl) key =
     ShortNode nk c fl # (if length key < length nk \<or> nk \<noteq> take (length nk) key then [] else path_nodes c (drop (length nk) key))"
| "path_nodes (FullNode cs fl) key = FullNode cs fl # (if key = [] \<or> length cs \<le> unat (key ! 0) then [] else path_nodes (cs ! unat (key ! 0)) (drop 1 key))"
| "path_nodes NilNode key = []"
| "path_nodes (HashNode h) key = []"
| "path_nodes (ValueNode v) key = []"
  by pat_completeness auto
termination
  by (relation "measure (\<lambda>(n, key). size n)") (auto simp: child_size)

lemma below_child: "below c (cs ! i) \<Longrightarrow> i < length cs \<Longrightarrow> below c (FullNode cs fl)"
  by (blast intro: below_full nth_mem)

lemma path_below: "c \<in> set (path_nodes n key) \<Longrightarrow> below c n"
  by (induction n key rule: path_nodes.induct) (auto intro: below_refl below_short below_child split: if_splits)

text \<open>The result of the walk: nothing, a value, or the hash of a node below where the rest of the key leads on.\<close>

definition hash_of :: "(bytes \<Rightarrow> bytes) \<Rightarrow> node_db \<Rightarrow> trie_node \<Rightarrow> bytes \<Rightarrow> trie_node \<Rightarrow> bytes \<Rightarrow> bool" where
  "hash_of keccak db n key c rest \<longleftrightarrow> (\<exists>ps. path_nodes n key = ps @ path_nodes c rest) \<and> wf_node db c \<and> loaded c \<and> 32 \<le> length (node_enc keccak c) \<and> term_key rest \<and>
     (\<forall>v. holds db n key v \<longleftrightarrow> holds db c rest v)"

definition found :: "(bytes \<Rightarrow> bytes) \<Rightarrow> node_db \<Rightarrow> trie_node \<Rightarrow> bytes \<Rightarrow> nat \<Rightarrow> bytes \<times> trie_node \<Rightarrow> bool" where
  "found keccak db n key len r \<longleftrightarrow>
     (\<exists>rest. r = (rest, NilNode) \<and> (\<forall>v. \<not> holds db n key v)) \<or>
     (\<exists>rest v. r = (rest, ValueNode v) \<and> holds db n key v) \<or>
     (\<exists>c rest. r = (rest, HashNode (keccak (node_enc keccak c))) \<and> hash_of keccak db n key c rest \<and> length rest < len)"

lemma found_mono: "found keccak db n key len r \<Longrightarrow> len \<le> len' \<Longrightarrow> found keccak db n key len' r"
  by (fastforce simp: found_def)

lemma found_step:
  assumes "found keccak db n' key' len r" "path_nodes n key = x # path_nodes n' key'" "\<And>v. holds db n key v \<longleftrightarrow> holds db n' key' v"
  shows "found keccak db n key len r"
proof -
  have "hash_of keccak db n key c rest" if h: "hash_of keccak db n' key' c rest" for c rest
  proof -
    obtain ps where "path_nodes n' key' = ps @ path_nodes c rest" using h by (auto simp: hash_of_def)
    then have "path_nodes n key = (x # ps) @ path_nodes c rest" using assms(2) by simp
    then show ?thesis using h assms(3) unfolding hash_of_def by blast
  qed
  then show ?thesis using assms(1) unfolding found_def assms(3) by blast
qed

lemma found_Short: "found keccak db c key len r \<Longrightarrow> found keccak db (ShortNode nk c fl) (nk @ key) len r"
  by (rule found_step [where n' = c and key' = key and x = "ShortNode nk c fl"]) (auto simp: holds_Short)

lemma found_Full: "found keccak db (cs ! unat k) key len r \<Longrightarrow> unat k < length cs \<Longrightarrow> found keccak db (FullNode cs fl) (k # key) len r"
  by (rule found_step [where n' = "cs ! unat k" and key' = key and x = "FullNode cs fl"]) (auto simp: holds_Full)

lemma get_ref:
  assumes "fits db n key" "loaded n"
    "wf_node db n \<Longrightarrow> term_key key \<Longrightarrow> \<exists>r. proof_get (decoded None (collapse keccak n)) key True = Some r \<and> found keccak db n key (length key) r"
  shows "\<exists>r. proof_get (decoded None (ref_node keccak n)) key True = Some r \<and> found keccak db n key (Suc (length key)) r"
proof -
  consider "n = NilNode" | v where "key = []" "n = ValueNode v" | "term_key key" "wf_node db n" using assms(1) by (auto simp: fits_def)
  then show ?thesis
  proof cases
    case 1
    then show ?thesis by (simp add: found_def)
  next
    case 2
    then show ?thesis by (simp add: found_def)
  next
    case 3
    then have i: "inner n" using wf_inner assms(2) by blast
    show ?thesis
    proof (cases "length (node_enc keccak n) < 32")
      case True
      then show ?thesis using assms(3) [OF 3(2,1)] found_mono [of keccak db n key "length key" _ "Suc (length key)"] ref_inner [OF i, of keccak] by auto
    next
      case False
      then show ?thesis using 3 assms(2) i by (auto simp: ref_inner found_def hash_of_def)
    qed
  qed
qed

lemma get_collapse:
  "wf_node db n \<Longrightarrow> term_key key \<Longrightarrow> loaded n \<Longrightarrow>
     \<exists>r. proof_get (decoded h (collapse keccak n)) key True = Some r \<and> found keccak db n key (length key) r"
proof (induction n arbitrary: key h)
  case (ShortNode nk c fl)
  show ?case
  proof (cases "length key < length nk \<or> nk \<noteq> take (length nk) key")
    case True
    then have "\<not> holds db (ShortNode nk c fl) key v" for v by (auto simp: holds_Short)
    then show ?thesis using True by (simp add: found_def)
  next
    case False
    then obtain k where key: "key = nk @ k" by (metis append_take_drop_id)
    then have k: "fits db c k" "nk \<noteq> []" using fits_Short_child [OF ShortNode.prems(1), of k] ShortNode.prems(1,2) by (auto simp: wf_Short)
    obtain r where r: "proof_get (decoded None (ref_node keccak c)) k True = Some r" "found keccak db c k (Suc (length k)) r"
      using get_ref [OF k(1), of keccak] ShortNode.IH [of k None] ShortNode.prems(3) by auto
    have "Suc (length k) \<le> length key" using key k(2) by (cases nk) auto
    then have "found keccak db (ShortNode nk c fl) key (length key) r" using found_mono [OF found_Short [OF r(2), of nk fl]] key by simp
    then show ?thesis using key r(1) by simp
  qed
next
  case (FullNode cs fl)
  obtain a k where key: "key = a # k" using FullNode.prems(2) by (cases key) auto
  note c = fits_Full_child [OF FullNode.prems(1), of a k]
  have c': "fits db (cs ! unat a) k" "unat a < length cs" using c FullNode.prems(2) key by auto
  obtain r where r: "proof_get (decoded None (ref_node keccak (cs ! unat a))) k True = Some r" "found keccak db (cs ! unat a) k (Suc (length k)) r"
    using get_ref [OF c'(1), of keccak] FullNode.IH [OF nth_mem [OF c'(2)], of k None] FullNode.prems(3) c'(2) by (auto simp: list_all_length)
  have "found keccak db (FullNode cs fl) key (length key) r" using found_Full [OF r(2) c'(2)] key by simp
  then show ?case using key c'(2) r(1) by simp
qed auto

lemma path_hd: "inner n \<Longrightarrow> \<exists>ps. path_nodes n key = n # ps"
  by (cases n) auto

section \<open>Verification of an arbitrary database\<close>

definition verified :: "(bytes \<Rightarrow> bytes) \<Rightarrow> node_db \<Rightarrow> proof_db \<Rightarrow> trie_node \<Rightarrow> bytes \<Rightarrow> bool \<Rightarrow> proof_error + bytes option \<Rightarrow> bool" where
  "verified keccak db proofDb n key root r =
     (case r of
        Inr v \<Rightarrow> \<forall>x. v = Some x \<longleftrightarrow> holds db n key x
      | Inl e \<Rightarrow> \<exists>j d. e = ProofMissing j (keccak (node_enc keccak d)) \<and> proofDb (keccak (node_enc keccak d)) = None \<and>
          d \<in> set (path_nodes n key) \<and> (root \<and> d = n \<or> 32 \<le> length (node_enc keccak d)))"

lemma verified_step:
  assumes "hash_of keccak db n key c rest" "verified keccak db proofDb c rest b r" "b \<Longrightarrow> 32 \<le> length (node_enc keccak c)"
  shows "verified keccak db proofDb n key b' r"
proof (cases r)
  case (Inl e)
  then obtain j d where d: "e = ProofMissing j (keccak (node_enc keccak d))" "proofDb (keccak (node_enc keccak d)) = None"
    "d \<in> set (path_nodes c rest)" "32 \<le> length (node_enc keccak d)"
    using assms(2,3) by (auto simp: verified_def)
  obtain ps where "path_nodes n key = ps @ path_nodes c rest" using assms(1) by (auto simp: hash_of_def)
  then have "d \<in> set (path_nodes n key)" using d(3) by simp
  then show ?thesis using Inl d by (auto simp: verified_def)
qed (use assms in \<open>simp add: verified_def hash_of_def\<close>)

lemma decodeNode_ok: "disk_node n \<Longrightarrow> length (enc_node n) < 2 ^ 63 \<Longrightarrow> decodeNode h (enc_node n) = Some (Inr (decoded h n))"
  using decode_node_ok [of n "length (enc_node n) + 1" "[]" h] unfolding decodeNode_def by simp

lemma VerifyProof_loop_ok:
  assumes "\<And>b. length (keccak b) = 32" "wf_node db n" "loaded n" "term_key key" "length key < f"
    "\<And>c. c \<in> set (path_nodes n key) \<Longrightarrow> length (node_enc keccak c) < 2 ^ 63"
    "\<And>c b. c \<in> set (path_nodes n key) \<Longrightarrow> proofDb (keccak (node_enc keccak c)) = Some b \<Longrightarrow> b = node_enc keccak c"
  shows "\<exists>r. VerifyProof_loop f proofDb i (keccak (node_enc keccak n)) key = Some r \<and> verified keccak db proofDb n key True r"
  using assms(2-)
proof (induction f arbitrary: i n key)
  case (Suc f)
  let ?h = "keccak (node_enc keccak n)"
  have n: "n \<in> set (path_nodes n key)" using path_hd [OF wf_inner [OF Suc.prems(1,2)]] by (metis list.set_intros(1))
  show ?case
  proof (cases "proofDb ?h")
    case None
    then have "verified keccak db proofDb n key True (Inl (ProofMissing i ?h))" using n unfolding verified_def sum.case by blast
    then show ?thesis using None by simp
  next
    case (Some b)
    then have b: "b = node_enc keccak n" using Suc.prems(6) [OF n] by simp
    note cd = collapse_disk [of keccak, OF assms(1) Suc.prems(1,2)]
    have dec: "decodeNode (Some ?h) b = Some (Inr (decoded (Some ?h) (collapse keccak n)))"
      using decodeNode_ok [of "collapse keccak n" "Some ?h"] cd b Suc.prems(5) [OF n] by simp
    obtain r where r: "proof_get (decoded (Some ?h) (collapse keccak n)) key True = Some r" "found keccak db n key (length key) r"
      using get_collapse [OF Suc.prems(1,3,2), of "Some ?h" keccak] by blast
    from r(2) consider (absent) rest where "r = (rest, NilNode)" "\<forall>v. \<not> holds db n key v"
      | (val) rest v where "r = (rest, ValueNode v)" "holds db n key v"
      | (link) c rest where "r = (rest, HashNode (keccak (node_enc keccak c)))" "hash_of keccak db n key c rest" "length rest < length key"
      unfolding found_def by blast
    then show ?thesis
    proof cases
      case absent
      then show ?thesis using Some dec r(1) by (simp add: verified_def)
    next
      case val
      have "verified keccak db proofDb n key True (Inr (Some v))" using val(2) holds_fun [OF val(2)] unfolding verified_def sum.case by blast
      then show ?thesis using Some dec r(1) val(1) by simp
    next
      case link
      have c: "wf_node db c" "loaded c" "term_key rest" "32 \<le> length (node_enc keccak c)" using link(2) by (simp_all add: hash_of_def)
      have sub: "d \<in> set (path_nodes c rest) \<Longrightarrow> d \<in> set (path_nodes n key)" for d using link(2) by (auto simp: hash_of_def)
      have "go_copy ?h (keccak (node_enc keccak c)) = keccak (node_enc keccak c)" using assms(1) by (simp add: go_copy_def)
      moreover have "\<exists>r'. VerifyProof_loop f proofDb (i + 1) (keccak (node_enc keccak c)) rest = Some r' \<and> verified keccak db proofDb c rest True r'"
      proof (rule Suc.IH [OF c(1-3)])
        show "length rest < f" using link(3) Suc.prems(4) by simp
        show "length (node_enc keccak d) < 2 ^ 63" if "d \<in> set (path_nodes c rest)" for d using Suc.prems(5) [OF sub [OF that]] .
        show "b = node_enc keccak d" if "d \<in> set (path_nodes c rest)" "proofDb (keccak (node_enc keccak d)) = Some b" for d b
          using Suc.prems(6) [OF sub [OF that(1)] that(2)] .
      qed
      then obtain r' where r': "VerifyProof_loop f proofDb (i + 1) (keccak (node_enc keccak c)) rest = Some r'" "verified keccak db proofDb c rest True r'" by blast
      ultimately have "VerifyProof_loop (Suc f) proofDb i ?h key = Some r'" using Some dec r(1) link(1) by simp
      then show ?thesis using verified_step [OF link(2) r'(2) c(4)] by blast
    qed
  qed
qed simp

section \<open>The constructed proof\<close>

lemma prove_path_eq:
  assumes "fits db n key" "loaded n" "2 * length key + (if n = NilNode then 1 else 2) \<le> f"
  shows "prove_path f db n key nodes = Some (Inr (nodes @ path_nodes n key))"
  using assms
proof (induction f arbitrary: n key nodes)
  case (Suc f)
  consider "n = NilNode" | v where "key = []" "n = ValueNode v" | "term_key key" "wf_node db n" using Suc.prems(1) by (auto simp: fits_def)
  then show ?case
  proof cases
    case 3
    then have k: "key \<noteq> []" "inner n" using wf_inner Suc.prems(2) by auto
    show ?thesis
    proof (cases n)
      case (ShortNode nk c fl)
      show ?thesis
      proof (cases "length key < length nk \<or> nk \<noteq> take (length nk) key")
        case True
        have "prove_path f db NilNode key (nodes @ [n]) = Some (Inr (nodes @ [n]))"
          using Suc.IH [of NilNode key "nodes @ [n]"] 3(1) Suc.prems(3) k(2) by (auto split: if_splits)
        then show ?thesis using True k(1) ShortNode by simp
      next
        case False
        then obtain k' where key: "key = nk @ k'" by (metis append_take_drop_id)
        then have c: "fits db c k'" "nk \<noteq> []" using fits_Short_child [of db nk c fl k'] 3 ShortNode by (auto simp: wf_Short)
        then have "2 * length k' + (if c = NilNode then 1 else 2) \<le> f" using key Suc.prems(3) ShortNode by (cases nk) auto
        then have "prove_path f db c k' (nodes @ [n]) = Some (Inr (nodes @ n # path_nodes c k'))"
          using Suc.IH [of c k' "nodes @ [n]"] c(1) Suc.prems(2) ShortNode by simp
        then show ?thesis using ShortNode key c(2) by simp
      qed
    next
      case (FullNode cs fl)
      obtain a k' where key: "key = a # k'" using k(1) by (cases key) auto
      then have c: "fits db (cs ! unat a) k'" "unat a < length cs" using fits_Full_child [of db cs fl a k'] 3 FullNode by auto
      have "loaded (cs ! unat a)" using Suc.prems(2) FullNode c(2) by (simp add: list_all_length)
      moreover have "2 * length k' + (if cs ! unat a = NilNode then 1 else 2) \<le> f" using key Suc.prems(3) FullNode by simp
      ultimately have "prove_path f db (cs ! unat a) k' (nodes @ [n]) = Some (Inr (nodes @ n # path_nodes (cs ! unat a) k'))"
        using Suc.IH [OF c(1), of "nodes @ [n]"] by simp
      then show ?thesis using FullNode key c(2) by simp
    qed (use k(2) in simp_all)
  qed simp_all
qed (simp split: if_splits)

lemma proofHash_right:
  assumes "inner n" "caches_right keccak True n" "sized keccak n"
  obtains col where "proofHash keccak n = Some (col, if length (node_enc keccak n) < 32 then col else HashNode (keccak (node_enc keccak n)))"
    "inner col" "enc_or_nil col = node_enc keccak n"
proof -
  have len: "length (node_enc keccak n) < 2 ^ 63" using assms(1,3) by (cases n) auto
  obtain col where col: "proofHash keccak n = map_option (Pair col) (nodeToHash keccak col False)" "inner col" "rlp_val (node_val col) = node_enc keccak n"
  proof (cases n)
    case (ShortNode key c fl)
    then have c: "caches_right keccak False c" "sized keccak c" "c \<noteq> NilNode" using assms(2,3) by auto
    obtain ck where ck: "hexToCompact key = Some ck" using assms(3) ShortNode by auto
    obtain hc cc where hc: "(case c of FullNode _ _ \<Rightarrow> hash_node keccak c False | ShortNode _ _ _ \<Rightarrow> hash_node keccak c False | _ \<Rightarrow> Some (c, c)) = Some (hc, cc)"
      "child_enc hc = node_ref keccak c" "hc \<noteq> NilNode"
    proof (cases "inner c")
      case True
      then obtain h2 c2 where r: "hash_node keccak c False = Some (h2, c2)" "hashed_right keccak c False (h2, c2)"
        using hash_node_right(1) [OF True c(1,2)] by auto
      show thesis using True r(1) hashed_child [OF True r(2)] r(2) that [of h2 c2] by (cases c) (auto simp: hashed_right_def)
    next
      case False
      then show thesis using that [of c c] c by (cases c) (auto simp: child_enc_def)
    qed
    have "rlp_val (node_val (ShortNode ck hc fl)) = node_enc keccak n" using ck hc(2,3) ShortNode by (simp add: child_enc_def)
    then show thesis using that [of "ShortNode ck hc fl"] hc(1) ck ShortNode by (simp add: proofHash_def)
  next
    case (FullNode cs fl)
    obtain hcs ccs where h: "hash_children keccak 0 cs = Some (hcs, ccs)" "map child_enc hcs = map (node_ref keccak) cs"
      using hash_node_right(2) [of keccak cs 0] assms(2,3) FullNode by auto
    have "rlp_val (node_val (FullNode hcs fl)) = rlp_list (concat (map child_enc hcs))"
      by (simp add: child_enc_def [abs_def] comp_def)
    then show thesis using that [of "FullNode hcs fl"] h FullNode by (simp add: proofHash_def)
  qed (use assms(1) in simp_all)
  have "nodeToHash keccak col False = Some (if length (node_enc keccak n) < 32 then col else HashNode (keccak (node_enc keccak n)))"
    using nodeToHash_right [OF col(3) len, of False] by simp
  moreover have "enc_or_nil col = node_enc keccak n"
    using encode_eq(1) [OF node_val_writable [of col]] col(3) len by (simp add: enc_or_nil_def)
  ultimately show thesis using that col by simp
qed

text \<open>A database of encodings of nodes of \<open>N\<close> under their hashes.\<close>

definition encodings :: "(bytes \<Rightarrow> bytes) \<Rightarrow> trie_node set \<Rightarrow> proof_db \<Rightarrow> bool" where
  "encodings keccak N pdb \<longleftrightarrow> (\<forall>h b. pdb h = Some b \<longrightarrow> (\<exists>n\<in>N. h = keccak (node_enc keccak n) \<and> b = node_enc keccak n))"

lemma prove_put_ok:
  assumes "\<And>n. n \<in> set nodes \<Longrightarrow> inner n \<and> caches_right keccak True n \<and> sized keccak n" "set nodes \<subseteq> N" "encodings keccak N pdb"
  shows "\<exists>pdb'. prove_put keccak i 0 nodes pdb = Some pdb' \<and> encodings keccak N pdb' \<and> dom pdb \<subseteq> dom pdb' \<and>
     (\<forall>n\<in>set nodes. 32 \<le> length (node_enc keccak n) \<longrightarrow> keccak (node_enc keccak n) \<in> dom pdb') \<and>
     (i = 0 \<longrightarrow> nodes \<noteq> [] \<longrightarrow> keccak (node_enc keccak (hd nodes)) \<in> dom pdb')"
  using assms
proof (induction nodes arbitrary: i pdb)
  case (Cons n nodes)
  obtain col where col: "proofHash keccak n = Some (col, if length (node_enc keccak n) < 32 then col else HashNode (keccak (node_enc keccak n)))"
    "inner col" "enc_or_nil col = node_enc keccak n"
    using proofHash_right [of n keccak] Cons.prems(1) by auto
  define pdb1 where "pdb1 = (if 32 \<le> length (node_enc keccak n) \<or> i = 0 then pdb(keccak (node_enc keccak n) \<mapsto> node_enc keccak n) else pdb)"
  have step: "prove_put keccak i 0 (n # nodes) pdb = prove_put keccak (i + 1) 0 nodes pdb1"
    using col by (cases col) (auto simp: pdb1_def)
  have e1: "encodings keccak N pdb1" using Cons.prems(2,3) by (auto simp: encodings_def pdb1_def)
  obtain pdb' where p: "prove_put keccak (i + 1) 0 nodes pdb1 = Some pdb'" "encodings keccak N pdb'" "dom pdb1 \<subseteq> dom pdb'"
    "\<forall>n\<in>set nodes. 32 \<le> length (node_enc keccak n) \<longrightarrow> keccak (node_enc keccak n) \<in> dom pdb'"
    using Cons.IH [of pdb1 "i + 1"] Cons.prems(1,2) e1 by auto
  have "dom pdb \<subseteq> dom pdb'" "32 \<le> length (node_enc keccak n) \<or> i = 0 \<Longrightarrow> keccak (node_enc keccak n) \<in> dom pdb'"
    using p(3) by (auto simp: pdb1_def split: if_splits)
  then show ?case using step p by auto
qed simp

lemma below_facts:
  assumes "below c n"
  shows "inner c" "caches_right keccak root n \<Longrightarrow> caches_right keccak True c" "sized keccak n \<Longrightarrow> sized keccak c"
proof -
  show "inner c" using assms by induction simp_all
  show "caches_right keccak root n \<Longrightarrow> caches_right keccak True c" using assms
    by (induction arbitrary: root) (auto simp: list_all_iff cache_right_def intro: caches_mono elim: inner.elims)
  show "sized keccak n \<Longrightarrow> sized keccak c" using assms by induction (auto simp: list_all_iff)
qed

lemma sized_length: "inner n \<Longrightarrow> sized keccak n \<Longrightarrow> length (node_enc keccak n) < 2 ^ 63"
  by (cases n) auto

section \<open>Proofs for a trie\<close>

text \<open>The state of a client's trie, and the run of the verifier on it.\<close>

lemma trie_ops_state:
  assumes "\<And>b. length (keccak b) = 32" "list_all op_small ps" "trie_ops keccak db \<lparr>t_root = NilNode, t_unhashed = 0\<rparr> ps = Some t"
    "foldl op_map Map.empty ps \<noteq> Map.empty" "trie_Hash keccak t = Some (root, t')"
  shows "tracked keccak db t (foldl op_map Map.empty ps)" "wf_node db (t_root t)" "loaded (t_root t)"
    "caches_right keccak True (t_root t)" "sized keccak (t_root t)" "root = keccak (node_enc keccak (t_root t))"
proof -
  let ?t = "\<lparr>t_root = NilNode, t_unhashed = 0\<rparr>" and ?m = "foldl op_map Map.empty ps"
  have "tracked keccak db ?t Map.empty" by (simp add: tracked_def trie_inv_def represents_def small_map_def)
  then show tr: "tracked keccak db t ?m" using trie_ops_tracked [of keccak db ?t Map.empty ps] assms(1-3) by auto
  obtain k v where "?m k = Some v" using assms(4) by (metis not_None_eq ext)
  then have "holds db (t_root t) (keybytesToHex k) v" using tr represents_lookup by (auto simp: tracked_def)
  then have ne: "t_root t \<noteq> NilNode" by auto
  then show wf: "wf_node db (t_root t)" using tr by (simp add: tracked_def trie_inv_def)
  show l: "loaded (t_root t)" and "caches_right keccak True (t_root t)" using tr by (simp_all add: tracked_def)
  show "sized keccak (t_root t)" using wf_sized [of keccak "t_root t" db] assms(1) wf l tracked_small [OF tr] by blast
  show "root = keccak (node_enc keccak (t_root t))"
    using trie_Hash_tracked [of keccak db t ?m] assms(1,5) tr ne by (auto simp: root_digest_def)
qed

definition true_nodes :: "(bytes \<Rightarrow> bytes) \<Rightarrow> trie_node \<Rightarrow> proof_db \<Rightarrow> bool" where
  "true_nodes keccak n pdb \<longleftrightarrow> (\<forall>c b. below c n \<longrightarrow> pdb (keccak (node_enc keccak c)) = Some b \<longrightarrow> b = node_enc keccak c)"

lemma VerifyProof_ok:
  assumes "\<And>b. length (keccak b) = 32" "tracked keccak db t m" "wf_node db (t_root t)" "sized keccak (t_root t)"
    "true_nodes keccak (t_root t) pdb" "length (keybytesToHex key) < f"
  obtains (found) "VerifyProof f (keccak (node_enc keccak (t_root t))) key pdb = Some (Inr (m key))"
  | (absent) j d where "VerifyProof f (keccak (node_enc keccak (t_root t))) key pdb = Some (Inl (ProofMissing j (keccak (node_enc keccak d))))"
      "pdb (keccak (node_enc keccak d)) = None" "d \<in> set (path_nodes (t_root t) (keybytesToHex key))"
      "d = t_root t \<or> 32 \<le> length (node_enc keccak d)"
proof -
  let ?k = "keybytesToHex key" and ?n = "t_root t"
  have l: "loaded ?n" using assms(2) by (simp add: tracked_def)
  obtain r where r: "VerifyProof_loop f pdb 0 (keccak (node_enc keccak ?n)) ?k = Some r" "verified keccak db pdb ?n ?k True r"
    using VerifyProof_loop_ok [of keccak db ?n ?k f pdb 0, OF assms(1,3) l term_key_hex assms(6)] assms(5) path_below
      sized_length below_facts(1,3) assms(4) unfolding true_nodes_def by blast
  show thesis
  proof (cases r)
    case (Inr v)
    have "\<forall>x. v = Some x \<longleftrightarrow> m key = Some x"
      using r(2) Inr represents_lookup [of db t m key] assms(2) by (simp add: verified_def tracked_def)
    then have "v = m key" by (metis not_None_eq)
    then show thesis using found r(1) Inr by (simp add: VerifyProof_def)
  next
    case (Inl e)
    then show thesis using absent r by (auto simp: verified_def VerifyProof_def)
  qed
qed



definition toy_hash :: "bytes \<Rightarrow> bytes" where
  "toy_hash b = take 32 (b @ replicate 32 0)"

definition toy_trie :: Trie where
  "toy_trie = \<lparr>t_root = ShortNode [0, 1, 16] (ValueNode [5]) newFlag, t_unhashed = 1\<rparr>"

definition toy_node :: bytes where
  "toy_node = [0xC4, 0x82, 0x20, 0x01, 0x05]"

definition toy_content :: "bytes \<rightharpoonup> bytes" where
  "toy_content = [[1] \<mapsto> [5]]"

lemma toy_ops: "trie_ops toy_hash (\<lambda>h. None) \<lparr>t_root = NilNode, t_unhashed = 0\<rparr> [UpdateOp [1] [5]] = Some toy_trie"
proof -
  have k: "keybytesToHex [1] = [0, 1, 16]" by (simp add: keybytesToHex_def)
  have "trie_insert (trie_fuel [0, 1, 16]) (\<lambda>h. None) NilNode [] [0, 1, 16] (ValueNode [5]) = Some (Inr (True, ShortNode [0, 1, 16] (ValueNode [5]) newFlag))"
    using insert_NilNode [of 7] by (simp add: trie_fuel_def tail_node_def)
  then show ?thesis by (simp add: TryUpdate_def Let_def k toy_trie_def)
qed

lemma toy_enc: "node_enc toy_hash (t_root toy_trie) = toy_node"
  by (simp add: toy_node_def toy_trie_def hexToCompact_def hasTerm_def Let_def rlp_list_def rlp_str_def rlp_head_def)

inductive_simps below_Short: "below c (ShortNode key d fl)"
inductive_simps below_Value: "below c (ValueNode v)"

lemma toy_below: "below c (t_root toy_trie) \<longleftrightarrow> c = t_root toy_trie"
  by (auto simp: toy_trie_def below_Short below_Value)

lemma toy_length: "length (toy_hash b) = 32"
  by (simp add: toy_hash_def)

lemma toy_map: "foldl op_map Map.empty [UpdateOp [1] [5]] = toy_content" "list_all op_small [UpdateOp [1] [5]]" "toy_content \<noteq> Map.empty"
  by (simp_all add: map_update_def toy_content_def)

lemma toy_digest: "\<exists>t'. trie_Hash toy_hash toy_trie = Some (toy_hash toy_node, t')"
proof -
  let ?t = "\<lparr>t_root = NilNode, t_unhashed = 0\<rparr>"
  have "tracked toy_hash (\<lambda>h. None) ?t Map.empty" by (simp add: tracked_def trie_inv_def represents_def small_map_def)
  then obtain t where "trie_ops toy_hash (\<lambda>h. None) ?t [UpdateOp [1] [5]] = Some t" "tracked toy_hash (\<lambda>h. None) t toy_content"
    using trie_ops_tracked [where keccak = toy_hash and db = "\<lambda>h. None" and t = ?t and m = Map.empty and ops = "[UpdateOp [1] [5]]"] toy_length toy_map(1,2) by metis
  then have "tracked toy_hash (\<lambda>h. None) toy_trie toy_content" using toy_ops by simp
  moreover have "root_digest toy_hash (t_root toy_trie) = toy_hash toy_node"
    unfolding root_digest_def toy_enc by (simp add: toy_trie_def)
  ultimately show ?thesis using trie_Hash_tracked [where keccak = toy_hash and t = toy_trie] toy_length by metis
qed



end
