(* ===== verification/EvmWord.thy ===== *)
theory EvmWord
  imports Prelude "HOL-Library.Signed_Division"
begin

text \<open>
  Arithmetic of the virtual machine (\<open>core/vm/instructions.go\<close>, \<open>common/math/big.go\<close>). Stack items are big integers; each
  instruction computes with unbounded integers and reduces the result to 256 bits. The stack is a list with its top first. The
  pool from which the code takes integer objects saves allocations only and is left out.
\<close>

section \<open>Big integers\<close>

definition tt255 :: int where
  "tt255 = 2 ^ 255"

definition tt256 :: int where
  "tt256 = 2 ^ 256"

definition tt256m1 :: int where
  "tt256m1 = tt256 - 1"

definition U256 :: "int \<Rightarrow> int" where
  "U256 x = x AND tt256m1"

definition S256 :: "int \<Rightarrow> int" where
  "S256 x = (if x < tt255 then x else x - tt256)"

text \<open>\<open>Bits\<close>: the 64-bit words of the absolute value, the low one first.\<close>

function big_bits :: "nat \<Rightarrow> u64 list" where
  "big_bits n = (if n = 0 then [] else of_nat n # big_bits (n div 2 ^ 64))"
  by pat_completeness auto
termination
  by (relation "measure id") auto

declare big_bits.simps [simp del]

text \<open>
  \<open>Exp\<close> squares the base in place for every bit of the exponent's words and multiplies the result by it where the bit is
  set. Both are returned, since the caller's base is changed.
\<close>

fun Exp_bits :: "nat \<Rightarrow> u64 \<Rightarrow> int \<times> int \<Rightarrow> int \<times> int" where
  "Exp_bits 0 word rb = rb"
| "Exp_bits (Suc i) word (result, base) =
     Exp_bits i (drop_bit 1 word) (if word AND 1 = 1 then U256 (result * base) else result, U256 (base * base))"

definition math_Exp :: "int \<Rightarrow> int \<Rightarrow> int \<times> int" where
  "math_Exp base exponent = foldl (\<lambda>rb word. Exp_bits 64 word rb) (1, base) (big_bits (nat \<bar>exponent\<bar>))"

definition bigEndianByteAt :: "int \<Rightarrow> nat \<Rightarrow> byte" where
  "bigEndianByteAt bigint n =
     (let words = big_bits (nat \<bar>bigint\<bar>); i = n div 8
      in if length words \<le> i then 0 else ucast (drop_bit (8 * (n mod 8)) (words ! i)))"

definition math_Byte :: "int \<Rightarrow> int \<Rightarrow> int \<Rightarrow> byte" where
  "math_Byte bigint padlength n = (if padlength \<le> n then 0 else bigEndianByteAt bigint (nat (padlength - 1 - n)))"

text \<open>Conversions of \<open>math/big\<close>: the low 64 bits of the absolute value, with its sign for \<open>Int64\<close>.\<close>

definition Big_Uint64 :: "int \<Rightarrow> u64" where
  "Big_Uint64 x = of_nat (nat \<bar>x\<bar>)"

definition Big_Int64 :: "int \<Rightarrow> int" where
  "Big_Int64 x = sint (if x < 0 then - Big_Uint64 x else Big_Uint64 x)"

definition Big_IsUint64 :: "int \<Rightarrow> bool" where
  "Big_IsUint64 x \<longleftrightarrow> 0 \<le> x \<and> x < 2 ^ 64"

section \<open>Instructions\<close>

type_synonym evm_stack = "int list"

text \<open>An instruction on a stack without enough items panics: \<open>None\<close>.\<close>

fun opAdd :: "evm_stack \<Rightarrow> evm_stack option" where
  "opAdd (x # y # s) = Some (U256 (x + y) # s)"
| "opAdd _ = None"

fun opSub :: "evm_stack \<Rightarrow> evm_stack option" where
  "opSub (x # y # s) = Some (U256 (x - y) # s)"
| "opSub _ = None"

fun opMul :: "evm_stack \<Rightarrow> evm_stack option" where
  "opMul (x # y # s) = Some (U256 (x * y) # s)"
| "opMul _ = None"

fun opDiv :: "evm_stack \<Rightarrow> evm_stack option" where
  "opDiv (x # y # s) = Some ((if sgn y \<noteq> 0 then U256 (x div y) else 0) # s)"
| "opDiv _ = None"

fun opSdiv :: "evm_stack \<Rightarrow> evm_stack option" where
  "opSdiv (x0 # y0 # s) =
     (let x = S256 x0; y = S256 y0
      in if sgn y = 0 \<or> sgn x = 0 then Some (0 # s)
         else Some (U256 (if sgn x \<noteq> sgn y then - (\<bar>x\<bar> div \<bar>y\<bar>) else \<bar>x\<bar> div \<bar>y\<bar>) # s))"
| "opSdiv _ = None"

fun opMod :: "evm_stack \<Rightarrow> evm_stack option" where
  "opMod (x # y # s) = Some ((if sgn y = 0 then 0 else U256 (x mod y)) # s)"
| "opMod _ = None"

fun opSmod :: "evm_stack \<Rightarrow> evm_stack option" where
  "opSmod (x0 # y0 # s) =
     (let x = S256 x0; y = S256 y0
      in if sgn y = 0 then Some (0 # s)
         else Some (U256 (if sgn x < 0 then - (\<bar>x\<bar> mod \<bar>y\<bar>) else \<bar>x\<bar> mod \<bar>y\<bar>) # s))"
| "opSmod _ = None"

fun opExp :: "evm_stack \<Rightarrow> evm_stack option" where
  "opExp (base # exponent # s) =
     Some ((if exponent < 1 then 1
            else if sgn base = 0 then 0
            else if exponent = 1 then base
            else fst (math_Exp base exponent)) # s)"
| "opExp _ = None"

fun opSignExtend :: "evm_stack \<Rightarrow> evm_stack option" where
  "opSignExtend (back # s) =
     (if back < 31 then
        (case s of
           [] \<Rightarrow> None
         | num # s' \<Rightarrow>
             let bt = unat (Big_Uint64 back * 8 + 7); mask = push_bit bt 1 - 1
             in Some (U256 (if bit num bt then num OR NOT mask else num AND mask) # s'))
      else Some s)"
| "opSignExtend _ = None"

fun opNot :: "evm_stack \<Rightarrow> evm_stack option" where
  "opNot (x # s) = Some (U256 (NOT x) # s)"
| "opNot _ = None"

fun opLt :: "evm_stack \<Rightarrow> evm_stack option" where
  "opLt (x # y # s) = Some ((if x < y then 1 else 0) # s)"
| "opLt _ = None"

fun opGt :: "evm_stack \<Rightarrow> evm_stack option" where
  "opGt (x # y # s) = Some ((if y < x then 1 else 0) # s)"
| "opGt _ = None"

fun opSlt :: "evm_stack \<Rightarrow> evm_stack option" where
  "opSlt (x # y # s) =
     Some ((if tt255 \<le> x \<and> y < tt255 then 1
            else if x < tt255 \<and> tt255 \<le> y then 0
            else if x < y then 1 else 0) # s)"
| "opSlt _ = None"

fun opSgt :: "evm_stack \<Rightarrow> evm_stack option" where
  "opSgt (x # y # s) =
     Some ((if tt255 \<le> x \<and> y < tt255 then 0
            else if x < tt255 \<and> tt255 \<le> y then 1
            else if y < x then 1 else 0) # s)"
| "opSgt _ = None"

fun opEq :: "evm_stack \<Rightarrow> evm_stack option" where
  "opEq (x # y # s) = Some ((if x = y then 1 else 0) # s)"
| "opEq _ = None"

fun opIszero :: "evm_stack \<Rightarrow> evm_stack option" where
  "opIszero (x # s) = Some ((if 0 < sgn x then 0 else 1) # s)"
| "opIszero _ = None"

fun opAnd :: "evm_stack \<Rightarrow> evm_stack option" where
  "opAnd (x # y # s) = Some ((x AND y) # s)"
| "opAnd _ = None"

fun opOr :: "evm_stack \<Rightarrow> evm_stack option" where
  "opOr (x # y # s) = Some ((x OR y) # s)"
| "opOr _ = None"

fun opXor :: "evm_stack \<Rightarrow> evm_stack option" where
  "opXor (x # y # s) = Some ((x XOR y) # s)"
| "opXor _ = None"

fun opByte :: "evm_stack \<Rightarrow> evm_stack option" where
  "opByte (th # val # s) = Some ((if th < 32 then uint (math_Byte val 32 (Big_Int64 th)) else 0) # s)"
| "opByte _ = None"

fun opAddmod :: "evm_stack \<Rightarrow> evm_stack option" where
  "opAddmod (x # y # z # s) = Some ((if 0 < z then U256 ((x + y) mod z) else 0) # s)"
| "opAddmod _ = None"

fun opMulmod :: "evm_stack \<Rightarrow> evm_stack option" where
  "opMulmod (x # y # z # s) = Some ((if 0 < z then U256 ((x * y) mod z) else 0) # s)"
| "opMulmod _ = None"

fun opSHL :: "evm_stack \<Rightarrow> evm_stack option" where
  "opSHL (shift0 # value0 # s) =
     (let shift = U256 shift0; val = U256 value0
      in if 256 \<le> shift then Some (0 # s)
         else Some (U256 (push_bit (nat shift) val) # s))"
| "opSHL _ = None"

fun opSHR :: "evm_stack \<Rightarrow> evm_stack option" where
  "opSHR (shift0 # value0 # s) =
     (let shift = U256 shift0; val = U256 value0
      in if 256 \<le> shift then Some (0 # s)
         else Some (U256 (drop_bit (nat shift) val) # s))"
| "opSHR _ = None"

fun opSAR :: "evm_stack \<Rightarrow> evm_stack option" where
  "opSAR (shift0 # value0 # s) =
     (let shift = U256 shift0; val = S256 value0
      in if 256 \<le> shift then Some (U256 (if 0 \<le> sgn val then 0 else -1) # s)
         else Some (U256 (drop_bit (nat shift) val) # s))"
| "opSAR _ = None"

section \<open>The reference: words of 256 bits\<close>

type_synonym u256 = "256 word"

datatype arith =
    Add | Sub | Mul | Div | Sdiv | Mod | Smod | Exp | SignExtend | Not | Lt | Gt | Slt | Sgt | Eq | Iszero
  | And | Or | Xor | Byte | Addmod | Mulmod | Shl | Shr | Sar

fun arity :: "arith \<Rightarrow> nat" where
  "arity Not = 1" | "arity Iszero = 1" | "arity Addmod = 3" | "arity Mulmod = 3" | "arity _ = 2"

fun exec_arith :: "arith \<Rightarrow> evm_stack \<Rightarrow> evm_stack option" where
  "exec_arith Add = opAdd" | "exec_arith Sub = opSub" | "exec_arith Mul = opMul" | "exec_arith Div = opDiv"
| "exec_arith Sdiv = opSdiv" | "exec_arith Mod = opMod" | "exec_arith Smod = opSmod" | "exec_arith Exp = opExp"
| "exec_arith SignExtend = opSignExtend" | "exec_arith Not = opNot" | "exec_arith Lt = opLt" | "exec_arith Gt = opGt"
| "exec_arith Slt = opSlt" | "exec_arith Sgt = opSgt" | "exec_arith Eq = opEq" | "exec_arith Iszero = opIszero"
| "exec_arith And = opAnd" | "exec_arith Or = opOr" | "exec_arith Xor = opXor" | "exec_arith Byte = opByte"
| "exec_arith Addmod = opAddmod" | "exec_arith Mulmod = opMulmod" | "exec_arith Shl = opSHL" | "exec_arith Shr = opSHR"
| "exec_arith Sar = opSAR"

definition bool_word :: "bool \<Rightarrow> u256" where
  "bool_word b = (if b then 1 else 0)"

fun word_arith :: "arith \<Rightarrow> u256 \<Rightarrow> u256 \<Rightarrow> u256 \<Rightarrow> u256" where
  "word_arith Add x y z = x + y"
| "word_arith Sub x y z = x - y"
| "word_arith Mul x y z = x * y"
| "word_arith Div x y z = x div y"
| "word_arith Sdiv x y z = of_int (sint x sdiv sint y)"
| "word_arith Mod x y z = (if y = 0 then 0 else x mod y)"
| "word_arith Smod x y z = (if y = 0 then 0 else of_int (sint x smod sint y))"
| "word_arith Exp x y z = x ^ unat y"
| "word_arith SignExtend x y z = (if x < 31 then signed_take_bit (8 * unat x + 7) y else y)"
| "word_arith Not x y z = NOT x"
| "word_arith Lt x y z = bool_word (x < y)"
| "word_arith Gt x y z = bool_word (y < x)"
| "word_arith Slt x y z = bool_word (sint x < sint y)"
| "word_arith Sgt x y z = bool_word (sint y < sint x)"
| "word_arith Eq x y z = bool_word (x = y)"
| "word_arith Iszero x y z = bool_word (x = 0)"
| "word_arith And x y z = x AND y"
| "word_arith Or x y z = x OR y"
| "word_arith Xor x y z = x XOR y"
| "word_arith Byte x y z = (if x < 32 then drop_bit (8 * (31 - unat x)) y AND 0xFF else 0)"
| "word_arith Addmod x y z = (if z = 0 then 0 else of_nat ((unat x + unat y) mod unat z))"
| "word_arith Mulmod x y z = (if z = 0 then 0 else of_nat ((unat x * unat y) mod unat z))"
| "word_arith Shl x y z = push_bit (unat x) y"
| "word_arith Shr x y z = drop_bit (unat x) y"
| "word_arith Sar x y z = signed_drop_bit (unat x) y"

lemma U256_mod: "U256 x = take_bit 256 x"
  by (simp only: U256_def tt256m1_def tt256_def take_bit_eq_mask mask_eq_exp_minus_1)

lemma U256_uint: "U256 x = uint (of_int x :: u256)"
  by (simp add: U256_mod unsigned_of_int)

lemma odd_div_iff:
  fixes u m :: int
  assumes "0 \<le> u" "u < m + m"
  shows "odd (u div m) \<longleftrightarrow> m \<le> u"
proof (cases "m \<le> u")
  case True
  have "u div m = ((u - m) + m) div m" by simp
  also have "\<dots> = (u - m) div m + 1" using assms True by (intro div_add_self2) linarith
  also have "(u - m) div m = 0" using assms True by (intro div_pos_pos_trivial) linarith+
  finally show ?thesis using True by simp
qed (use assms in simp)

lemma S256_sint: "S256 (uint (x :: u256)) = sint x"
proof -
  have s: "Suc 255 = 256" by simp
  have b: "bit (uint x) 255 \<longleftrightarrow> 2 ^ 255 \<le> uint x"
    unfolding bit_iff_odd by (rule odd_div_iff) (use uint_lt2p [of x] in simp_all)
  have t: "take_bit 256 (uint x) = uint x"
    by (rule take_bit_int_eq_self) (use uint_lt2p [of x] in simp_all)
  have "sint x = signed_take_bit 255 (uint x)" by (simp add: sint_uint)
  also have "\<dots> = uint x - 2 ^ 256 * of_bool (2 ^ 255 \<le> uint x)"
    unfolding signed_take_bit_eq_take_bit_minus b s t ..
  finally show ?thesis by (simp add: S256_def tt255_def tt256_def)
qed

lemma smod_cases: "(x :: int) smod y = (if sgn x < 0 then - (\<bar>x\<bar> mod \<bar>y\<bar>) else \<bar>x\<bar> mod \<bar>y\<bar>)"
  by (simp add: smod_int_alt_def sgn_if)

lemma sdiv_cases:
  fixes x y :: int
  assumes "sgn x \<noteq> 0" "sgn y \<noteq> 0"
  shows "x sdiv y = (if sgn x \<noteq> sgn y then - (\<bar>x\<bar> div \<bar>y\<bar>) else \<bar>x\<bar> div \<bar>y\<bar>)"
  using assms by (simp add: signed_divide_int_def sgn_if split: if_splits)

lemma big_bits_0: "big_bits 0 = []"
  by (simp add: big_bits.simps)

lemma big_bits_pos: "n \<noteq> 0 \<Longrightarrow> big_bits n = of_nat n # big_bits (drop_bit 64 n)"
  by (simp add: big_bits.simps [of n] drop_bit_eq_div)

lemma big_bits_nth: "i < length (big_bits n) \<Longrightarrow> big_bits n ! i = of_nat (drop_bit (64 * i) n)"
proof (induction i arbitrary: n)
  case 0
  then show ?case by (cases "n = 0") (simp_all add: big_bits_0 big_bits_pos)
next
  case (Suc i)
  then show ?case by (cases "n = 0") (simp_all add: big_bits_0 big_bits_pos drop_bit_drop_bit add.commute)
qed

lemma big_bits_beyond: "length (big_bits n) \<le> i \<Longrightarrow> drop_bit (64 * i) n = 0"
proof (induction i arbitrary: n)
  case 0
  then show ?case by (cases "n = 0") (simp_all add: big_bits_0 big_bits_pos)
next
  case (Suc i)
  show ?case
  proof (cases "n = 0")
    case False
    then have "length (big_bits (drop_bit 64 n)) \<le> i" using Suc.prems by (simp add: big_bits_pos)
    then have "drop_bit (64 * i) (drop_bit 64 n) = 0" by (rule Suc.IH)
    then show ?thesis by (simp add: drop_bit_drop_bit add.commute)
  qed simp
qed


lemma bigEndianByteAt_eq: "bigEndianByteAt (int n) m = of_nat (drop_bit (8 * m) n)"
proof -
  have e: "drop_bit (8 * m) n = drop_bit (8 * (m mod 8)) (drop_bit (64 * (m div 8)) n)"
  proof -
    have "8 * m = 8 * (m mod 8) + 64 * (m div 8)" by presburger
    then show ?thesis by (simp only: drop_bit_drop_bit)
  qed
  show ?thesis
  proof (cases "length (big_bits n) \<le> m div 8")
    case True
    then have "drop_bit (64 * (m div 8)) n = 0" by (rule big_bits_beyond)
    then show ?thesis using True by (simp add: bigEndianByteAt_def Let_def e)
  next
    case False
    then have "big_bits n ! (m div 8) = of_nat (drop_bit (64 * (m div 8)) n)" by (intro big_bits_nth) simp
    moreover have "ucast (drop_bit (8 * (m mod 8)) (of_nat k :: u64)) = (of_nat (drop_bit (8 * (m mod 8)) k) :: byte)" for k
      by (rule bit_word_eqI) (auto simp: bit_ucast_iff bit_drop_bit_eq bit_simps bit_of_nat_iff)
    ultimately show ?thesis using False by (simp add: bigEndianByteAt_def Let_def e)
  qed
qed

lemma Exp_bits_word:
  "Exp_bits n w (uint (r :: u256), uint b) = (uint (r * b ^ unat (take_bit n w)), uint (b ^ 2 ^ n))"
proof (induction n arbitrary: w r b)
  case 0
  then show ?case by simp
next
  case (Suc n)
  have "unat (take_bit (Suc n) w) = take_bit (Suc n) (unat w)" by (simp only: unsigned_take_bit_eq)
  also have "\<dots> = take_bit n (drop_bit 1 (unat w)) * 2 + of_bool (odd (unat w))"
    by (simp add: take_bit_Suc drop_bit_eq_div mod2_eq_if)
  also have "take_bit n (drop_bit 1 (unat w)) = unat (take_bit n (drop_bit 1 w))"
  proof -
    have "unat w < 2 ^ LENGTH(64)" by (rule unsigned_less)
    then show ?thesis by (simp only: unsigned_take_bit_eq unsigned_drop_bit_eq take_bit_nat_eq_self)
  qed
  also have "odd (unat w) = odd w" by (simp flip: bit_0 add: bit_unsigned_iff)
  finally have w: "unat (take_bit (Suc n) w) = of_bool (odd w) + 2 * unat (take_bit n (drop_bit 1 w))" by simp
  have o: "w AND 1 = 1 \<longleftrightarrow> odd w" by (simp add: and_one_eq odd_iff_mod_2_eq_one)
  show ?case
    by (simp add: Suc.IH o w U256_uint power_add power_mult power2_eq_square power_even_eq mult.assoc del: One_nat_def)
qed


lemma Exp_fold_word:
  "fst (foldl (\<lambda>rb word. Exp_bits 64 word rb) (uint (r :: u256), uint b) (big_bits n)) = uint (r * b ^ n)"
proof (induction n arbitrary: r b rule: less_induct)
  case (less n)
  show ?case
  proof (cases "n = 0")
    case True
    then show ?thesis by (simp add: big_bits_0)
  next
    case False
    have "drop_bit 64 n < n" unfolding drop_bit_eq_div by (rule div_less_dividend) (use False in simp_all)
    note IH = less.IH [OF this]
    have t: "unat (take_bit 64 (of_nat n :: u64)) = take_bit 64 n" by (simp add: unsigned_take_bit_eq unsigned_of_nat)
    have "n = take_bit 64 n + 2 ^ 64 * drop_bit 64 n" using bits_ident [of 64 n] by (simp add: push_bit_eq_mult mult.commute)
    then have e: "b ^ n = b ^ take_bit 64 n * (b ^ 2 ^ 64) ^ drop_bit 64 n" by (metis power_add power_mult)
    show ?thesis unfolding big_bits_pos [OF False] foldl_Cons Exp_bits_word IH t e by (rule arg_cong [OF mult.assoc])
  qed
qed

lemma math_Exp_word: "fst (math_Exp (uint b) (uint (e :: u256))) = uint ((b :: u256) ^ unat e)"
proof -
  have n: "nat \<bar>uint e\<bar> = unat e" by simp
  show ?thesis using Exp_fold_word [of 1 b "unat e"] unfolding math_Exp_def n by (simp only: unsigned_1 mult_1)
qed

lemma of_int_signed_take_bit: "n < 256 \<Longrightarrow> of_int (signed_take_bit n (uint y)) = signed_take_bit n (y :: u256)"
  by (rule bit_word_eqI) (auto simp: bit_simps)

lemma mask_cases: "signed_take_bit n k = (if bit k n then k OR NOT (push_bit n 1 - 1) else k AND (push_bit n 1 - 1))" for k :: int
  by (rule bit_eqI) (auto simp: push_bit_eq_mult bit_simps min_def simp flip: mask_eq_exp_minus_1 split: if_splits)

lemma lt_31: "x < (31 :: u256) \<longleftrightarrow> unat x < 31" and lt_32: "x < (32 :: u256) \<longleftrightarrow> unat x < 32"
  by (simp_all add: word_less_nat_alt)

lemma uint_lt_numeral: "uint (x :: u256) < numeral k \<longleftrightarrow> unat x < numeral k"
  by (subst of_nat_less_iff [where 'a = int, symmetric]) simp

lemma unat_of_nat_small: "n < 2 ^ 64 \<Longrightarrow> unat (of_nat n :: u64) = n"
  by (simp add: unsigned_of_nat take_bit_nat_eq_self)

lemma opSignExtend_word:
  "opSignExtend (uint x # uint y # s) = Some (uint (word_arith SignExtend x y z) # s)"
proof (cases "unat x < 31")
  case True
  have "Big_Uint64 (uint x) * 8 + 7 = of_nat (8 * unat x + 7)" by (simp add: Big_Uint64_def mult.commute)
  then have bt: "unat (Big_Uint64 (uint x) * 8 + 7) = 8 * unat x + 7"
    using True by (simp only:) (rule unat_of_nat_small, simp)
  have "U256 (if bit (uint y) n then uint y OR NOT (push_bit n 1 - 1) else uint y AND (push_bit n 1 - 1))
        = uint (signed_take_bit n y)" if "n < 256" for n
    unfolding mask_cases [symmetric] U256_uint of_int_signed_take_bit [OF that] ..
  from this [of "8 * unat x + 7"] show ?thesis
    using True by (simp only: opSignExtend.simps uint_lt_numeral list.case Let_def bt word_arith.simps lt_31 if_True)
qed (simp add: uint_lt_numeral lt_31)


lemma Big_Int64_nat: "n < 32 \<Longrightarrow> Big_Int64 (int n) = int n"
  by (simp add: Big_Int64_def Big_Uint64_def signed_of_nat signed_take_bit_int_eq_self)

lemma Big_Int64_small: "unat x < 32 \<Longrightarrow> Big_Int64 (uint (x :: u256)) = uint x"
  using Big_Int64_nat [of "unat x"] by simp

lemma uint_byte: "uint (of_nat (drop_bit m (unat y)) :: byte) = uint (drop_bit m (y :: u256) AND 0xFF)"
proof -
  have "drop_bit m y AND 0xFF = take_bit 8 (drop_bit m y)" by (simp add: take_bit_eq_mask mask_eq_exp_minus_1)
  then show ?thesis by (simp only:) (rule bit_eqI, auto simp: bit_simps)
qed

lemma opByte_word: "opByte (uint x # uint y # s) = Some (uint (word_arith Byte x y z) # s)"
proof (cases "unat x < 32")
  case True
  have "nat (32 - 1 - int k) = 31 - k" for k by simp
  from this [of "unat x"] have n: "nat (32 - 1 - uint x) = 31 - unat x" by simp
  have "\<not> 32 \<le> uint x" unfolding not_le uint_lt_numeral by (rule True)
  then have "math_Byte (uint y) 32 (uint x) = of_nat (drop_bit (8 * (31 - unat x)) (unat y))"
    unfolding math_Byte_def n using bigEndianByteAt_eq [of "unat y" "31 - unat x"] by simp
  then show ?thesis using True
    by (simp only: opByte.simps uint_lt_numeral lt_32 word_arith.simps if_True Big_Int64_small uint_byte)
qed (simp add: uint_lt_numeral lt_32)

lemma uint_div_mod: "U256 (uint x div uint y) = uint (x div y)" "U256 (uint x mod uint y) = uint (x mod y)" for x y :: u256
  by (simp_all add: U256_uint flip: uint_div_distrib uint_mod_distrib)

lemma opDiv_word: "opDiv (uint x # uint y # s) = Some (uint (word_arith Div x y z) # s)"
  by (simp add: sgn_0_0 uint_div_mod unsigned_eq_0_iff)

lemma opMod_word: "opMod (uint x # uint y # s) = Some (uint (word_arith Mod x y z) # s)"
  by (simp add: sgn_0_0 uint_div_mod unsigned_eq_0_iff)

lemma opSdiv_word: "opSdiv (uint x # uint y # s) = Some (uint (word_arith Sdiv x y z) # s)"
proof (cases "sgn (sint x) = 0 \<or> sgn (sint y) = 0")
  case True
  then show ?thesis by (auto simp: S256_sint sgn_0_0)
next
  case False
  then show ?thesis by (simp add: S256_sint U256_uint sdiv_cases Let_def)
qed

lemma opSmod_word: "opSmod (uint x # uint y # s) = Some (uint (word_arith Smod x y z) # s)"
  by (simp add: S256_sint U256_uint smod_cases Let_def sgn_0_0 signed_eq_0_iff)

lemma uint_lt_1: "uint (y :: u256) < 1 \<longleftrightarrow> y = 0"
  using uint_ge_0 [of y] unsigned_eq_0_iff [of y] by (metis int_one_le_iff_zero_less linorder_not_less order_le_less unsigned_0)

lemma uint_eq_1: "uint (y :: u256) = 1 \<longleftrightarrow> y = 1"
  by (simp add: word_uint_eq_iff)

lemma opExp_word: "opExp (uint x # uint y # s) = Some (uint (word_arith Exp x y z) # s)"
proof -
  consider "y = 0" | "x = 0" "y \<noteq> 0" | "y = 1" "x \<noteq> 0" | "y \<noteq> 0" "y \<noteq> 1" "x \<noteq> 0" by blast
  then show ?thesis
  proof cases
    case 4
    then show ?thesis by (simp add: math_Exp_word uint_lt_1 uint_eq_1 sgn_0_0 unsigned_eq_0_iff)
  qed (auto simp: sgn_0_0 power_0_left unsigned_eq_0_iff uint_lt_1)
qed


lemma opRing_word:
  "opAdd (uint x # uint y # s) = Some (uint (word_arith Add x y z) # s)"
  "opSub (uint x # uint y # s) = Some (uint (word_arith Sub x y z) # s)"
  "opMul (uint x # uint y # s) = Some (uint (word_arith Mul x y z) # s)"
  by (simp_all add: U256_uint)

lemma opNot_word: "opNot (uint x # s) = Some (uint (word_arith Not x y z) # s)"
proof -
  have "of_int (NOT (uint x)) = NOT x" by (rule bit_word_eqI) (simp add: bit_simps)
  then show ?thesis by (simp add: U256_uint)
qed

lemma S256_less:
  assumes "0 \<le> x" "x < tt256" "0 \<le> y" "y < tt256"
  shows "S256 x < S256 y \<longleftrightarrow> (if tt255 \<le> x \<and> y < tt255 then True else if x < tt255 \<and> tt255 \<le> y then False else x < y)"
  using assms by (simp add: S256_def tt255_def tt256_def)

lemma uint_tt256: "0 \<le> uint (x :: u256)" "uint (x :: u256) < tt256"
  using uint_lt2p [of x] by (simp_all add: tt256_def)

lemma opSlt_word: "opSlt (uint x # uint y # s) = Some (uint (word_arith Slt x y z) # s)"
  using S256_less [OF uint_tt256 uint_tt256, of x y] by (simp add: S256_sint bool_word_def)

lemma opSgt_word: "opSgt (uint x # uint y # s) = Some (uint (word_arith Sgt x y z) # s)"
  using S256_less [OF uint_tt256 uint_tt256, of y x] by (auto simp: S256_sint bool_word_def)

lemma opCompare_word:
  "opLt (uint x # uint y # s) = Some (uint (word_arith Lt x y z) # s)"
  "opGt (uint x # uint y # s) = Some (uint (word_arith Gt x y z) # s)"
  "opEq (uint x # uint y # s) = Some (uint (word_arith Eq x y z) # s)"
  by (simp_all add: bool_word_def word_less_def word_uint_eq_iff)

lemma uint_pos: "0 < uint (z :: u256) \<longleftrightarrow> z \<noteq> 0"
  using uint_lt_1 [of z] by (metis int_one_le_iff_zero_less linorder_not_less)

lemma opIszero_word: "opIszero (uint x # s) = Some (uint (word_arith Iszero x y z) # s)"
  by (cases "x = 0") (simp_all add: bool_word_def uint_pos)

lemma opBitwise_word:
  "opAnd (uint x # uint y # s) = Some (uint (word_arith And x y z) # s)"
  "opOr (uint x # uint y # s) = Some (uint (word_arith Or x y z) # s)"
  "opXor (uint x # uint y # s) = Some (uint (word_arith Xor x y z) # s)"
  by (simp_all add: unsigned_and_eq unsigned_or_eq unsigned_xor_eq)

lemma opAddmod_word: "opAddmod (uint x # uint y # uint z # s) = Some (uint (word_arith Addmod x y z) # s)"
proof -
  have "(of_nat ((unat x + unat y) mod unat z) :: u256) = of_int (int ((unat x + unat y) mod unat z))" by (rule of_int_of_nat_eq [symmetric])
  also have "int ((unat x + unat y) mod unat z) = (uint x + uint y) mod uint z" by (simp add: of_nat_mod)
  finally show ?thesis by (simp add: U256_uint uint_pos)
qed

lemma opMulmod_word: "opMulmod (uint x # uint y # uint z # s) = Some (uint (word_arith Mulmod x y z) # s)"
proof -
  have "(of_nat ((unat x * unat y) mod unat z) :: u256) = of_int (int ((unat x * unat y) mod unat z))" by (rule of_int_of_nat_eq [symmetric])
  also have "int ((unat x * unat y) mod unat z) = (uint x * uint y) mod uint z" by (simp add: of_nat_mod)
  finally show ?thesis by (simp add: U256_uint uint_pos)
qed

lemma U256_id: "U256 (uint (x :: u256)) = uint x"
  by (simp add: U256_uint)

lemma shift_words:
  "U256 (push_bit n (uint y)) = uint (push_bit n y)" "U256 (drop_bit n (uint y)) = uint (drop_bit n y)"
  "U256 (drop_bit n (sint y)) = uint (signed_drop_bit n y)" for y :: u256
proof -
  have "of_int (push_bit n (uint y)) = push_bit n y" by (rule bit_word_eqI) (auto simp: bit_simps)
  then show "U256 (push_bit n (uint y)) = uint (push_bit n y)" by (simp add: U256_uint)
  have "of_int (drop_bit n (uint y)) = drop_bit n y" by (rule bit_word_eqI) (auto simp: bit_simps)
  then show "U256 (drop_bit n (uint y)) = uint (drop_bit n y)" by (simp add: U256_uint)
  show "U256 (drop_bit n (sint y)) = uint (signed_drop_bit n y)"
    by (simp add: U256_uint flip: sint_signed_drop_bit_eq)
qed

lemma shift_beyond:
  assumes "256 \<le> n"
  shows "push_bit n (y :: u256) = 0" "drop_bit n y = 0" "signed_drop_bit n y = (if 0 \<le> sint y then 0 else - 1)"
proof -
  show "push_bit n y = 0" "drop_bit n y = 0" by (rule bit_word_eqI, use assms in \<open>auto simp: bit_simps dest: bit_imp_le_length\<close>)+
  show "signed_drop_bit n y = (if 0 \<le> sint y then 0 else - 1)"
    using assms by (simp add: signed_drop_bit_beyond sint_uint bit_uint_iff)
qed

lemma uint_le_256: "256 \<le> uint (x :: u256) \<longleftrightarrow> 256 \<le> unat x"
  unfolding not_less [symmetric] uint_lt_numeral ..

lemma opSHL_word: "opSHL (uint x # uint y # s) = Some (uint (word_arith Shl x y z) # s)"
  by (simp add: U256_id Let_def uint_le_256 shift_words shift_beyond)

lemma opSHR_word: "opSHR (uint x # uint y # s) = Some (uint (word_arith Shr x y z) # s)"
  by (simp add: U256_id Let_def uint_le_256 shift_words shift_beyond)

lemma U256_sign: "U256 (if 0 \<le> sgn (sint y) then 0 else - 1) = uint (if 0 \<le> sint y then 0 else - 1 :: u256)" for y :: u256
  by (simp add: U256_uint sgn_if)

lemma opSAR_word: "opSAR (uint x # uint y # s) = Some (uint (word_arith Sar x y z) # s)"
proof (cases "256 \<le> unat x")
  case True
  then show ?thesis by (simp only: opSAR.simps U256_id S256_sint Let_def uint_le_256 word_arith.simps shift_beyond U256_sign if_True)
qed (simp add: U256_id S256_sint Let_def uint_le_256 shift_words)

lemma take_operands: "take 1 [a, b, c] @ s = a # s" "take 2 [a, b, c] @ s = a # b # s" "take 3 [a, b, c] @ s = a # b # c # s"
  by simp_all

lemmas op_words = opRing_word opDiv_word opMod_word opSdiv_word opSmod_word opExp_word opSignExtend_word opNot_word opSlt_word opSgt_word
  opCompare_word opIszero_word opBitwise_word opByte_word opAddmod_word opMulmod_word opSHL_word opSHR_word opSAR_word

text \<open>
  Claim C37. Every arithmetic, comparison, bitwise and shift instruction of the virtual machine, which computes with unbounded
  integers and masks or converts them, yields the result of the corresponding operation on words of 256 bits: wrap-around for sums,
  products and powers, zero for a zero divisor, truncated signed division, signed comparison, sign extension and arithmetic shift in
  two's complement, and sums and products modulo a third operand without intermediate overflow. It replaces its operands on the stack
  by that result and leaves the rest of the stack as it was.
\<close>

theorem evm_arith_correct:
  "exec_arith op (take (arity op) [uint x, uint y, uint z] @ s) = Some (uint (word_arith op x y z) # s)"
  by (cases op) (simp_all only: exec_arith.simps arity.simps take_operands op_words)

end
