(* ===== verification/EvmContract.thy ===== *)
theory EvmContract
  imports EvmWord
begin

text \<open>
  Contracts of the virtual machine and the analysis of jump destinations (\<open>core/vm/analysis.go\<close>, \<open>core/vm/contract.go\<close>). An array of
  20 or 32 bytes is a word of 160 or 256 bits, its first byte the most significant one. Positions in code are
  natural numbers: code is shorter than \<open>2 ^ 63\<close> bytes and the analysis runs at most 32 bytes past its end. The map of analysed
  codes, which a contract shares with its callers, is passed along.
\<close>

type_synonym address = "160 word"
type_synonym hash256 = "256 word"

section \<open>Analysis of code\<close>

definition JUMPDEST :: byte where "JUMPDEST = 0x5b"
definition BEGINSUB :: byte where "BEGINSUB = 0x5c"
definition PUSH1 :: byte where "PUSH1 = 0x60"
definition PUSH32 :: byte where "PUSH32 = 0x7f"

type_synonym bitvec = bytes

definition bitvec_or :: "bitvec \<Rightarrow> nat \<Rightarrow> byte \<Rightarrow> bitvec option" where
  "bitvec_or bits i b = (if i < length bits then Some (bits[i := bits ! i OR b]) else None)"

definition bitvec_set :: "bitvec \<Rightarrow> nat \<Rightarrow> bitvec option" where
  "bitvec_set bits pos = bitvec_or bits (pos div 8) (drop_bit (pos mod 8) 0x80)"

definition bitvec_set8 :: "bitvec \<Rightarrow> nat \<Rightarrow> bitvec option" where
  "bitvec_set8 bits pos =
     (case bitvec_or bits (pos div 8) (drop_bit (pos mod 8) 0xFF) of
        None \<Rightarrow> None
      | Some bits' \<Rightarrow> bitvec_or bits' (pos div 8 + 1) (NOT (drop_bit (pos mod 8) 0xFF)))"

definition codeSegment :: "bitvec \<Rightarrow> nat \<Rightarrow> bool option" where
  "codeSegment bits pos =
     (if pos div 8 < length bits then Some (bits ! (pos div 8) AND drop_bit (pos mod 8) 0x80 = 0) else None)"

text \<open>The two inner loops: runs of eight bits, then single bits.\<close>

function set8_loop :: "bitvec \<Rightarrow> nat \<Rightarrow> nat \<Rightarrow> (bitvec \<times> nat \<times> nat) option" where
  "set8_loop bits pc numbits =
     (if numbits \<ge> 8 then
        (case bitvec_set8 bits pc of
           None \<Rightarrow> None
         | Some bits' \<Rightarrow> set8_loop bits' (pc + 8) (numbits - 8))
      else Some (bits, pc, numbits))"
  by pat_completeness auto
termination
  by (relation "measure (\<lambda>(_, _, n). n)") auto

fun set_loop :: "bitvec \<Rightarrow> nat \<Rightarrow> nat \<Rightarrow> (bitvec \<times> nat) option" where
  "set_loop bits pc 0 = Some (bits, pc)"
| "set_loop bits pc (Suc numbits) =
     (case bitvec_set bits pc of
        None \<Rightarrow> None
      | Some bits' \<Rightarrow> set_loop bits' (pc + 1) numbits)"

declare set8_loop.simps [simp del]

definition is_push :: "byte \<Rightarrow> bool" where
  "is_push op \<longleftrightarrow> PUSH1 \<le> op \<and> op \<le> PUSH32"

definition mark_push :: "bitvec \<Rightarrow> nat \<Rightarrow> byte \<Rightarrow> (bitvec \<times> nat) option" where
  "mark_push bits pc op =
     (case set8_loop bits (pc + 1) (unat (op - PUSH1 + 1)) of
        None \<Rightarrow> None
      | Some (bits', pc', numbits) \<Rightarrow> set_loop bits' pc' numbits)"

lemma set8_loop_pc: "set8_loop bits pc n = Some (bits', pc', n') \<Longrightarrow> pc' + n' = pc + n \<and> n' < 8"
proof (induction bits pc n rule: set8_loop.induct)
  case (1 bits pc n)
  then show ?case by (auto simp: set8_loop.simps [of bits pc n] split: if_splits option.splits)
qed

lemma set_loop_pc: "set_loop bits pc n = Some (bits', pc') \<Longrightarrow> pc' = pc + n"
  by (induction n arbitrary: bits pc) (fastforce split: option.splits)+

lemma mark_push_pc: "mark_push bits pc op = Some (bits', pc') \<Longrightarrow> pc' = pc + 1 + unat (op - PUSH1 + 1)"
  by (auto simp: mark_push_def split: option.splits dest!: set8_loop_pc set_loop_pc)

function codeBitmap_loop :: "bytes \<Rightarrow> nat \<Rightarrow> bitvec \<Rightarrow> bitvec option" where
  "codeBitmap_loop code pc bits =
     (if pc < length code then
        (if is_push (code ! pc) then
           (case mark_push bits pc (code ! pc) of
              None \<Rightarrow> None
            | Some (bits', pc') \<Rightarrow> codeBitmap_loop code pc' bits')
         else codeBitmap_loop code (pc + 1) bits)
      else Some bits)"
  by pat_completeness auto
termination
  by (relation "measure (\<lambda>(code, pc, _). length code - pc)") (auto dest!: mark_push_pc)

declare codeBitmap_loop.simps [simp del]

definition codeBitmap :: "bytes \<Rightarrow> bitvec option" where
  "codeBitmap code = codeBitmap_loop code 0 (replicate (length code div 8 + 1 + 4) 0)"

section \<open>The instructions of a code\<close>

definition push_len :: "byte \<Rightarrow> nat" where
  "push_len op = (if is_push op then unat (op - PUSH1 + 1) else 0)"

text \<open>The positions of the instructions from \<open>pc\<close> on, each followed by its operand bytes.\<close>

function code_starts :: "bytes \<Rightarrow> nat \<Rightarrow> nat list" where
  "code_starts code pc = (if pc < length code then pc # code_starts code (pc + 1 + push_len (code ! pc)) else [])"
  by pat_completeness auto
termination
  by (relation "measure (\<lambda>(code, pc). length code - pc)") auto

declare code_starts.simps [simp del]

lemma code_starts_ge: "i \<in> set (code_starts code pc) \<Longrightarrow> pc \<le> i"
proof (induction code pc rule: code_starts.induct)
  case (1 code pc)
  then show ?case by (auto simp: code_starts.simps [of code pc] split: if_splits)
qed

section \<open>Correctness of the analysis\<close>

definition bv_bit :: "bitvec \<Rightarrow> nat \<Rightarrow> bool" where
  "bv_bit bits i \<longleftrightarrow> bit (bits ! (i div 8)) (7 - i mod 8)"

lemma bit_80: "bit (drop_bit r (0x80 :: byte)) j \<longleftrightarrow> r + j = 7"
proof -
  have "(0x80 :: byte) = push_bit 7 1" by simp
  then have "bit (drop_bit r (0x80 :: byte)) j \<longleftrightarrow> bit (push_bit 7 (1 :: byte)) (r + j)"
    by (simp only: bit_drop_bit_eq o_apply)
  also have "bit (push_bit 7 (1 :: byte)) k \<longleftrightarrow> k = 7" for k
    unfolding bit_push_bit_iff bit_1_iff by (auto simp: possible_bit_def)
  finally show ?thesis .
qed

lemma bit_FF: "bit (drop_bit r (0xFF :: byte)) j \<longleftrightarrow> r + j < 8"
proof -
  have "(0xFF :: byte) = mask 8" by (simp add: mask_eq_exp_minus_1)
  then have "bit (drop_bit r (0xFF :: byte)) j \<longleftrightarrow> bit (mask 8 :: byte) (r + j)"
    by (simp only: bit_drop_bit_eq o_apply)
  then show ?thesis by (simp add: bit_mask_iff)
qed

lemma codeSegment_bit:
  assumes "i div 8 < length bits"
  shows "codeSegment bits i = Some (\<not> bv_bit bits i)"
proof -
  have "x AND drop_bit r 0x80 = 0 \<longleftrightarrow> \<not> bit x (7 - r)" if r: "r < 8" for x :: byte and r
  proof -
    have "bit (x AND drop_bit r 0x80) n \<longleftrightarrow> n = 7 - r \<and> bit x n" for n
      using r unfolding bit_and_iff bit_80 by auto
    then show ?thesis by (metis bit_0_eq bot_apply bot_bool_def bit_word_eqI)
  qed
  then show ?thesis using assms by (simp add: codeSegment_def bv_bit_def)
qed

lemma bitvec_or_bit:
  assumes "bitvec_or bits q b = Some bits'"
  shows "length bits' = length bits" "bv_bit bits' i \<longleftrightarrow> bv_bit bits i \<or> i div 8 = q \<and> bit b (7 - i mod 8)"
  using assms by (auto simp: bitvec_or_def bv_bit_def bit_or_iff nth_list_update split: if_splits)

lemma bitvec_set_bit:
  assumes "pos div 8 < length bits"
  shows "\<exists>bits'. bitvec_set bits pos = Some bits' \<and> length bits' = length bits \<and> (\<forall>i. bv_bit bits' i \<longleftrightarrow> bv_bit bits i \<or> i = pos)"
proof -
  obtain bits' where b: "bitvec_or bits (pos div 8) (drop_bit (pos mod 8) 0x80) = Some bits'"
    using assms by (auto simp: bitvec_or_def)
  have "bit (drop_bit (pos mod 8) (0x80 :: byte)) (7 - i mod 8) \<longleftrightarrow> i mod 8 = pos mod 8" for i :: nat
    unfolding bit_80 using mod_less_divisor [of 8 i] mod_less_divisor [of 8 pos] by linarith
  moreover have "i = pos \<longleftrightarrow> i div 8 = pos div 8 \<and> i mod 8 = pos mod 8" for i
    by (metis mult_div_mod_eq)
  ultimately show ?thesis using bitvec_or_bit [OF b] by (simp add: bitvec_set_def b)
qed

lemma range8: "pos \<le> i \<and> i < pos + 8 \<longleftrightarrow>
    i div 8 = pos div 8 \<and> pos mod 8 \<le> i mod 8 \<or> i div 8 = pos div 8 + 1 \<and> i mod 8 < pos mod 8" for i pos :: nat
proof -
  have "8 * c + d \<le> 8 * a + b \<and> 8 * a + b < 8 * c + d + 8 \<longleftrightarrow> a = c \<and> d \<le> b \<or> a = c + 1 \<and> b < d"
    if "b < 8" "d < 8" for a b c d :: nat
    using that by presburger
  from this [of "i mod 8" "pos mod 8" "pos div 8" "i div 8"] show ?thesis by simp
qed

lemma bitvec_set8_bit:
  assumes "pos div 8 + 1 < length bits"
  shows "\<exists>bits'. bitvec_set8 bits pos = Some bits' \<and> length bits' = length bits
           \<and> (\<forall>i. bv_bit bits' i \<longleftrightarrow> bv_bit bits i \<or> pos \<le> i \<and> i < pos + 8)"
proof -
  obtain b1 where b1: "bitvec_or bits (pos div 8) (drop_bit (pos mod 8) 0xFF) = Some b1"
    using assms by (auto simp: bitvec_or_def)
  note l1 = bitvec_or_bit [OF b1]
  obtain b2 where b2: "bitvec_or b1 (pos div 8 + 1) (NOT (drop_bit (pos mod 8) 0xFF)) = Some b2"
    using assms l1 by (auto simp: bitvec_or_def)
  have "bit (drop_bit (pos mod 8) (0xFF :: byte)) (7 - i mod 8) \<longleftrightarrow> pos mod 8 \<le> i mod 8"
    "bit (NOT (drop_bit (pos mod 8) (0xFF :: byte))) (7 - i mod 8) \<longleftrightarrow> i mod 8 < pos mod 8" for i
    unfolding bit_not_iff bit_FF using mod_less_divisor [of 8 i] by (auto simp: possible_bit_def)
  then have "\<forall>i. bv_bit b2 i \<longleftrightarrow> bv_bit bits i \<or> pos \<le> i \<and> i < pos + 8"
    unfolding bitvec_or_bit(2) [OF b2] l1(2) range8 by blast
  moreover have "bitvec_set8 bits pos = Some b2" unfolding bitvec_set8_def b1 option.case by (rule b2)
  ultimately show ?thesis using l1(1) bitvec_or_bit(1) [OF b2] by simp
qed

lemma set8_loop_bits:
  assumes "pc + n < 8 * length bits"
  shows "\<exists>bits' pc' n'. set8_loop bits pc n = Some (bits', pc', n') \<and> length bits' = length bits
           \<and> pc' + n' = pc + n \<and> pc \<le> pc' \<and> (\<forall>i. bv_bit bits' i \<longleftrightarrow> bv_bit bits i \<or> pc \<le> i \<and> i < pc')"
  using assms
proof (induction bits pc n rule: set8_loop.induct)
  case (1 bits pc n)
  show ?case
  proof (cases "8 \<le> n")
    case False
    then show ?thesis by (auto simp: set8_loop.simps [of bits pc n])
  next
    case True
    then have "pc div 8 + 1 < length bits" using 1(2) by linarith
    then obtain b where b: "bitvec_set8 bits pc = Some b" "length b = length bits"
      "\<And>i. bv_bit b i \<longleftrightarrow> bv_bit bits i \<or> pc \<le> i \<and> i < pc + 8"
      using bitvec_set8_bit by metis
    have "pc + 8 + (n - 8) < 8 * length b" using 1(2) True b(2) by simp
    from 1(1) [OF True b(1) this] obtain bits' pc' n' where r:
      "set8_loop b (pc + 8) (n - 8) = Some (bits', pc', n')" "length bits' = length b" "pc' + n' = pc + 8 + (n - 8)"
      "pc + 8 \<le> pc'" "\<And>i. bv_bit bits' i \<longleftrightarrow> bv_bit b i \<or> pc + 8 \<le> i \<and> i < pc'"
      by blast
    have "bv_bit bits' i \<longleftrightarrow> bv_bit bits i \<or> pc \<le> i \<and> i < pc'" for i
      unfolding r(5) b(3) using r(4) by auto
    then show ?thesis using True b r by (simp add: set8_loop.simps [of bits pc n])
  qed
qed


lemma set_loop_bits:
  assumes "pc + n \<le> 8 * length bits"
  shows "\<exists>bits'. set_loop bits pc n = Some (bits', pc + n) \<and> length bits' = length bits
           \<and> (\<forall>i. bv_bit bits' i \<longleftrightarrow> bv_bit bits i \<or> pc \<le> i \<and> i < pc + n)"
  using assms
proof (induction n arbitrary: bits pc)
  case 0
  then show ?case by auto
next
  case (Suc n)
  have "pc div 8 < length bits" using Suc.prems by linarith
  then obtain b where b: "bitvec_set bits pc = Some b" "length b = length bits" "\<And>i. bv_bit b i \<longleftrightarrow> bv_bit bits i \<or> i = pc"
    using bitvec_set_bit by metis
  have "pc + 1 + n \<le> 8 * length b" using Suc.prems b(2) by simp
  from Suc.IH [OF this] obtain bits' where r: "set_loop b (pc + 1) n = Some (bits', pc + 1 + n)" "length bits' = length b"
    "\<And>i. bv_bit bits' i \<longleftrightarrow> bv_bit b i \<or> pc + 1 \<le> i \<and> i < pc + 1 + n"
    by blast
  have "bv_bit bits' i \<longleftrightarrow> bv_bit bits i \<or> pc \<le> i \<and> i < pc + Suc n" for i
    unfolding r(3) b(3) by auto
  then show ?case using b r by simp
qed

lemma push_len_le: "is_push op \<Longrightarrow> unat (op - PUSH1 + 1) \<le> 32"
proof -
  assume "is_push op"
  then have "96 \<le> unat op" "unat op \<le> 127" by (simp_all add: is_push_def PUSH1_def PUSH32_def word_le_nat_alt)
  then have "unat (op - PUSH1) = unat op - 96" by (subst unat_sub) (simp_all add: PUSH1_def word_le_nat_alt)
  then have "unat (op - PUSH1 + 1) = unat op - 96 + 1" using \<open>unat op \<le> 127\<close> by (simp add: unat_word_ariths)
  then show ?thesis using \<open>unat op \<le> 127\<close> by simp
qed

lemma mark_push_bits:
  assumes "is_push op" "pc < n" "length bits = n div 8 + 5"
  shows "\<exists>bits'. mark_push bits pc op = Some (bits', pc + 1 + push_len op) \<and> length bits' = length bits
           \<and> (\<forall>i. bv_bit bits' i \<longleftrightarrow> bv_bit bits i \<or> pc < i \<and> i < pc + 1 + push_len op)"
proof -
  let ?n = "unat (op - PUSH1 + 1)"
  have e: "pc + 1 + ?n < 8 * length bits" using assms(2,3) push_len_le [OF assms(1)] by linarith
  from set8_loop_bits [OF e] obtain b pc' n' where b: "set8_loop bits (pc + 1) ?n = Some (b, pc', n')" "length b = length bits"
    "pc' + n' = pc + 1 + ?n" "pc + 1 \<le> pc'" "\<And>i. bv_bit b i \<longleftrightarrow> bv_bit bits i \<or> pc + 1 \<le> i \<and> i < pc'"
    by blast
  have "pc' + n' \<le> 8 * length b" using e b(2,3) by simp
  from set_loop_bits [OF this] obtain bits' where r: "set_loop b pc' n' = Some (bits', pc' + n')" "length bits' = length b"
    "\<And>i. bv_bit bits' i \<longleftrightarrow> bv_bit b i \<or> pc' \<le> i \<and> i < pc' + n'"
    by blast
  have "bv_bit bits' i \<longleftrightarrow> bv_bit bits i \<or> pc < i \<and> i < pc + 1 + ?n" for i
    unfolding r(3) b(5) b(3) using b(3,4) by auto
  then show ?thesis using b(1-3) r(1,2) assms(1) by (simp add: mark_push_def push_len_def)
qed

lemma codeBitmap_loop_bits:
  assumes "length bits = length code div 8 + 5"
  shows "\<exists>bits'. codeBitmap_loop code pc bits = Some bits' \<and> length bits' = length bits
           \<and> (\<forall>i < length code. bv_bit bits' i \<longleftrightarrow> bv_bit bits i \<or> pc \<le> i \<and> i \<notin> set (code_starts code pc))"
  using assms
proof (induction code pc arbitrary: bits rule: code_starts.induct)
  case (1 code pc)
  let ?pc = "pc + 1 + push_len (code ! pc)"
  show ?case
  proof (cases "pc < length code")
    case False
    then show ?thesis by (auto simp: codeBitmap_loop.simps [of code pc] code_starts.simps [of code pc])
  next
    case True
    obtain b where b: "length b = length bits" "\<And>i. bv_bit b i \<longleftrightarrow> bv_bit bits i \<or> pc < i \<and> i < ?pc"
      "codeBitmap_loop code pc bits = codeBitmap_loop code ?pc b"
    proof (cases "is_push (code ! pc)")
      case p: True
      with mark_push_bits [OF p True 1(2)] show ?thesis
        using that by (auto simp: codeBitmap_loop.simps [of code pc] True)
    next
      case False
      moreover have "bv_bit bits i \<longleftrightarrow> bv_bit bits i \<or> pc < i \<and> i < Suc pc" for i by auto
      ultimately show ?thesis using that [of bits] True by (simp add: codeBitmap_loop.simps [of code pc] push_len_def)
    qed
    have "length b = length code div 8 + 5" using b(1) 1(2) by simp
    from 1(1) [OF True this] obtain bits' where r: "codeBitmap_loop code ?pc b = Some bits'" "length bits' = length b"
      "\<And>i. i < length code \<Longrightarrow> bv_bit bits' i \<longleftrightarrow> bv_bit b i \<or> ?pc \<le> i \<and> i \<notin> set (code_starts code ?pc)"
      by blast
    have "bv_bit bits' i \<longleftrightarrow> bv_bit bits i \<or> pc \<le> i \<and> i \<notin> set (code_starts code pc)" if "i < length code" for i
      unfolding r(3) [OF that] b(2) using True by (auto simp: code_starts.simps [of code pc] dest: code_starts_ge)
    then show ?thesis using b r by simp
  qed
qed

lemma codeBitmap_starts:
  "\<exists>bits. codeBitmap code = Some bits \<and> (\<forall>i < length code. codeSegment bits i = Some (i \<in> set (code_starts code 0)))"
proof -
  let ?z = "replicate (length code div 8 + 1 + 4) 0 :: bytes"
  have "length ?z = length code div 8 + 5" by simp
  from codeBitmap_loop_bits [OF this, of 0] obtain bits where b: "codeBitmap code = Some bits" "length bits = length ?z"
    "\<And>i. i < length code \<Longrightarrow> bv_bit bits i \<longleftrightarrow> bv_bit ?z i \<or> i \<notin> set (code_starts code 0)"
    unfolding codeBitmap_def by auto
  have "codeSegment bits i = Some (i \<in> set (code_starts code 0))" if i: "i < length code" for i
  proof -
    have d: "i div 8 < length code div 8 + 5" using i by (simp add: div_le_mono le_imp_less_Suc less_imp_le_nat trans_less_add1)
    then have "\<not> bv_bit ?z i" by (simp add: bv_bit_def del: replicate.simps)
    then show ?thesis using codeSegment_bit [of i bits] d b(2) b(3) [OF i] by simp
  qed
  then show ?thesis using b(1) by blast
qed


section \<open>Contracts\<close>

text \<open>
  The caller of a contract is an account or another contract, of which the address, its own caller and its value are used. The object
  a contract stands for is always an account and given by its address.
\<close>

datatype contract_ref = AccountRef address | ContractRef address address int

fun ref_Address :: "contract_ref \<Rightarrow> address" where
  "ref_Address (AccountRef a) = a"
| "ref_Address (ContractRef a _ _) = a"

record contract =
  CallerAddress :: address
  ccaller :: contract_ref
  cself :: address
  analysis :: "bitvec option"
  Code :: bytes
  CodeHash :: hash256
  CodeAddr :: "address option"
  Input :: bytes
  Gas :: u64
  cvalue :: int

type_synonym jumpdests = "hash256 \<Rightarrow> bitvec option"

text \<open>A contract called by a contract shares the map of analysed codes of its caller; any other starts with an empty one.\<close>

definition NewContract :: "contract_ref \<Rightarrow> jumpdests \<Rightarrow> address \<Rightarrow> int \<Rightarrow> u64 \<Rightarrow> contract \<times> jumpdests" where
  "NewContract caller parent object v gas =
     (\<lparr>CallerAddress = ref_Address caller, ccaller = caller, cself = object, analysis = None, Code = [], CodeHash = 0,
       CodeAddr = None, Input = [], Gas = gas, cvalue = v\<rparr>,
      case caller of ContractRef _ _ _ \<Rightarrow> parent | AccountRef _ \<Rightarrow> Map.empty)"

definition AsDelegate :: "contract \<Rightarrow> contract option" where
  "AsDelegate c =
     (case ccaller c of
        ContractRef _ ca v \<Rightarrow> Some (c\<lparr>CallerAddress := ca, cvalue := v\<rparr>)
      | AccountRef _ \<Rightarrow> None)"

definition GetByte :: "contract \<Rightarrow> u64 \<Rightarrow> byte" where
  "GetByte c n = (if unat n < length (Code c) then Code c ! unat n else 0)"

definition GetOp :: "contract \<Rightarrow> u64 \<Rightarrow> byte" where
  "GetOp c n = GetByte c n"

definition UseGas :: "u64 \<Rightarrow> contract \<Rightarrow> contract option" where
  "UseGas gas c = (if Gas c < gas then None else Some (c\<lparr>Gas := Gas c - gas\<rparr>))"

definition SetCallCode :: "address option \<Rightarrow> hash256 \<Rightarrow> bytes \<Rightarrow> contract \<Rightarrow> contract" where
  "SetCallCode addr h code c = c\<lparr>Code := code, CodeHash := h, CodeAddr := addr\<rparr>"

text \<open>\<open>SetCodeOptionalHash\<close> takes the code and the hash, zero when it has not been computed.\<close>

definition SetCodeOptionalHash :: "address option \<Rightarrow> bytes \<times> hash256 \<Rightarrow> contract \<Rightarrow> contract" where
  "SetCodeOptionalHash addr codeAndHash c = c\<lparr>Code := fst codeAndHash, CodeHash := snd codeAndHash, CodeAddr := addr\<rparr>"

fun bit_len :: "nat \<Rightarrow> nat" where
  "bit_len n = (if n = 0 then 0 else Suc (bit_len (n div 2)))"

declare bit_len.simps [simp del]

definition Big_BitLen :: "int \<Rightarrow> nat" where
  "Big_BitLen x = bit_len (nat \<bar>x\<bar>)"

definition isCode :: "jumpdests \<Rightarrow> contract \<Rightarrow> u64 \<Rightarrow> (bool \<times> jumpdests \<times> contract) option" where
  "isCode jd c udest =
     (if CodeHash c \<noteq> 0 then
        (case jd (CodeHash c) of
           Some bits \<Rightarrow> map_option (\<lambda>b. (b, jd, c\<lparr>analysis := Some bits\<rparr>)) (codeSegment bits (unat udest))
         | None \<Rightarrow>
             (case codeBitmap (Code c) of
                None \<Rightarrow> None
              | Some bits \<Rightarrow>
                  map_option (\<lambda>b. (b, jd(CodeHash c \<mapsto> bits), c\<lparr>analysis := Some bits\<rparr>)) (codeSegment bits (unat udest))))
      else
        (case analysis c of
           Some bits \<Rightarrow> map_option (\<lambda>b. (b, jd, c)) (codeSegment bits (unat udest))
         | None \<Rightarrow>
             (case codeBitmap (Code c) of
                None \<Rightarrow> None
              | Some bits \<Rightarrow> map_option (\<lambda>b. (b, jd, c\<lparr>analysis := Some bits\<rparr>)) (codeSegment bits (unat udest)))))"

definition validJumpdest :: "jumpdests \<Rightarrow> contract \<Rightarrow> int \<Rightarrow> (bool \<times> jumpdests \<times> contract) option" where
  "validJumpdest jd c dest =
     (let udest = Big_Uint64 dest
      in if Big_BitLen dest \<ge> 63 \<or> unat udest \<ge> length (Code c) then Some (False, jd, c)
         else if Code c ! unat udest \<noteq> JUMPDEST then Some (False, jd, c)
         else isCode jd c udest)"

definition validJumpSubdest :: "jumpdests \<Rightarrow> contract \<Rightarrow> u64 \<Rightarrow> (bool \<times> jumpdests \<times> contract) option" where
  "validJumpSubdest jd c udest =
     (if sint udest < 0 \<or> unat udest \<ge> length (Code c) then Some (False, jd, c)
      else if Code c ! unat udest \<noteq> BEGINSUB then Some (False, jd, c)
      else isCode jd c udest)"

text \<open>The analyses a contract can meet belong to its code.\<close>

definition analyses_ok :: "jumpdests \<Rightarrow> contract \<Rightarrow> bool" where
  "analyses_ok jd c \<longleftrightarrow>
     (if CodeHash c \<noteq> 0 then (case jd (CodeHash c) of Some bits \<Rightarrow> codeBitmap (Code c) = Some bits | None \<Rightarrow> True)
      else (case analysis c of Some bits \<Rightarrow> codeBitmap (Code c) = Some bits | None \<Rightarrow> True))"

text \<open>The reference: a position is a destination when an instruction starts there and it is the marker.\<close>

definition jump_target :: "byte \<Rightarrow> bytes \<Rightarrow> nat \<Rightarrow> bool" where
  "jump_target marker code i \<longleftrightarrow> i < length code \<and> code ! i = marker \<and> i \<in> set (code_starts code 0)"

lemma isCode_starts:
  assumes "analyses_ok jd c" "unat i < length (Code c)"
  shows "\<exists>jd' c'. isCode jd c i = Some (unat i \<in> set (code_starts (Code c) 0), jd', c') \<and> analyses_ok jd' c'
           \<and> (\<forall>h. h \<noteq> CodeHash c \<longrightarrow> jd' h = jd h) \<and> Code c' = Code c \<and> CodeHash c' = CodeHash c \<and> Gas c' = Gas c"
proof -
  obtain bits where b: "codeBitmap (Code c) = Some bits" "codeSegment bits (unat i) = Some (unat i \<in> set (code_starts (Code c) 0))"
    using codeBitmap_starts [of "Code c"] assms(2) by blast
  let ?r = "unat i \<in> set (code_starts (Code c) 0)" and ?c = "c\<lparr>analysis := Some bits\<rparr>"
  consider "CodeHash c \<noteq> 0" "jd (CodeHash c) = None" | "CodeHash c \<noteq> 0" "jd (CodeHash c) = Some bits"
    | "CodeHash c = 0" "analysis c = None" | "CodeHash c = 0" "analysis c = Some bits"
    using assms(1) b(1) unfolding analyses_ok_def by (cases "jd (CodeHash c)"; cases "analysis c"; cases "CodeHash c = 0") simp_all
  then have "isCode jd c i = Some (?r, jd(CodeHash c \<mapsto> bits), ?c) \<and> CodeHash c \<noteq> 0
      \<or> isCode jd c i = Some (?r, jd, ?c) \<or> isCode jd c i = Some (?r, jd, c)"
    by cases (simp_all add: isCode_def b)
  moreover have "analyses_ok (jd(CodeHash c \<mapsto> bits)) ?c" if "CodeHash c \<noteq> 0" using b(1) that by (simp add: analyses_ok_def)
  moreover have "analyses_ok jd ?c"
    using b(1) assms(1) by (cases "CodeHash c = 0"; cases "jd (CodeHash c)") (simp_all add: analyses_ok_def)
  ultimately show ?thesis using assms(1) by (elim disjE conjE) (intro exI conjI, assumption, simp_all)+
qed

lemma Big_Uint64_small: "nat \<bar>x\<bar> < 2 ^ 64 \<Longrightarrow> unat (Big_Uint64 x) = nat \<bar>x\<bar>"
  unfolding Big_Uint64_def by (rule unat_of_nat_small)

lemma bit_len_ge: "2 ^ k \<le> n \<longleftrightarrow> k < bit_len n"
proof (induction n arbitrary: k rule: bit_len.induct)
  case (1 n)
  show ?case
  proof (cases "n = 0")
    case True
    then show ?thesis by (simp add: bit_len.simps)
  next
    case False
    then show ?thesis using "1.IH" [OF False]
      by (cases k) (auto simp: bit_len.simps [of n] less_eq_div_iff_mult_less_eq mult.commute)
  qed
qed

text \<open>
  Claim C38. The check of a jump destination, which looks the analysis of the code up in the map shared with the callers or in the
  contract itself and computes it from the code otherwise, accepts exactly the positions of the code at which an
  instruction starts, counted from the beginning and with the operands of every push skipped, and which hold the marker. It never runs
  out of the bit vector. The analyses it leaves behind belong to the code again, and those of other codes are unchanged.
\<close>

theorem validJumpdest_correct:
  assumes "analyses_ok jd c" "length (Code c) < 2 ^ 62"
  shows "\<exists>jd' c'. validJumpdest jd c dest = Some (jump_target JUMPDEST (Code c) (nat \<bar>dest\<bar>), jd', c')
           \<and> analyses_ok jd' c' \<and> (\<forall>h. h \<noteq> CodeHash c \<longrightarrow> jd' h = jd h) \<and> Code c' = Code c"
proof (cases "Big_BitLen dest \<ge> 63")
  case True
  then have "2 ^ 62 \<le> nat \<bar>dest\<bar>" unfolding bit_len_ge Big_BitLen_def by simp
  then have "\<not> nat \<bar>dest\<bar> < length (Code c)" using assms(2) by linarith
  then show ?thesis using True assms(1) by (simp add: validJumpdest_def Let_def jump_target_def)
next
  case False
  then have "nat \<bar>dest\<bar> < 2 ^ 62" unfolding not_le [symmetric] bit_len_ge Big_BitLen_def by simp
  then have u: "unat (Big_Uint64 dest) = nat \<bar>dest\<bar>"
    by (intro Big_Uint64_small, elim order_less_trans) (rule power_strict_increasing, simp_all)
  note i = isCode_starts [OF assms(1), of "Big_Uint64 dest", unfolded u]
  show ?thesis
  proof (cases "nat \<bar>dest\<bar> < length (Code c) \<and> Code c ! nat \<bar>dest\<bar> = JUMPDEST")
    case True
    then have "validJumpdest jd c dest = isCode jd c (Big_Uint64 dest)" using False by (simp add: validJumpdest_def Let_def u)
    then show ?thesis using True i by (auto simp: jump_target_def)
  next
    case bad: False
    then have "validJumpdest jd c dest = Some (False, jd, c)" using False by (auto simp: validJumpdest_def Let_def u)
    then show ?thesis using bad assms(1) by (auto simp: jump_target_def)
  qed
qed

definition jump_contract :: contract where
  "jump_contract = (fst (NewContract (AccountRef 1) Map.empty 2 0 100))\<lparr>Code := [PUSH1, JUMPDEST, JUMPDEST], CodeHash := 7\<rparr>"

theorem validJumpdest_correct_witness:
  "(\<exists>jd' c'. validJumpdest Map.empty jump_contract 1 = Some (False, jd', c'))
   \<and> (\<exists>jd' c'. validJumpdest Map.empty jump_contract 2 = Some (True, jd', c'))"
proof -
  have ok: "analyses_ok Map.empty jump_contract" "length (Code jump_contract) < 2 ^ 62"
    by (simp_all add: analyses_ok_def jump_contract_def NewContract_def)
  have "\<not> jump_target JUMPDEST (Code jump_contract) (nat \<bar>1\<bar>)" "jump_target JUMPDEST (Code jump_contract) (nat \<bar>2\<bar>)"
    by (simp_all add: jump_target_def jump_contract_def code_starts.simps push_len_def is_push_def PUSH1_def PUSH32_def JUMPDEST_def)
  then show ?thesis using validJumpdest_correct [OF ok, of 1] validJumpdest_correct [OF ok, of 2] by auto
qed

end
