(* ===== verification/Spec2Isabelle.thy ===== *)
theory Spec2Isabelle
  imports KadNode RlpReader RlpDecode NdnFetch TrieProof EvmContract
begin

text \<open>
  A verification library for an Ethereum client over Named Data Networking. The program is a Go client whose peer
  discovery and data exchange run over NDN Interests and Data instead of sockets. Its own part is \<open>ndn/\<close>: a Kademlia overlay
  (\<open>ndn/kad\<close>), consumers and producers of segmented objects (\<open>ndn/ndnsuit\<close>, \<open>ndn/utils\<close>), and the Ethereum services on
  top of them (\<open>ndn/eth\<close>). Messages and stored data are RLP (\<open>rlp/\<close>), and the state is kept in Merkle Patricia tries (\<open>trie/\<close>).
  Contracts run on the virtual machine in \<open>core/vm\<close>.

  \<^bold>\<open>Conventions.\<close> A struct is a record, a tagged union a datatype, a function of the code one definition under the name it has in the
  code. Go integers keep their width: \<open>uint8\<close> to \<open>uint64\<close> are words, \<open>int\<close> is \<open>int\<close> where it cannot overflow. Byte slices are lists
  of 8-bit words. A run-time panic, a blocked send and a loop without an end are the result \<open>None\<close>; errors are values of
  a sum type. Shared mutable objects (the peers of the overlay, the items of the lookup buffer) are references into a store
  that is passed along. Clock readings, random bytes, the order in which a map is traversed, the outcome of an Interest and the results
  of external packages (hash functions, the name parser) are parameters.

  \<^bold>\<open>Theories.\<close>
  \<^item> \<open>Prelude\<close>: machine integers, byte strings, slices, list facts and the collections of simplification rules.
  \<^item> \<open>GoHeap\<close>: the binary heap of \<open>container/heap\<close>, verified once for every client that meets the laws of its locale (an order on the
    elements and a swap that only renumbers them).
  \<^item> \<open>KadId\<close> (\<open>kad/common.go\<close>): identifiers; \<open>DistCmp\<close> and \<open>LogDist\<close> are the XOR metric and its bit length.
  \<^item> \<open>KadPq\<close>, \<open>KadPeersort\<close> (\<open>kad/peer.go\<close>, \<open>kad/peersort.go\<close>): peers, the distance queue as a client of the heap, and the
    buffer of a lookup.
  \<^item> \<open>KadTable\<close> (\<open>kad/routingtable.go\<close>): buckets and replacement lists; the invariant of the table over any history, and that
    the search returns the nearest peers.
  \<^item> \<open>KadLookup\<close> (\<open>kad/algo.go\<close>): the iterative lookup against an arbitrary environment of answers, arrival orders and aborts.
  \<^item> \<open>KadNode\<close> (\<open>kad/ping.go\<close>, \<open>kad/node.go\<close>, \<open>kad/ndnpeer.go\<close>): the querying service and the node as a step relation; the invariant
    of all reachable states.
  \<^item> \<open>NdnName\<close> (\<open>ndnsuit/utils.go\<close>): names and their printable form.
  \<^item> \<open>NdnCache\<close> (\<open>utils/cacher.go\<close>, \<open>eth/objcache.go\<close>): the ring cache, which refines a bounded queue of objects, and the expiring
    cache with the two threads that stop it.
  \<^item> \<open>NdnFetch\<close> (\<open>ndnsuit/consumer.go\<close>, \<open>fetching.go\<close>, \<open>producer.go\<close>): the sequential and the asynchronous fetch, proved
    over a locale of segment sources that both caches interpret: together they reconstruct the cached object.
  \<^item> \<open>RlpInt\<close>, \<open>RlpEncode\<close>, \<open>RlpReader\<close> (\<open>rlp/encode.go\<close>): the encoder with its deferred list headers and its three outputs, equal to the
    recursive definition \<open>rlp_val\<close>.
  \<^item> \<open>RlpRaw\<close> (\<open>rlp/raw.go\<close>, \<open>rlp/iterator.go\<close>): splitting exactly the canonical encodings.
  \<^item> \<open>RlpStream\<close>, \<open>RlpDecode\<close> (\<open>rlp/decode.go\<close>): the pull parser and the typed decoders; a value is returned exactly for its
    encoding.
  \<^item> \<open>TrieKey\<close> (\<open>trie/encoding.go\<close>), \<open>TrieOps\<close> (\<open>trie/trie.go\<close>), \<open>TrieNode\<close> (\<open>trie/node.go\<close>), \<open>TrieHash\<close> (\<open>trie/hasher.go\<close>),
    \<open>TrieProof\<close> (\<open>trie/proof.go\<close>): the trie. \<open>TrieMap\<close> shows that it refines a finite map, over a database that may lack nodes;
    \<open>TrieCanon\<close> that its shape is determined by its content. So the root hash commits to the content, and Merkle proofs
    are sound and complete.
  \<^item> \<open>EvmWord\<close> (\<open>core/vm/instructions.go\<close>, \<open>common/math/big.go\<close>): the 25 arithmetic, comparison, bitwise and shift instructions over big
    integers, equal to the operations on words of 256 bits.
  \<^item> \<open>EvmContract\<close> (\<open>core/vm/analysis.go\<close>, \<open>core/vm/contract.go\<close>): contracts and the bit vector of push operands; with its caches, the check of
    a jump accepts exactly the marked instruction starts of the code.

  \<^bold>\<open>Fuel.\<close> The recursion of the trie through stored nodes has a fuel argument that the entry points set to
  \<open>2 * length key + 2\<close>: a hash and an inner node are visited for each nibble at most. The node decoder and the typed decoders get one more
  than the length of the input, since nested contents are shorter. The verifier of proofs takes the bound of its rounds as
  an argument; one more than the length of the key is enough. In each case a lemma or a property states that the result is then there.

  \<^bold>\<open>Hypotheses.\<close> Hash functions occur with the length of their results and with the absence of the collisions that a property
  depends on, for the values at hand only. The sizes of encodings stay below \<open>2 ^ 63\<close>, as Go slices do.

  \<^bold>\<open>Not modelled.\<close> Reflection over Go types (\<open>rlp/typecache.go\<close>): a type is a value of a datatype. The storage of the trie (committer,
  database with reference counts, iterators, sync): a node database is a function. The goroutines of faces, of the table of pending
  Interests and of the worker pools, and the packets of the external NDN library: what they deliver is a parameter. The
  transport of the Kademlia messages with their signatures, the Ethereum services over NDN and the chain monitor: services around
  the modelled codecs, caches and back ends. Of the virtual machine, the interpreter loop, gas, memory and the instructions that read or
  change the state, and the pool that recycles integer objects. The rest of the upstream client (block chain, state database, consensus,
  transaction pool, devp2p, RPC, wallets, tools): it is used through the interfaces above.
\<close>

end
